(* ===== verification/Prelude.thy ===== *)
theory Prelude
  imports Main "HOL-Library.Word" "HOL-Library.Monad_Syntax"
begin

text \<open>
  Shared vocabulary of the development: the machine integers of the code, the error
  codes the library reports through \<open>errno\<close>, the result types of fallible
  operations, the collections of simplification rules that the components extend, and
  generic lemmas on lists and words.
\<close>

unbundle bit_operations_syntax

section \<open>Types\<close>

type_synonym byte = "8 word"
type_synonym u16 = "16 word"
type_synonym u32 = "32 word"
type_synonym u64 = "64 word"

text \<open>The error codes that the modelled operations store in \<open>errno\<close>.\<close>

datatype errno =
    EAGAIN | EFAULT | EFSM | EHOSTUNREACH | EINVAL | EMSGSIZE | ENOMEM | ENOTSUP | EPROTO

text \<open>
  An operation of the code returns normally, returns \<open>-1\<close> after setting \<open>errno\<close>, or
  does not return because an assertion (\<open>zmq_assert\<close>, \<open>errno_assert\<close>) fails
  or memory is read that the object does not own.  The second case is a value \<open>Inl\<close>
  of \<open>'a result\<close>, the third is \<open>None\<close> of an option type; operations that
  change the state on an error return the state beside the return code.
\<close>

type_synonym 'a result = "errno + 'a"

definition zmq_assert :: "bool \<Rightarrow> unit option" where
  "zmq_assert b = (if b then Some () else None)"

section \<open>Collections of facts\<close>

named_theorems wire_simps \<open>round trips of the network byte order\<close>
named_theorems inv_intros \<open>operations keep the invariant of their component\<close>

section \<open>Assertions\<close>

lemma zmq_assert_simps [simp]:
  "zmq_assert True = Some ()"
  "zmq_assert False = None"
  "(zmq_assert b = Some u) = b"
  "(zmq_assert b = None) = (\<not> b)"
  by (auto simp: zmq_assert_def)

lemma bind_zmq_assert [simp]:
  "(Option.bind (zmq_assert b) f = Some x) = (b \<and> f () = Some x)"
  by (simp add: zmq_assert_def)

section \<open>Lists\<close>

lemma take_append_exact [simp]: "length xs = n \<Longrightarrow> take n (xs @ ys) = xs"
  by simp

lemma drop_append_exact [simp]: "length xs = n \<Longrightarrow> drop n (xs @ ys) = ys"
  by simp

text \<open>Two ways to cut the same list, compared at a point inside both first pieces.\<close>

lemma append_eq_split:
  assumes "a @ b = c @ e" "n \<le> length a" "n \<le> length c"
  shows "take n a = take n c" "drop n a @ b = drop n c @ e"
  using arg_cong [OF assms(1), of "take n"] arg_cong [OF assms(1), of "drop n"] assms(2,3) by auto

lemma unat_of_nat_small: "n < 2 ^ LENGTH('a) \<Longrightarrow> unat (of_nat n :: 'a :: len word) = n"
  by (simp add: unat_of_nat)

lemma in_set_tlD: "x \<in> set (tl xs) \<Longrightarrow> x \<in> set xs"
  by (cases xs) auto

end
