(* ===== verification/Wire.thy ===== *)
theory Wire
  imports Prelude
begin

text \<open>
  The byte order of the wire, \<open>src/wire.hpp\<close>.  A \<open>put\<close> function is modelled by the
  bytes it stores at \<open>buffer_ [0 ..]\<close>, a \<open>get\<close> function by the value it reads from
  the start of the buffer, \<open>None\<close> if the buffer is shorter than what is read.
\<close>

definition put_uint8 :: "byte \<Rightarrow> byte list" where
  "put_uint8 v = [v]"

definition get_uint8 :: "byte list \<Rightarrow> byte option" where
  "get_uint8 buf = (if length buf < 1 then None else Some (buf ! 0))"

definition put_uint16 :: "u16 \<Rightarrow> byte list" where
  "put_uint16 v = [ucast (drop_bit 8 v AND 0xff), ucast (v AND 0xff)]"

definition get_uint16 :: "byte list \<Rightarrow> u16 option" where
  "get_uint16 buf =
     (if length buf < 2 then None
      else Some (push_bit 8 (ucast (buf ! 0)) OR ucast (buf ! 1)))"

definition put_uint32 :: "u32 \<Rightarrow> byte list" where
  "put_uint32 v =
     [ucast (drop_bit 24 v AND 0xff), ucast (drop_bit 16 v AND 0xff),
      ucast (drop_bit 8 v AND 0xff), ucast (v AND 0xff)]"

definition get_uint32 :: "byte list \<Rightarrow> u32 option" where
  "get_uint32 buf =
     (if length buf < 4 then None
      else Some (push_bit 24 (ucast (buf ! 0)) OR push_bit 16 (ucast (buf ! 1)) OR
                 push_bit 8 (ucast (buf ! 2)) OR ucast (buf ! 3)))"

definition put_uint64 :: "u64 \<Rightarrow> byte list" where
  "put_uint64 v =
     [ucast (drop_bit 56 v AND 0xff), ucast (drop_bit 48 v AND 0xff),
      ucast (drop_bit 40 v AND 0xff), ucast (drop_bit 32 v AND 0xff),
      ucast (drop_bit 24 v AND 0xff), ucast (drop_bit 16 v AND 0xff),
      ucast (drop_bit 8 v AND 0xff), ucast (v AND 0xff)]"

definition get_uint64 :: "byte list \<Rightarrow> u64 option" where
  "get_uint64 buf =
     (if length buf < 8 then None
      else Some (push_bit 56 (ucast (buf ! 0)) OR push_bit 48 (ucast (buf ! 1)) OR
                 push_bit 40 (ucast (buf ! 2)) OR push_bit 32 (ucast (buf ! 3)) OR
                 push_bit 24 (ucast (buf ! 4)) OR push_bit 16 (ucast (buf ! 5)) OR
                 push_bit 8 (ucast (buf ! 6)) OR ucast (buf ! 7)))"

section \<open>The contract of a fixed-width integer encoding\<close>

text \<open>
  What the framing layers rely on: a fixed number of bytes is written, reading them back
  gives the value whatever follows, and reading determines the bytes that were read.
\<close>

locale wire_int =
  fixes put :: "'v \<Rightarrow> byte list"
    and get :: "byte list \<Rightarrow> 'v option"
    and width :: nat
  assumes length_put: "length (put v) = width"
    and get_put: "get (put v @ rest) = Some v"
    and put_get: "get buf = Some v \<Longrightarrow> put v = take width buf"
    and get_short: "get buf = None \<longleftrightarrow> length buf < width"
begin

lemma get_put_exact: "get (put v) = Some v"
  using get_put [of v "[]"] by simp

lemma put_inject: "put v = put w \<longleftrightarrow> v = w"
  using get_put_exact by (metis option.inject)

lemma get_prefix_stable: "width \<le> length buf \<Longrightarrow> get (buf @ rest) = get buf"
proof -
  assume "width \<le> length buf"
  then obtain v where v: "get buf = Some v"
    using get_short [of buf] by (cases "get buf") auto
  then have "buf @ rest = put v @ (drop width buf @ rest)"
    using put_get by (metis append.assoc append_take_drop_id)
  then show ?thesis
    using get_put v by metis
qed

lemma stream_get: "get (put v @ put w @ rest) = Some v \<and> get (drop width (put v @ put w @ rest)) = Some w"
  using get_put length_put by simp

end

section \<open>Bytes of a word\<close>

lemma byte_of_mask [simp]:
  "(ucast (x AND 0xff :: 'a::len word) :: byte) = ucast x"
proof -
  have "(0xff :: 'a word) = mask 8" by (simp add: mask_eq_exp_minus_1)
  then have *: "x AND 0xff = take_bit 8 x" by (simp only: take_bit_eq_mask)
  show ?thesis
    unfolding * by (rule bit_word_eqI) (auto simp: bit_simps)
qed

lemma low_byte [wire_simps]: "(ucast (ucast v :: byte) :: 'a::len word) = take_bit 8 v"
  by (rule bit_word_eqI) (auto simp: bit_simps)

lemma join_byte [wire_simps]:
  "push_bit k (take_bit 8 (drop_bit k v)) OR take_bit k v = take_bit (k + 8) (v :: 'a::len word)"
proof (rule bit_word_eqI)
  fix n assume n: "n < LENGTH('a)"
  show "bit (push_bit k (take_bit 8 (drop_bit k v)) OR take_bit k v) n = bit (take_bit (k + 8) v) n"
  proof (cases "k \<le> n")
    case True
    with n have "n - k < LENGTH('a)" "k + (n - k) = n" by auto
    with True n show ?thesis by (auto simp: bit_simps)
  next
    case False
    with n show ?thesis by (auto simp: bit_simps)
  qed
qed

lemma byte_high_bits [simp]: "8 \<le> k \<Longrightarrow> bit (b :: byte) (k + n) = False"
  using bit_imp_le_length [of b "k + n"] by auto

lemma full_word: "take_bit LENGTH('a) v = (v :: 'a::len word)"
  by (rule bit_word_eqI) (auto simp: bit_simps)

lemmas full_word_widths [wire_simps] =
  full_word [where 'a = 16, simplified] full_word [where 'a = 32, simplified]
  full_word [where 'a = 64, simplified]

lemma take2_nth: "\<not> length xs < 2 \<Longrightarrow> take 2 xs = [xs ! 0, xs ! 1]"
  by (auto simp: numeral_eq_Suc not_less Suc_le_length_iff)

lemma take4_nth: "\<not> length xs < 4 \<Longrightarrow> take 4 xs = [xs ! 0, xs ! 1, xs ! 2, xs ! 3]"
  by (auto simp: numeral_eq_Suc not_less Suc_le_length_iff)

lemma take8_nth:
  "\<not> length xs < 8 \<Longrightarrow>
   take 8 xs = [xs ! 0, xs ! 1, xs ! 2, xs ! 3, xs ! 4, xs ! 5, xs ! 6, xs ! 7]"
  by (auto simp: numeral_eq_Suc not_less Suc_le_length_iff)

section \<open>The encodings of the code satisfy the contract\<close>

interpretation w8: wire_int put_uint8 get_uint8 1
  by unfold_locales (auto simp: put_uint8_def get_uint8_def take_Suc neq_Nil_conv split: if_splits)

interpretation w16: wire_int put_uint16 get_uint16 2
proof unfold_locales
  fix v :: u16 and rest
  show "get_uint16 (put_uint16 v @ rest) = Some v"
    by (simp add: put_uint16_def get_uint16_def wire_simps)
next
  fix v :: u16 and buf
  assume "get_uint16 buf = Some v"
  then show "put_uint16 v = take 2 buf"
    by (auto simp: put_uint16_def get_uint16_def take2_nth bit_simps split: if_splits
        intro!: bit_word_eqI)
qed (auto simp: put_uint16_def get_uint16_def)

interpretation w32: wire_int put_uint32 get_uint32 4
proof unfold_locales
  fix v :: u32 and rest
  show "get_uint32 (put_uint32 v @ rest) = Some v"
    by (simp add: put_uint32_def get_uint32_def wire_simps)
next
  fix v :: u32 and buf
  assume "get_uint32 buf = Some v"
  then show "put_uint32 v = take 4 buf"
    by (auto simp: put_uint32_def get_uint32_def take4_nth bit_simps split: if_splits
        intro!: bit_word_eqI)
qed (auto simp: put_uint32_def get_uint32_def)

interpretation w64: wire_int put_uint64 get_uint64 8
proof unfold_locales
  fix v :: u64 and rest
  show "get_uint64 (put_uint64 v @ rest) = Some v"
    by (simp add: put_uint64_def get_uint64_def wire_simps)
next
  fix v :: u64 and buf
  assume "get_uint64 buf = Some v"
  then show "put_uint64 v = take 8 buf"
    by (auto simp: put_uint64_def get_uint64_def take8_nth bit_simps split: if_splits
        intro!: bit_word_eqI)
qed (auto simp: put_uint64_def get_uint64_def)

lemmas wire_lengths [simp] = w8.length_put w16.length_put w32.length_put w64.length_put

lemmas wire_gets [simp] =
  w8.get_put w16.get_put w32.get_put w64.get_put
  w8.get_put_exact w16.get_put_exact w32.get_put_exact w64.get_put_exact

end
