(* ===== verification/Msg.thy ===== *)
theory Msg
  imports Prelude
begin

text \<open>
  The message object \<open>msg_t\<close> of \<open>src/msg.hpp\<close> and \<open>src/msg.cpp\<close>.

  A message is a tagged union.  Short messages keep their bytes inside the object,
  constant messages point to memory they never free, and long messages point to a
  reference-counted content block on the heap, either allocated by the message (\<open>Lmsg\<close>)
  or lying in the receive buffer of a decoder (\<open>Zclmsg\<close>).  The heap is explicit:
  content blocks and metadata objects by address, and a log of the calls of user-supplied
  free functions.  An operation returns \<open>None\<close> where the code aborts on an assertion or
  touches a block that is not allocated.
\<close>

section \<open>Data\<close>

text \<open>Reference counters, \<open>src/atomic_counter.hpp\<close>: 32-bit, wrapping.\<close>

definition counter_add :: "u32 \<Rightarrow> u32 \<Rightarrow> u32" where
  "counter_add v n = v + n"

definition counter_sub :: "u32 \<Rightarrow> u32 \<Rightarrow> u32 \<times> bool" where
  "counter_sub v n = (v - n, v - n \<noteq> 0)"

text \<open>
  The shared buffer \<open>content_t\<close>.  \<open>c_data\<close> is the memory behind the data pointer,
  \<open>c_ffn\<close> the free function (\<open>NULL\<close> is \<open>None\<close>).
\<close>

record content =
  c_data :: "byte list"
  c_size :: u64
  c_ffn :: "nat option"
  c_hint :: nat
  c_refcnt :: u32

text \<open>
  The type tag and the type-specific fields of the union.  \<open>Invalid\<close> is every tag outside
  \<open>type_min .. type_max\<close>, in particular the tag 0 of a closed message.  A content
  pointer may be \<open>NULL\<close> after a failed allocation.  The remote identifier of a long
  message that no initialiser wrote is \<open>None\<close>: its value is indeterminate.
\<close>

datatype body =
    Vsm "byte list"
  | Lmsg "nat option" "u32 option"
  | Delimiter
  | Cmsg "byte list" u32
  | Zclmsg nat
  | Join
  | Leave
  | Invalid

record msg =
  m_metadata :: "nat option"
  m_body :: body
  m_flags :: byte
  m_group :: "byte list"
  m_routing_id :: u32

text \<open>
  The heap.  \<open>h_grant\<close> tells whether the allocator grants a request of a size,
  \<open>h_junk\<close> is the content of memory that was allocated and not yet written.
\<close>

record heap =
  h_contents :: "nat \<Rightarrow> content option"
  h_metas :: "nat \<Rightarrow> u32 option"
  h_next :: nat
  h_calls :: "(nat \<times> byte list \<times> nat) list"
  h_grant :: "nat \<Rightarrow> bool"
  h_junk :: "nat \<Rightarrow> byte"

section \<open>Constants\<close>

definition flag_more :: byte where "flag_more = 1"
definition flag_command :: byte where "flag_command = 2"
definition flag_netml_data :: byte where "flag_netml_data = 4"
definition flag_netml_hotdata :: byte where "flag_netml_hotdata = 8"
definition flag_netml_key :: byte where "flag_netml_key = 16"
definition flag_credential :: byte where "flag_credential = 32"
definition flag_routing_id :: byte where "flag_routing_id = 64"
definition flag_shared :: byte where "flag_shared = 128"

lemmas flag_defs = flag_more_def flag_command_def flag_netml_data_def flag_netml_hotdata_def
  flag_netml_key_def flag_credential_def flag_routing_id_def flag_shared_def

text \<open>\<open>msg_t_size - (sizeof (metadata_t *) + 3 + 16 + sizeof (uint32_t))\<close>, with 8-byte pointers.\<close>

definition max_vsm_size :: nat where
  "max_vsm_size = 64 - (8 + 3 + 16 + 4)"

definition sizeof_content :: nat where
  "sizeof_content = 40"

definition group_max_length :: nat where
  "group_max_length = 15"

section \<open>Initialisation\<close>

definition blank_msg :: "body \<Rightarrow> msg" where
  "blank_msg b = \<lparr>m_metadata = None, m_body = b, m_flags = 0, m_group = [], m_routing_id = 0\<rparr>"

definition alloc_content :: "content \<Rightarrow> heap \<Rightarrow> nat \<times> heap" where
  "alloc_content c h =
     (h_next h, h\<lparr>h_contents := (h_contents h)(h_next h \<mapsto> c), h_next := Suc (h_next h)\<rparr>)"

definition msg_check :: "msg \<Rightarrow> bool" where
  "msg_check m = (m_body m \<noteq> Invalid)"

definition msg_init :: msg where
  "msg_init = blank_msg (Vsm [])"

text \<open>
  \<open>init_size\<close>: the content of the new message is whatever the memory holds.  The size
  computation wraps at 64 bits and is checked.
\<close>

definition msg_init_size :: "u64 \<Rightarrow> heap \<Rightarrow> unit result \<times> heap \<times> msg" where
  "msg_init_size sz h =
     (if unat sz \<le> max_vsm_size
      then (Inr (), h, blank_msg (Vsm (map (h_junk h) [0..<unat sz])))
      else if (sizeof_content + unat sz) mod 2 ^ 64 > unat sz \<and> h_grant h (sizeof_content + unat sz)
      then (let (a, h') = alloc_content
                  \<lparr>c_data = map (h_junk h) [0..<unat sz], c_size = sz, c_ffn = None,
                   c_hint = 0, c_refcnt = 0\<rparr> h
            in (Inr (), h', blank_msg (Lmsg (Some a) None)))
      else (Inl ENOMEM, h, blank_msg (Lmsg None None)))"

text \<open>
  \<open>init_external_storage\<close>: the content block at \<open>a\<close> lies in the buffer of the decoder;
  its fields are overwritten.  The data pointer and the content pointer are not \<open>NULL\<close>.
\<close>

definition msg_init_external_storage ::
  "nat \<Rightarrow> byte list \<Rightarrow> nat option \<Rightarrow> nat \<Rightarrow> heap \<Rightarrow> unit result \<times> heap \<times> msg" where
  "msg_init_external_storage a data ffn hint h =
     (Inr (),
      h\<lparr>h_contents := (h_contents h)(a \<mapsto>
          \<lparr>c_data = data, c_size = of_nat (length data), c_ffn = ffn, c_hint = hint,
           c_refcnt = 0\<rparr>)\<rparr>,
      blank_msg (Zclmsg a))"

definition msg_init_data ::
  "byte list \<Rightarrow> nat option \<Rightarrow> nat \<Rightarrow> u16 \<Rightarrow> heap \<Rightarrow> unit result \<times> heap \<times> msg" where
  "msg_init_data data ffn hint rid h =
     (if ffn = None
      then (Inr (), h, blank_msg (Cmsg data (ucast rid)))
      else if h_grant h sizeof_content
      then (let (a, h') = alloc_content
                  \<lparr>c_data = data, c_size = of_nat (length data), c_ffn = ffn, c_hint = hint,
                   c_refcnt = 0\<rparr> h
            in (Inr (), h', blank_msg (Lmsg (Some a) (Some (ucast rid)))))
      else (Inl ENOMEM, h, blank_msg (Lmsg None (Some (ucast rid)))))"

text \<open>
  \<open>init (data, size, ffn, hint, content)\<close>: short data is copied into the message; else the
  message is built on the content block it is given, or on a block of its own.
\<close>

definition msg_init_buf ::
  "byte list \<Rightarrow> nat option \<Rightarrow> nat \<Rightarrow> nat option \<Rightarrow> heap \<Rightarrow> unit result \<times> heap \<times> msg" where
  "msg_init_buf data ffn hint content h =
     (if length data < max_vsm_size
      then (case msg_init_size (of_nat (length data)) h of
              (Inr _, h', m) \<Rightarrow> (Inr (), h', m\<lparr>m_body := Vsm data\<rparr>)
            | (Inl e, h', m) \<Rightarrow> (Inl e, h', m))
      else (case content of
              Some a \<Rightarrow> msg_init_external_storage a data ffn hint h
            | None \<Rightarrow> msg_init_data data ffn hint 0xFFFF h))"

definition msg_init_delimiter :: msg where
  "msg_init_delimiter = blank_msg Delimiter"

definition msg_init_join :: msg where
  "msg_init_join = blank_msg Join"

definition msg_init_leave :: msg where
  "msg_init_leave = blank_msg Leave"

section \<open>Release\<close>

definition is_shared :: "msg \<Rightarrow> bool" where
  "is_shared m = (m_flags m AND flag_shared \<noteq> 0)"

definition call_ffn :: "content \<Rightarrow> heap \<Rightarrow> heap" where
  "call_ffn k h =
     (case c_ffn k of
        None \<Rightarrow> h
      | Some f \<Rightarrow> h\<lparr>h_calls := h_calls h @ [(f, c_data k, c_hint k)]\<rparr>)"

definition set_content :: "nat \<Rightarrow> content option \<Rightarrow> heap \<Rightarrow> heap" where
  "set_content a k h = h\<lparr>h_contents := (h_contents h)(a := k)\<rparr>"

text \<open>
  Dropping \<open>n\<close> references of the block of a long message.  The second component tells
  whether the block was released.
\<close>

definition release_lmsg :: "nat \<Rightarrow> content \<Rightarrow> u32 \<Rightarrow> heap \<Rightarrow> heap \<times> bool" where
  "release_lmsg a k n h =
     (let (v, alive) = counter_sub (c_refcnt k) n in
      if alive then (set_content a (Some (k\<lparr>c_refcnt := v\<rparr>)) h, False)
      else (set_content a None (call_ffn k h), True))"

text \<open>The block of a zero-copy message is handed back to its buffer by the free function.\<close>

definition release_zclmsg :: "nat \<Rightarrow> content \<Rightarrow> u32 \<Rightarrow> heap \<Rightarrow> heap \<times> bool" where
  "release_zclmsg a k n h =
     (let (v, alive) = counter_sub (c_refcnt k) n in
      if alive then (set_content a (Some (k\<lparr>c_refcnt := v\<rparr>)) h, False)
      else (call_ffn k (set_content a (Some (k\<lparr>c_refcnt := v\<rparr>)) h), True))"

definition meta_add_ref :: "nat \<Rightarrow> heap \<Rightarrow> heap option" where
  "meta_add_ref d h =
     do {
       v \<leftarrow> h_metas h d;
       Some (h\<lparr>h_metas := (h_metas h)(d \<mapsto> counter_add v 1)\<rparr>)
     }"

definition meta_drop_ref :: "nat \<Rightarrow> heap \<Rightarrow> heap option" where
  "meta_drop_ref d h =
     do {
       v \<leftarrow> h_metas h d;
       Some (let (v', alive) = counter_sub v 1 in
             h\<lparr>h_metas := (h_metas h)(d := (if alive then Some v' else None))\<rparr>)
     }"

definition msg_reset_metadata :: "heap \<Rightarrow> msg \<Rightarrow> (heap \<times> msg) option" where
  "msg_reset_metadata h m =
     (case m_metadata m of
        None \<Rightarrow> Some (h, m)
      | Some d \<Rightarrow> do { h' \<leftarrow> meta_drop_ref d h; Some (h', m\<lparr>m_metadata := None\<rparr>) })"

definition close_body :: "heap \<Rightarrow> msg \<Rightarrow> heap option" where
  "close_body h m =
     (case m_body m of
        Lmsg p _ \<Rightarrow>
          do {
            a \<leftarrow> p;
            k \<leftarrow> h_contents h a;
            Some (if is_shared m then fst (release_lmsg a k 1 h)
                  else set_content a None (call_ffn k h))
          }
      | Zclmsg a \<Rightarrow>
          do {
            k \<leftarrow> h_contents h a;
            zmq_assert (c_ffn k \<noteq> None);
            Some (if is_shared m then fst (release_zclmsg a k 1 h) else call_ffn k h)
          }
      | _ \<Rightarrow> Some h)"

definition msg_close :: "heap \<Rightarrow> msg \<Rightarrow> (unit result \<times> heap \<times> msg) option" where
  "msg_close h m =
     (if \<not> msg_check m then Some (Inl EFAULT, h, m)
      else do {
        h1 \<leftarrow> close_body h m;
        (h2, m2) \<leftarrow> msg_reset_metadata h1 m;
        Some (Inr (), h2, m2\<lparr>m_body := Invalid\<rparr>)
      })"

section \<open>Move and copy\<close>

definition msg_move :: "heap \<Rightarrow> msg \<Rightarrow> msg \<Rightarrow> (unit result \<times> heap \<times> msg \<times> msg) option" where
  "msg_move h this src =
     (if \<not> msg_check src then Some (Inl EFAULT, h, this, src)
      else do {
        (rc, h', this') \<leftarrow> msg_close h this;
        (case rc of
           Inl e \<Rightarrow> Some (Inl e, h', this', src)
         | Inr _ \<Rightarrow> Some (Inr (), h', src, msg_init))
      })"

definition set_shared :: "msg \<Rightarrow> msg" where
  "set_shared m = m\<lparr>m_flags := m_flags m OR flag_shared\<rparr>"

text \<open>
  Taking \<open>n\<close> more references of the block at \<open>a\<close>: a block that is not shared yet is
  turned into a shared one with \<open>n + 1\<close> references.
\<close>

definition share_block :: "nat \<Rightarrow> u32 \<Rightarrow> heap \<Rightarrow> msg \<Rightarrow> (heap \<times> msg) option" where
  "share_block a n h m =
     do {
       k \<leftarrow> h_contents h a;
       Some (if is_shared m
             then (set_content a (Some (k\<lparr>c_refcnt := counter_add (c_refcnt k) n\<rparr>)) h, m)
             else (set_content a (Some (k\<lparr>c_refcnt := n + 1\<rparr>)) h, set_shared m))
     }"

text \<open>The source of a copy takes one more reference of its block and of its metadata.\<close>

definition copy_share :: "heap \<Rightarrow> msg \<Rightarrow> (heap \<times> msg) option" where
  "copy_share h src =
     (case m_body src of
        Lmsg p _ \<Rightarrow> do { a \<leftarrow> p; share_block a 1 h src }
      | Zclmsg a \<Rightarrow> share_block a 1 h src
      | _ \<Rightarrow> Some (h, src))"

definition copy_meta :: "heap \<Rightarrow> msg \<Rightarrow> heap option" where
  "copy_meta h m = (case m_metadata m of None \<Rightarrow> Some h | Some d \<Rightarrow> meta_add_ref d h)"

definition msg_copy :: "heap \<Rightarrow> msg \<Rightarrow> msg \<Rightarrow> (unit result \<times> heap \<times> msg \<times> msg) option" where
  "msg_copy h this src =
     (if \<not> msg_check src then Some (Inl EFAULT, h, this, src)
      else do {
        (rc, h1, this') \<leftarrow> msg_close h this;
        (case rc of
           Inl e \<Rightarrow> Some (Inl e, h1, this', src)
         | Inr _ \<Rightarrow>
             do {
               (h2, src2) \<leftarrow> copy_share h1 src;
               h3 \<leftarrow> copy_meta h2 src2;
               Some (Inr (), h3, src2, src2)
             })
      })"

section \<open>Accessors\<close>

definition msg_data :: "heap \<Rightarrow> msg \<Rightarrow> byte list option" where
  "msg_data h m =
     (case m_body m of
        Vsm bs \<Rightarrow> Some bs
      | Lmsg p _ \<Rightarrow> do { a \<leftarrow> p; k \<leftarrow> h_contents h a; Some (c_data k) }
      | Cmsg bs _ \<Rightarrow> Some bs
      | Zclmsg a \<Rightarrow> do { k \<leftarrow> h_contents h a; Some (c_data k) }
      | _ \<Rightarrow> None)"

definition msg_size :: "heap \<Rightarrow> msg \<Rightarrow> u64 option" where
  "msg_size h m =
     (case m_body m of
        Vsm bs \<Rightarrow> Some (of_nat (length bs))
      | Lmsg p _ \<Rightarrow> do { a \<leftarrow> p; k \<leftarrow> h_contents h a; Some (c_size k) }
      | Zclmsg a \<Rightarrow> do { k \<leftarrow> h_contents h a; Some (c_size k) }
      | Cmsg bs _ \<Rightarrow> Some (of_nat (length bs))
      | _ \<Rightarrow> None)"

definition msg_set_flags :: "byte \<Rightarrow> msg \<Rightarrow> msg" where
  "msg_set_flags f m = m\<lparr>m_flags := m_flags m OR f\<rparr>"

definition msg_reset_flags :: "byte \<Rightarrow> msg \<Rightarrow> msg" where
  "msg_reset_flags f m = m\<lparr>m_flags := m_flags m AND NOT f\<rparr>"

definition msg_set_metadata :: "nat \<Rightarrow> heap \<Rightarrow> msg \<Rightarrow> (heap \<times> msg) option" where
  "msg_set_metadata d h m =
     do {
       zmq_assert (m_metadata m = None);
       h' \<leftarrow> meta_add_ref d h;
       Some (h', m\<lparr>m_metadata := Some d\<rparr>)
     }"

definition msg_is_routing_id :: "msg \<Rightarrow> bool" where
  "msg_is_routing_id m = (m_flags m AND flag_routing_id = flag_routing_id)"

definition msg_is_credential :: "msg \<Rightarrow> bool" where
  "msg_is_credential m = (m_flags m AND flag_credential = flag_credential)"

definition msg_set_routing_id :: "u32 \<Rightarrow> msg \<Rightarrow> unit result \<times> msg" where
  "msg_set_routing_id r m =
     (if r \<noteq> 0 then (Inr (), m\<lparr>m_routing_id := r\<rparr>) else (Inl EINVAL, m))"

definition msg_reset_routing_id :: "msg \<Rightarrow> msg" where
  "msg_reset_routing_id m = m\<lparr>m_routing_id := 0\<rparr>"

text \<open>\<open>None\<close> is a value that was never written.\<close>

definition msg_get_remote_id :: "msg \<Rightarrow> u32 option" where
  "msg_get_remote_id m =
     (case m_body m of Lmsg _ r \<Rightarrow> r | Cmsg _ r \<Rightarrow> Some r | _ \<Rightarrow> Some 0xFFFF)"

text \<open>\<open>set_group (group, length)\<close>: \<open>strncpy\<close> stops at the first zero byte.\<close>

definition msg_set_group :: "byte list \<Rightarrow> nat \<Rightarrow> msg \<Rightarrow> unit result \<times> msg" where
  "msg_set_group g len m =
     (if len > group_max_length then (Inl EINVAL, m)
      else (Inr (), m\<lparr>m_group := takeWhile (\<lambda>c. c \<noteq> 0) (take len g)\<rparr>))"

section \<open>Bulk references\<close>

definition content_ptr :: "msg \<Rightarrow> nat option" where
  "content_ptr m = (case m_body m of Lmsg p _ \<Rightarrow> p | Zclmsg a \<Rightarrow> Some a | _ \<Rightarrow> None)"

definition is_counted :: "msg \<Rightarrow> bool" where
  "is_counted m = (case m_body m of Lmsg _ _ \<Rightarrow> True | Zclmsg _ \<Rightarrow> True | _ \<Rightarrow> False)"

definition msg_add_refs :: "nat \<Rightarrow> heap \<Rightarrow> msg \<Rightarrow> (heap \<times> msg) option" where
  "msg_add_refs n h m =
     do {
       zmq_assert (m_metadata m = None);
       (if n = 0 \<or> \<not> is_counted m then Some (h, m)
        else do { a \<leftarrow> content_ptr m; share_block a (of_nat n) h m })
     }"

text \<open>
  \<open>rm_refs\<close> returns \<open>True\<close> if references are left.  Where the message was the only
  owner it is closed; where the counter drops to zero only the block is released.
\<close>

definition msg_rm_refs :: "nat \<Rightarrow> heap \<Rightarrow> msg \<Rightarrow> (bool \<times> heap \<times> msg) option" where
  "msg_rm_refs n h m =
     do {
       zmq_assert (m_metadata m = None);
       (if n = 0 then Some (True, h, m)
        else if \<not> is_counted m \<or> \<not> is_shared m
        then do { (rc, h', m') \<leftarrow> msg_close h m; Some (False, h', m') }
        else do {
          a \<leftarrow> content_ptr m;
          k \<leftarrow> h_contents h a;
          (let (h', gone) = (case m_body m of
                               Lmsg _ _ \<Rightarrow> release_lmsg a k (of_nat n) h
                             | _ \<Rightarrow> release_zclmsg a k (of_nat n) h)
           in Some (\<not> gone, h', m))
        })
     }"

end
