(* ===== verification/Msg_Pool.thy ===== *)
theory Msg_Pool
  imports Msg
begin

text \<open>
  Reference counting of messages implements value semantics: over every sequence of
  operations on any set of message objects no content block is used after it was freed, none
  is freed twice, none is leaked, and each object keeps reading the bytes it was given.
\<close>

section \<open>A pool of message objects\<close>

text \<open>
  All message objects of the process, by index, over one heap.  A slot is reused after it
  was closed.  The operations are those of the interface; a slot is only initialised when it
  holds no message (\<open>Invalid\<close>) or when its last initialisation failed.
\<close>

datatype pool_op =
    Op_init nat
  | Op_init_size nat u64
  | Op_init_data nat "byte list" "nat option" nat u16
  | Op_init_external nat nat "byte list" nat nat
  | Op_close nat
  | Op_move nat nat
  | Op_copy nat nat
  | Op_set_flags nat byte
  | Op_set_metadata nat nat

definition dangling :: "msg \<Rightarrow> bool" where
  "dangling m = (case m_body m of Lmsg None _ \<Rightarrow> True | _ \<Rightarrow> False)"

fun pool_exec :: "pool_op \<Rightarrow> heap \<times> msg list \<Rightarrow> (heap \<times> msg list) option" where
  "pool_exec (Op_init i) (h, ms) = Some (h, ms[i := msg_init])"
| "pool_exec (Op_init_size i sz) (h, ms) =
     (case msg_init_size sz h of (_, h', m) \<Rightarrow> Some (h', ms[i := m]))"
| "pool_exec (Op_init_data i data ffn hint rid) (h, ms) =
     (case msg_init_data data ffn hint rid h of (_, h', m) \<Rightarrow> Some (h', ms[i := m]))"
| "pool_exec (Op_init_external i a data ffn hint) (h, ms) =
     (case msg_init_external_storage a data (Some ffn) hint h of (_, h', m) \<Rightarrow> Some (h', ms[i := m]))"
| "pool_exec (Op_close i) (h, ms) =
     do { (_, h', m) \<leftarrow> msg_close h (ms ! i); Some (h', ms[i := m]) }"
| "pool_exec (Op_move i j) (h, ms) =
     do { (_, h', m, s) \<leftarrow> msg_move h (ms ! i) (ms ! j); Some (h', ms[i := m, j := s]) }"
| "pool_exec (Op_copy i j) (h, ms) =
     do { (_, h', m, s) \<leftarrow> msg_copy h (ms ! i) (ms ! j); Some (h', ms[i := m, j := s]) }"
| "pool_exec (Op_set_flags i f) (h, ms) = Some (h, ms[i := msg_set_flags f (ms ! i)])"
| "pool_exec (Op_set_metadata i d) (h, ms) =
     do { (h', m) \<leftarrow> msg_set_metadata d h (ms ! i); Some (h', ms[i := m]) }"

definition vacant :: "msg \<Rightarrow> bool" where
  "vacant m = ((m_body m = Invalid \<or> dangling m) \<and> m_metadata m = None)"

definition users :: "nat \<Rightarrow> msg list \<Rightarrow> nat set" where
  "users a ms = {i. i < length ms \<and> content_ptr (ms ! i) = Some a}"

definition meta_users :: "nat \<Rightarrow> msg list \<Rightarrow> nat set" where
  "meta_users d ms = {i. i < length ms \<and> m_metadata (ms ! i) = Some d}"

text \<open>
  What a caller has to respect.  \<open>E\<close> is the set of the content blocks that lie in receive
  buffers; such a block is given to a new message only when no message uses it.  The flag
  \<open>shared\<close> is never set from outside.
\<close>

fun pool_legal :: "nat set \<Rightarrow> pool_op \<Rightarrow> heap \<times> msg list \<Rightarrow> bool" where
  "pool_legal E (Op_init i) (h, ms) = (i < length ms \<and> vacant (ms ! i))"
| "pool_legal E (Op_init_size i sz) (h, ms) = (i < length ms \<and> vacant (ms ! i))"
| "pool_legal E (Op_init_data i data ffn hint rid) (h, ms) = (i < length ms \<and> vacant (ms ! i))"
| "pool_legal E (Op_init_external i a data ffn hint) (h, ms) =
     (i < length ms \<and> vacant (ms ! i) \<and> a \<in> E \<and> users a ms = {})"
| "pool_legal E (Op_close i) (h, ms) = (i < length ms \<and> \<not> dangling (ms ! i))"
| "pool_legal E (Op_move i j) (h, ms) =
     (i < length ms \<and> j < length ms \<and> i \<noteq> j \<and> \<not> dangling (ms ! i) \<and> \<not> dangling (ms ! j))"
| "pool_legal E (Op_copy i j) (h, ms) =
     (i < length ms \<and> j < length ms \<and> i \<noteq> j \<and> \<not> dangling (ms ! i) \<and> \<not> dangling (ms ! j))"
| "pool_legal E (Op_set_flags i f) (h, ms) = (i < length ms \<and> f AND flag_shared = 0)"
| "pool_legal E (Op_set_metadata i d) (h, ms) =
     (i < length ms \<and> msg_check (ms ! i) \<and> m_metadata (ms ! i) = None \<and> h_metas h d \<noteq> None)"

section \<open>The ownership invariant\<close>

text \<open>
  The references of a block: the messages that point to it all carry the \<open>shared\<close> flag and
  the counter is their number, or exactly one message points to it and is not marked shared.
\<close>

definition block_ok :: "content \<Rightarrow> nat \<Rightarrow> msg list \<Rightarrow> bool" where
  "block_ok k a ms \<longleftrightarrow>
     (users a ms \<noteq> {} \<and> (\<forall>i \<in> users a ms. is_shared (ms ! i)) \<and> unat (c_refcnt k) = card (users a ms)) \<or>
     (\<exists>i. users a ms = {i} \<and> \<not> is_shared (ms ! i))"

definition block_at :: "nat set \<Rightarrow> heap \<Rightarrow> msg list \<Rightarrow> nat \<Rightarrow> bool" where
  "block_at E h ms a \<longleftrightarrow>
     (case h_contents h a of
        None \<Rightarrow> users a ms = {}
      | Some k \<Rightarrow> (a \<in> E \<longrightarrow> c_ffn k \<noteq> None) \<and> (users a ms = {} \<and> a \<in> E \<or> block_ok k a ms))"

definition kind_ok :: "nat set \<Rightarrow> msg \<Rightarrow> bool" where
  "kind_ok E m \<longleftrightarrow>
     (case m_body m of Lmsg (Some a) _ \<Rightarrow> a \<notin> E | Zclmsg a \<Rightarrow> a \<in> E | _ \<Rightarrow> True)"

definition contents_ok :: "nat set \<Rightarrow> heap \<times> msg list \<Rightarrow> bool" where
  "contents_ok E p \<longleftrightarrow>
     (case p of (h, ms) \<Rightarrow>
        (\<forall>a. block_at E h ms a) \<and> (\<forall>m \<in> set ms. kind_ok E m) \<and>
        (\<forall>a. h_contents h a \<noteq> None \<or> a \<in> E \<longrightarrow> a < h_next h))"

text \<open>Metadata objects: \<open>X d\<close> references are held outside messages.\<close>

definition metas_ok :: "(nat \<Rightarrow> nat) \<Rightarrow> heap \<times> msg list \<Rightarrow> bool" where
  "metas_ok X p \<longleftrightarrow>
     (case p of (h, ms) \<Rightarrow>
        \<forall>d. case h_metas h d of
              None \<Rightarrow> meta_users d ms = {} \<and> X d = 0
            | Some v \<Rightarrow> 0 < unat v \<and> unat v = X d + card (meta_users d ms))"

definition pool_ok :: "nat set \<Rightarrow> (nat \<Rightarrow> nat) \<Rightarrow> heap \<times> msg list \<Rightarrow> bool" where
  "pool_ok E X p \<longleftrightarrow> contents_ok E p \<and> metas_ok X p"

section \<open>Reachable pools\<close>

definition fresh_pool :: "nat set \<Rightarrow> (nat \<Rightarrow> nat) \<Rightarrow> heap \<times> msg list \<Rightarrow> bool" where
  "fresh_pool E X p \<longleftrightarrow>
     (case p of (h, ms) \<Rightarrow>
        h_contents h = (\<lambda>_. None) \<and> (\<forall>a \<in> E. a < h_next h) \<and>
        (\<forall>m \<in> set ms. m_body m = Invalid \<and> m_metadata m = None) \<and>
        (\<forall>d. case h_metas h d of None \<Rightarrow> X d = 0 | Some v \<Rightarrow> 0 < unat v \<and> unat v = X d) \<and>
        (\<forall>d. X d + length ms < 2 ^ 32))"

inductive pool_reach :: "nat set \<Rightarrow> heap \<times> msg list \<Rightarrow> heap \<times> msg list \<Rightarrow> bool"
  for E p0 where
  reach_start: "pool_reach E p0 p0"
| reach_step: "pool_reach E p0 p \<Longrightarrow> pool_legal E op p \<Longrightarrow> pool_exec op p = Some p' \<Longrightarrow>
    pool_reach E p0 p'"

text \<open>A pool of two slots and no blocks, and the pool after both slots were initialised.\<close>

definition ex_heap :: heap where
  "ex_heap = \<lparr>h_contents = (\<lambda>_. None), h_metas = (\<lambda>_. None), h_next = 0, h_calls = [],
     h_grant = (\<lambda>_. True), h_junk = (\<lambda>_. 0)\<rparr>"

definition ex_pool :: "heap \<times> msg list" where
  "ex_pool = (ex_heap, [blank_msg Invalid, blank_msg Invalid])"

definition ex_content :: content where
  "ex_content = \<lparr>c_data = [1, 2, 3], c_size = 3, c_ffn = Some 7, c_hint = 9, c_refcnt = 0\<rparr>"

definition ex_heap2 :: heap where
  "ex_heap2 = ex_heap\<lparr>h_contents := [0 \<mapsto> ex_content], h_next := 1\<rparr>"

definition ex_msgs2 :: "msg list" where
  "ex_msgs2 = [blank_msg (Lmsg (Some 0) (Some 5)), msg_init]"

section \<open>Users of a block\<close>

lemma users_update:
  "i < length ms \<Longrightarrow>
   users a (ms[i := m]) = (if content_ptr m = Some a then insert i (users a ms) else users a ms - {i})"
  by (auto simp: users_def nth_list_update)

lemma users_finite [simp]: "finite (users a ms)"
  by (simp add: users_def)

lemma users_subset: "users a ms \<subseteq> {..<length ms}"
  by (auto simp: users_def)

lemma card_users: "card (users a ms) \<le> length ms"
  using card_mono [OF _ users_subset] by fastforce

lemma meta_users_update:
  "i < length ms \<Longrightarrow>
   meta_users d (ms[i := m]) =
     (if m_metadata m = Some d then insert i (meta_users d ms) else meta_users d ms - {i})"
  by (auto simp: meta_users_def nth_list_update)

lemma meta_users_finite [simp]: "finite (meta_users d ms)"
  by (simp add: meta_users_def)

lemma card_meta_users: "card (meta_users d ms) \<le> length ms"
proof -
  have "meta_users d ms \<subseteq> {..<length ms}" by (auto simp: meta_users_def)
  from card_mono [OF _ this] show ?thesis by simp
qed

text \<open>An operation that concerns the block at \<open>a\<close> leaves every other block as it was.\<close>

lemma block_at_frame:
  assumes "block_at E h ms b" "length ms' = length ms"
    and "\<And>l. l < length ms \<Longrightarrow>
      ms' ! l = ms ! l \<or> (content_ptr (ms ! l) \<noteq> Some b \<and> content_ptr (ms' ! l) \<noteq> Some b)"
    and "h_contents h' b = h_contents h b"
  shows "block_at E h' ms' b"
proof -
  have u: "users b ms' = users b ms"
    using assms(2,3) by (force simp: users_def)
  have "\<forall>l \<in> users b ms. ms' ! l = ms ! l"
    using assms(2,3) by (force simp: users_def)
  then have "block_ok k b ms' = block_ok k b ms" for k
    unfolding block_ok_def u by (metis insertI1)
  with assms(1,4) u show ?thesis
    by (simp add: block_at_def split: option.splits)
qed

lemma contents_ok_frame:
  assumes ok: "contents_ok E (h, ms)" and len: "length ms' = length ms"
    and slots: "\<And>l. l < length ms \<Longrightarrow>
      ms' ! l = ms ! l \<or>
      (content_ptr (ms ! l) \<in> {None, a} \<and> content_ptr (ms' ! l) \<in> {None, a} \<and> kind_ok E (ms' ! l))"
    and cont: "\<And>b. h_contents h' b = h_contents h b \<or> Some b = a"
    and nxt: "h_next h \<le> h_next h'"
    and blk: "a \<noteq> None \<Longrightarrow>
      block_at E h' ms' (the a) \<and> (h_contents h' (the a) \<noteq> None \<longrightarrow> the a < h_next h')"
  shows "contents_ok E (h', ms')"
  unfolding contents_ok_def split
proof (intro conjI allI ballI impI)
  fix b show "block_at E h' ms' b"
  proof (cases "Some b = a")
    case True with blk show ?thesis by auto
  next
    case False
    show ?thesis
    proof (rule block_at_frame [where h = h and ms = ms])
      show "block_at E h ms b" using ok by (simp add: contents_ok_def)
    qed (use False len slots cont in force)+
  qed
next
  fix m assume "m \<in> set ms'"
  then obtain l where "l < length ms" "m = ms' ! l" using len by (metis in_set_conv_nth)
  then show "kind_ok E m"
    using ok slots by (metis (no_types, lifting) case_prod_conv contents_ok_def nth_mem)
next
  fix b assume "h_contents h' b \<noteq> None \<or> b \<in> E"
  then show "b < h_next h'"
    using ok cont nxt blk unfolding contents_ok_def split
    by (metis option.sel option.distinct(1) order.strict_trans2)
qed

lemma contents_okI:
  assumes "contents_ok E (h, ms)" "i < length ms" "kind_ok E m"
    and "\<And>b. h_contents h' b = h_contents h b \<or> Some b = a"
    and "h_next h \<le> h_next h'"
    and "a \<noteq> None \<Longrightarrow>
      block_at E h' (ms[i := m]) (the a) \<and> (h_contents h' (the a) \<noteq> None \<longrightarrow> the a < h_next h')"
    and "content_ptr (ms ! i) \<in> {None, a}" "content_ptr m \<in> {None, a}"
  shows "contents_ok E (h', ms[i := m])"
  by (rule contents_ok_frame [OF assms(1), where a = a])
    (use assms(2-) in \<open>auto simp: nth_list_update\<close>)

lemma kind_okD: "contents_ok E (h, ms) \<Longrightarrow> i < length ms \<Longrightarrow> kind_ok E (ms ! i)"
  by (auto simp: contents_ok_def)

lemma block_atD: "contents_ok E (h, ms) \<Longrightarrow> block_at E h ms a"
  by (auto simp: contents_ok_def)

text \<open>A message that points to a block: the block is there, and the counter says how it is shared.\<close>

lemma user_block:
  assumes "contents_ok E (h, ms)" "i < length ms" "content_ptr (ms ! i) = Some a"
  obtains k where "h_contents h a = Some k" "a < h_next h" "a \<in> E \<longrightarrow> c_ffn k \<noteq> None"
    "is_shared (ms ! i) \<Longrightarrow> (\<forall>j \<in> users a ms. is_shared (ms ! j)) \<and> unat (c_refcnt k) = card (users a ms)"
    "\<not> is_shared (ms ! i) \<Longrightarrow> users a ms = {i}"
    "i \<in> users a ms"
proof -
  have i: "i \<in> users a ms" using assms by (simp add: users_def)
  from block_atD [OF assms(1), of a] i obtain k where k: "h_contents h a = Some k"
    and f: "a \<in> E \<longrightarrow> c_ffn k \<noteq> None" and ok: "block_ok k a ms"
    by (auto simp: block_at_def split: option.splits)
  have "a < h_next h" using assms(1) k by (auto simp: contents_ok_def)
  with k f ok i show ?thesis
    by (intro that [of k]) (auto simp: block_ok_def)
qed


lemma is_counted_ptr: "is_counted m \<Longrightarrow> \<not> dangling m \<Longrightarrow> \<exists>a. content_ptr m = Some a"
  by (auto simp: is_counted_def dangling_def content_ptr_def split: body.splits option.splits)

lemma block_at_Some:
  "h_contents h a = Some k \<Longrightarrow>
   block_at E h ms a = ((a \<in> E \<longrightarrow> c_ffn k \<noteq> None) \<and> (users a ms = {} \<and> a \<in> E \<or> block_ok k a ms))"
  by (simp add: block_at_def)

lemma call_ffn_simps [simp]:
  "h_contents (call_ffn k h) = h_contents h"
  "h_metas (call_ffn k h) = h_metas h"
  "h_next (call_ffn k h) = h_next h"
  by (auto simp: call_ffn_def split: option.splits)

lemma set_content_simps [simp]:
  "h_contents (set_content a k h) = (h_contents h)(a := k)"
  "h_metas (set_content a k h) = h_metas h"
  "h_next (set_content a k h) = h_next h"
  "h_calls (set_content a k h) = h_calls h"
  by (auto simp: set_content_def)

lemma block_ok_shrink:
  assumes "\<forall>j \<in> users a ms. is_shared (ms ! j)" "unat (c_refcnt k) = card (users a ms)"
    and "i \<in> users a ms" "i < length ms" "content_ptr m = None" "c_refcnt k - 1 \<noteq> 0"
  shows "block_ok (k\<lparr>c_refcnt := c_refcnt k - 1\<rparr>) a (ms[i := m])"
proof -
  have u: "users a (ms[i := m]) = users a ms - {i}"
    using assms(4,5) by (simp add: users_update)
  have "c_refcnt k \<noteq> 0" using assms(2,3) by (metis card_eq_0_iff empty_iff unat_0 users_finite)
  then have r: "unat (c_refcnt k - 1) = card (users a ms - {i})"
    using assms(2,3) by (simp add: unat_minus_one)
  with assms(6) have "users a ms - {i} \<noteq> {}"
    by (metis card.empty unat_eq_zero)
  then show ?thesis
    using r u assms(1) by (auto simp: block_ok_def)
qed

lemma sole_user:
  assumes "unat (c_refcnt k) = card (users a ms)" "i \<in> users a ms" "c_refcnt k - 1 = 0"
  shows "users a ms = {i}"
proof -
  have "c_refcnt k = 1" using assms(3) by simp
  then have "card (users a ms) = 1" using assms(1) by simp
  with assms(2) show ?thesis by (metis card_1_singletonE singletonD)
qed

lemma close_body_ok:
  assumes ok: "contents_ok E (h, ms)" and i: "i < length ms" and nd: "\<not> dangling (ms ! i)"
    and m: "content_ptr m = None" "kind_ok E m"
  shows "\<exists>h'. close_body h (ms ! i) = Some h' \<and> contents_ok E (h', ms[i := m]) \<and>
     h_metas h' = h_metas h"
proof (cases "is_counted (ms ! i)")
  case False
  then have c: "content_ptr (ms ! i) = None" and "close_body h (ms ! i) = Some h"
    by (auto simp: is_counted_def content_ptr_def close_body_def split: body.splits)
  moreover have "contents_ok E (h, ms[i := m])"
    by (rule contents_okI [where a = None and h = h]) (use ok i m c in auto)
  ultimately show ?thesis by simp
next
  case True
  with nd obtain a where a: "content_ptr (ms ! i) = Some a" using is_counted_ptr by blast
  obtain k where k: "h_contents h a = Some k" "a < h_next h" "a \<in> E \<longrightarrow> c_ffn k \<noteq> None"
    and sh: "is_shared (ms ! i) \<Longrightarrow> (\<forall>j \<in> users a ms. is_shared (ms ! j)) \<and> unat (c_refcnt k) = card (users a ms)"
    and ns: "\<not> is_shared (ms ! i) \<Longrightarrow> users a ms = {i}"
    and iu: "i \<in> users a ms"
    using user_block [OF ok i a] by metis
  have u: "users a (ms[i := m]) = users a ms - {i}" using i m by (simp add: users_update)
  have kind: "kind_ok E (ms ! i)" using ok i by (rule kind_okD)
  show ?thesis
  proof (cases "is_shared (ms ! i) \<and> c_refcnt k - 1 \<noteq> 0")
    case True
    let ?k = "k\<lparr>c_refcnt := c_refcnt k - 1\<rparr>"
    have "close_body h (ms ! i) = Some (set_content a (Some ?k) h)"
      using True a k kind True \<open>is_counted (ms ! i)\<close>
      by (auto simp: close_body_def is_counted_def content_ptr_def kind_ok_def release_lmsg_def
          release_zclmsg_def counter_sub_def split: body.splits)
    moreover have "contents_ok E (set_content a (Some ?k) h, ms[i := m])"
    proof (rule contents_okI [where a = "Some a" and h = h])
      show "Some a \<noteq> None \<Longrightarrow> block_at E (set_content a (Some ?k) h) (ms[i := m]) (the (Some a)) \<and>
          (h_contents (set_content a (Some ?k) h) (the (Some a)) \<noteq> None \<longrightarrow> the (Some a) < h_next (set_content a (Some ?k) h))"
        using block_ok_shrink [OF _ _ iu i m(1)] sh True k
        by (auto simp: block_at_def)
    qed (use ok i m a in auto)
    ultimately show ?thesis by simp
  next
    case False
    then have sole: "users a ms = {i}" using ns sole_user [OF _ iu] sh by blast
    obtain h' where h': "close_body h (ms ! i) = Some h'" "h_metas h' = h_metas h" "h_next h' = h_next h"
        "\<And>b. b \<noteq> a \<Longrightarrow> h_contents h' b = h_contents h b"
        "case h_contents h' a of None \<Rightarrow> True | Some k' \<Rightarrow> a \<in> E \<and> c_ffn k' \<noteq> None"
      using False a k kind \<open>is_counted (ms ! i)\<close>
      by (auto simp: close_body_def is_counted_def content_ptr_def kind_ok_def release_lmsg_def
          release_zclmsg_def counter_sub_def split: body.splits)
    have "contents_ok E (h', ms[i := m])"
    proof (rule contents_okI [where a = "Some a" and h = h])
      show "Some a \<noteq> None \<Longrightarrow> block_at E h' (ms[i := m]) (the (Some a)) \<and>
          (h_contents h' (the (Some a)) \<noteq> None \<longrightarrow> the (Some a) < h_next h')"
        using h'(3,5) u sole k by (auto simp: block_at_def split: option.splits)
    qed (use ok i m a h' in auto)
    with h' show ?thesis by simp
  qed
qed


text \<open>Metadata counters.\<close>

lemma metas_ok_cong:
  assumes "metas_ok X (h, ms)" "h_metas h' = h_metas h" "i < length ms" "m_metadata m = m_metadata (ms ! i)"
  shows "metas_ok X (h', ms[i := m])"
proof -
  have "meta_users d (ms[i := m]) = meta_users d ms" for d
    using assms(3,4) by (auto simp: meta_users_def nth_list_update)
  with assms(1,2) show ?thesis by (simp add: metas_ok_def cong: option.case_cong)
qed

lemma contents_ok_cong:
  assumes "contents_ok E (h, ms)" "h_contents h' = h_contents h" "h_next h' = h_next h"
    and "i < length ms" "m_body m = m_body (ms ! i)" "is_shared m = is_shared (ms ! i)"
  shows "contents_ok E (h', ms[i := m])"
proof -
  have c: "content_ptr m = content_ptr (ms ! i)" and kd: "kind_ok E m = kind_ok E (ms ! i)"
    using assms(5) by (simp_all add: content_ptr_def kind_ok_def)
  have u: "users a (ms[i := m]) = users a ms" for a
    using assms(4) c by (auto simp: users_def nth_list_update)
  have s: "is_shared (ms[i := m] ! j) = is_shared (ms ! j)" if "j < length ms" for j
    using assms(4,6) by (cases "j = i") auto
  have "block_ok k a (ms[i := m]) = block_ok k a ms" for k a
  proof -
    have "j \<in> users a ms \<Longrightarrow> j < length ms" for j by (simp add: users_def)
    with s show ?thesis unfolding block_ok_def u by (metis insertI1)
  qed
  then have "block_at E h' (ms[i := m]) a = block_at E h ms a" for a
    using assms(2) u by (simp add: block_at_def cong: option.case_cong)
  moreover have "\<forall>m' \<in> set (ms[i := m]). kind_ok E m'"
    using assms(1,4) kd set_update_subset_insert [of ms i m] by (auto simp: contents_ok_def)
  ultimately show ?thesis
    using assms(1-3) by (auto simp: contents_ok_def)
qed

lemma reset_metadata_ok:
  assumes ok: "metas_ok X (h, ms)" and i: "i < length ms"
  shows "\<exists>h' m. msg_reset_metadata h (ms ! i) = Some (h', m) \<and> m = (ms ! i)\<lparr>m_metadata := None\<rparr> \<and>
     metas_ok X (h', ms[i := m]) \<and> h_contents h' = h_contents h \<and> h_next h' = h_next h \<and> h_calls h' = h_calls h"
proof (cases "m_metadata (ms ! i)")
  case None
  then have "(ms ! i)\<lparr>m_metadata := None\<rparr> = ms ! i" by simp
  with None ok show ?thesis by (simp add: msg_reset_metadata_def)
next
  case (Some d)
  then have iu: "i \<in> meta_users d ms" using i by (simp add: meta_users_def)
  then obtain v where v: "h_metas h d = Some v" "0 < unat v" "unat v = X d + card (meta_users d ms)"
    using ok by (auto simp: metas_ok_def split: option.splits dest!: spec [of _ d])
  let ?m = "(ms ! i)\<lparr>m_metadata := None\<rparr>"
  let ?h = "h\<lparr>h_metas := (h_metas h)(d := (if v - 1 \<noteq> 0 then Some (v - 1) else None))\<rparr>"
  have "v \<noteq> 0" using v(2) by auto
  then have d1: "unat (v - 1) = X d + card (meta_users d ms - {i})"
    using v(3) iu card_gt_0_iff [of "meta_users d ms"] by (auto simp: unat_minus_one)
  have "metas_ok X (?h, ms[i := ?m])"
    unfolding metas_ok_def split
  proof
    fix e
    show "case h_metas ?h e of None \<Rightarrow> meta_users e (ms[i := ?m]) = {} \<and> X e = 0
        | Some v \<Rightarrow> 0 < unat v \<and> unat v = X e + card (meta_users e (ms[i := ?m]))"
    proof (cases "e = d")
      case True
      moreover have "v \<noteq> 1 \<Longrightarrow> 0 < unat (v - 1)" using unat_gt_0 [of "v - 1"] by simp
      ultimately show ?thesis
        using d1 i by (auto simp: meta_users_update)
    next
      case False
      then have "meta_users e (ms[i := ?m]) = meta_users e ms"
        using i Some by (auto simp: meta_users_def nth_list_update split: if_splits)
      with False ok show ?thesis by (simp add: metas_ok_def cong: option.case_cong)
    qed
  qed
  with Some v show ?thesis
    by (simp add: msg_reset_metadata_def meta_drop_ref_def counter_sub_def)
qed

lemma close_ok:
  assumes ok: "pool_ok E X (h, ms)" and i: "i < length ms" and nd: "\<not> dangling (ms ! i)"
  shows "\<exists>rc h' m. msg_close h (ms ! i) = Some (rc, h', m) \<and> pool_ok E X (h', ms[i := m]) \<and>
     (msg_check (ms ! i) \<longrightarrow> rc = Inr () \<and> m = (ms ! i)\<lparr>m_metadata := None, m_body := Invalid\<rparr>) \<and>
     (\<not> msg_check (ms ! i) \<longrightarrow> rc = Inl EFAULT \<and> h' = h \<and> m = ms ! i)"
proof (cases "msg_check (ms ! i)")
  case False
  then show ?thesis using ok by (auto simp: msg_close_def)
next
  case True
  let ?m = "(ms ! i)\<lparr>m_metadata := None, m_body := Invalid\<rparr>"
  have "content_ptr ?m = None" "kind_ok E ?m" by (simp_all add: content_ptr_def kind_ok_def)
  with ok i nd obtain h1 where h1: "close_body h (ms ! i) = Some h1" "contents_ok E (h1, ms[i := ?m])"
      "h_metas h1 = h_metas h"
    using close_body_ok [of E h ms i ?m] by (auto simp: pool_ok_def)
  have "metas_ok X (h1, ms)" using ok h1(3) by (simp add: pool_ok_def metas_ok_def)
  then obtain h2 where h2: "msg_reset_metadata h1 (ms ! i) = Some (h2, (ms ! i)\<lparr>m_metadata := None\<rparr>)"
      "metas_ok X (h2, ms[i := (ms ! i)\<lparr>m_metadata := None\<rparr>])" "h_contents h2 = h_contents h1" "h_next h2 = h_next h1"
    using reset_metadata_ok [OF _ i] by metis
  have "contents_ok E (h2, (ms[i := ?m])[i := ?m])"
    by (rule contents_ok_cong [OF h1(2)]) (use h2 i in auto)
  moreover have "metas_ok X (h2, (ms[i := (ms ! i)\<lparr>m_metadata := None\<rparr>])[i := ?m])"
    by (rule metas_ok_cong [OF h2(2)]) (use i in auto)
  ultimately have "pool_ok E X (h2, ms[i := ?m])" by (simp add: pool_ok_def)
  with True h1 h2 show ?thesis by (simp add: msg_close_def)
qed


text \<open>Filling a vacant slot.\<close>

lemma vacant_ptr: "vacant m \<Longrightarrow> content_ptr m = None \<and> m_metadata m = None"
  by (auto simp: vacant_def dangling_def content_ptr_def split: body.splits option.splits)

lemma fill_slot_ok:
  assumes "pool_ok E X (h, ms)" "i < length ms" "vacant (ms ! i)"
    and "content_ptr m = None" "kind_ok E m" "m_metadata m = None"
  shows "pool_ok E X (h, ms[i := m])"
proof -
  have "contents_ok E (h, ms[i := m])"
    by (rule contents_okI [where a = None and h = h])
      (use assms vacant_ptr [OF assms(3)] in \<open>auto simp: pool_ok_def\<close>)
  moreover have "metas_ok X (h, ms[i := m])"
    by (rule metas_ok_cong [where h = h]) (use assms vacant_ptr [OF assms(3)] in \<open>auto simp: pool_ok_def\<close>)
  ultimately show ?thesis by (simp add: pool_ok_def)
qed

lemma users_empty_fresh: "contents_ok E (h, ms) \<Longrightarrow> users (h_next h) ms = {} \<and> h_contents h (h_next h) = None \<and> h_next h \<notin> E"
  using block_atD [of E h ms "h_next h"]
  by (force simp: contents_ok_def block_at_def split: option.splits)

lemma fill_block_ok:
  assumes ok: "pool_ok E X (h, ms)" and i: "i < length ms" and v: "vacant (ms ! i)"
    and c: "content_ptr m = Some a" and kd: "kind_ok E m" and ns: "\<not> is_shared m" and md: "m_metadata m = None"
    and u: "users a ms = {}" and f: "a \<in> E \<longrightarrow> c_ffn k \<noteq> None"
    and h': "h_contents h' = (h_contents h)(a \<mapsto> k)" "h_metas h' = h_metas h" "h_next h \<le> h_next h'" "a < h_next h'"
  shows "pool_ok E X (h', ms[i := m])"
proof -
  have "users a (ms[i := m]) = {i}" using i c u by (simp add: users_update)
  then have "block_ok k a (ms[i := m])" using i ns by (auto simp: block_ok_def)
  then have "block_at E h' (ms[i := m]) a" using f h'(1) by (simp add: block_at_def)
  then have "contents_ok E (h', ms[i := m])"
    by (intro contents_okI [where a = "Some a" and h = h])
      (use ok i kd c v h' vacant_ptr [OF v] in \<open>auto simp: pool_ok_def\<close>)
  moreover have "metas_ok X (h', ms[i := m])"
    by (rule metas_ok_cong [where h = h]) (use ok i md vacant_ptr [OF v] h' in \<open>auto simp: pool_ok_def\<close>)
  ultimately show ?thesis by (simp add: pool_ok_def)
qed

lemma blank_msg_simps [simp]:
  "m_body (blank_msg b) = b" "m_metadata (blank_msg b) = None" "\<not> is_shared (blank_msg b)"
  by (simp_all add: blank_msg_def is_shared_def)

lemma content_ptr_blank [simp]:
  "content_ptr (blank_msg b) = (case b of Lmsg p _ \<Rightarrow> p | Zclmsg a \<Rightarrow> Some a | _ \<Rightarrow> None)"
  "kind_ok E (blank_msg b) =
     (case b of Lmsg (Some a) _ \<Rightarrow> a \<notin> E | Zclmsg a \<Rightarrow> a \<in> E | _ \<Rightarrow> True)"
  by (simp_all add: content_ptr_def kind_ok_def)

lemma alloc_ok:
  assumes ok: "pool_ok E X (h, ms)" and i: "i < length ms" and v: "vacant (ms ! i)"
    and r: "alloc_content k h = (a, h')"
  shows "pool_ok E X (h', ms[i := blank_msg (Lmsg (Some a) rid)])"
proof -
  have "users (h_next h) ms = {}" "h_next h \<notin> E"
    using users_empty_fresh ok by (auto simp: pool_ok_def)
  with r show ?thesis
    by (intro fill_block_ok [OF ok i v, where a = a and k = k]) (auto simp: alloc_content_def)
qed

lemma init_size_ok:
  assumes ok: "pool_ok E X (h, ms)" and i: "i < length ms" and v: "vacant (ms ! i)"
    and r: "msg_init_size sz h = (rc, h', m)"
  shows "pool_ok E X (h', ms[i := m])"
proof -
  have "(\<exists>b. h' = h \<and> m = blank_msg b \<and> content_ptr m = None \<and> kind_ok E m) \<or>
        (\<exists>a k. alloc_content k h = (a, h') \<and> m = blank_msg (Lmsg (Some a) None))"
    using r unfolding msg_init_size_def
    by (force split: if_splits prod.splits)
  then show ?thesis
    using fill_slot_ok [OF ok i v] alloc_ok [OF ok i v] by auto
qed

lemma init_data_ok:
  assumes ok: "pool_ok E X (h, ms)" and i: "i < length ms" and v: "vacant (ms ! i)"
    and r: "msg_init_data data ffn hint rid h = (rc, h', m)"
  shows "pool_ok E X (h', ms[i := m])"
proof -
  have "(\<exists>b. h' = h \<and> m = blank_msg b \<and> content_ptr m = None \<and> kind_ok E m) \<or>
        (\<exists>a k r. alloc_content k h = (a, h') \<and> m = blank_msg (Lmsg (Some a) r))"
    using r unfolding msg_init_data_def
    by (force split: if_splits prod.splits)
  then show ?thesis
    using fill_slot_ok [OF ok i v] alloc_ok [OF ok i v] by auto
qed

lemma init_external_ok:
  assumes ok: "pool_ok E X (h, ms)" and i: "i < length ms" and v: "vacant (ms ! i)"
    and a: "a \<in> E" "users a ms = {}"
    and r: "msg_init_external_storage a data (Some ffn) hint h = (rc, h', m)"
  shows "pool_ok E X (h', ms[i := m])"
proof -
  have "a < h_next h" using ok a(1) by (auto simp: pool_ok_def contents_ok_def)
  with r a show ?thesis
    by (intro fill_block_ok [OF ok i v, where a = a and k = "\<lparr>c_data = data, c_size = of_nat (length data),
        c_ffn = Some ffn, c_hint = hint, c_refcnt = 0\<rparr>"])
      (auto simp: msg_init_external_storage_def)
qed

text \<open>Swapping two slots.\<close>

lemma involution_image: "(\<And>x. t (t x) = x) \<Longrightarrow> t ` A = {x. t x \<in> A}"
proof -
  assume tt: "\<And>x. t (t x) = x"
  show ?thesis
  proof (rule set_eqI)
    fix x
    have "t x \<in> A \<Longrightarrow> x \<in> t ` A" using imageI [of "t x" A t] tt by simp
    then show "x \<in> t ` A \<longleftrightarrow> x \<in> {x. t x \<in> A}" using tt by auto
  qed
qed

lemma swap_ok:
  assumes ok: "pool_ok E X (h, ms)" and ij: "i < length ms" "j < length ms" "i \<noteq> j"
  shows "pool_ok E X (h, ms[i := ms ! j, j := ms ! i])"
proof -
  define ms' where "ms' = ms[i := ms ! j, j := ms ! i]"
  define t where "t = (\<lambda>l. if l = i then j else if l = j then i else l)"
  have nth: "ms' ! l = ms ! t l" if "l < length ms" for l
    using ij that by (auto simp: ms'_def t_def nth_list_update)
  have len: "length ms' = length ms" by (simp add: ms'_def)
  have tl: "t l < length ms \<longleftrightarrow> l < length ms" for l using ij by (auto simp: t_def)
  have tt: "t (t l) = l" for l by (simp add: t_def)
  have inj: "inj_on t A" for A by (rule inj_on_inverseI [of _ t]) (rule tt)
  note im = involution_image [of t, OF tt]
  have u: "users a ms' = t ` users a ms" for a
    unfolding im by (simp add: users_def nth tl len cong: conj_cong)
  have mu: "meta_users d ms' = t ` meta_users d ms" for d
    unfolding im by (simp add: meta_users_def nth tl len cong: conj_cong)
  have cu: "card (users a ms') = card (users a ms)" for a unfolding u by (rule card_image [OF inj])
  have cmu: "card (meta_users d ms') = card (meta_users d ms)" for d
    unfolding mu by (rule card_image [OF inj])
  have lu: "ms' ! t l = ms ! l" if "l \<in> users a ms" for l a
    using nth [of "t l"] that tl tt by (simp add: users_def)
  have "block_ok k a ms'" if "block_ok k a ms" for k a
    using that lu cu unfolding block_ok_def u by force
  then have "block_at E h ms' a" if "block_at E h ms a" for a
    using that u by (auto simp: block_at_def split: option.splits)
  moreover have "set ms' = set ms" using ij by (simp add: ms'_def set_swap)
  moreover have "metas_ok X (h, ms')"
    using ok mu cmu by (simp add: pool_ok_def metas_ok_def cong: option.case_cong)
  ultimately show ?thesis
    using ok unfolding ms'_def by (auto simp: pool_ok_def contents_ok_def)
qed

lemma move_ok:
  assumes ok: "pool_ok E X (h, ms)" and ij: "i < length ms" "j < length ms" "i \<noteq> j"
    and nd: "\<not> dangling (ms ! i)"
  shows "\<exists>rc h' m s. msg_move h (ms ! i) (ms ! j) = Some (rc, h', m, s) \<and>
     pool_ok E X (h', ms[i := m, j := s])"
proof (cases "msg_check (ms ! j) \<and> msg_check (ms ! i)")
  case True
  let ?c = "(ms ! i)\<lparr>m_metadata := None, m_body := Invalid\<rparr>"
  obtain h' where h': "msg_close h (ms ! i) = Some (Inr (), h', ?c)" "pool_ok E X (h', ms[i := ?c])"
    using close_ok [OF ok ij(1) nd] True by auto
  have "pool_ok E X (h', ms[i := ms ! j, j := ?c])"
    using swap_ok [OF h'(2), of i j] ij by simp
  then have "pool_ok E X (h', (ms[i := ms ! j, j := ?c])[j := msg_init])"
    by (rule fill_slot_ok) (use ij in \<open>auto simp: vacant_def msg_init_def\<close>)
  with h' True show ?thesis by (simp add: msg_move_def)
next
  case False
  then show ?thesis
    using close_ok [OF ok ij(1) nd] ok by (auto simp: msg_move_def)
qed

lemma share_two_ok:
  assumes ok: "contents_ok E (h, ms)" and ij: "i < length ms" "j < length ms" "i \<noteq> j"
    and vi: "content_ptr (ms ! i) = None"
    and a: "content_ptr (ms ! j) = Some a" and bound: "length ms < 2 ^ 32"
  shows "\<exists>h' s. share_block a 1 h (ms ! j) = Some (h', s) \<and> contents_ok E (h', ms[i := s, j := s]) \<and>
     h_metas h' = h_metas h \<and> m_metadata s = m_metadata (ms ! j)"
proof -
  obtain k where k: "h_contents h a = Some k" "a < h_next h" "a \<in> E \<longrightarrow> c_ffn k \<noteq> None"
    and sh: "is_shared (ms ! j) \<Longrightarrow> (\<forall>l \<in> users a ms. is_shared (ms ! l)) \<and> unat (c_refcnt k) = card (users a ms)"
    and ns: "\<not> is_shared (ms ! j) \<Longrightarrow> users a ms = {j}"
    and ju: "j \<in> users a ms"
    using user_block [OF ok ij(2) a] by metis
  define s where "s = (if is_shared (ms ! j) then ms ! j else set_shared (ms ! j))"
  define r where "r = (if is_shared (ms ! j) then c_refcnt k + 1 else 1 + 1)"
  let ?h = "set_content a (Some (k\<lparr>c_refcnt := r\<rparr>)) h" and ?ms = "ms[i := s, j := s]"
  have s: "content_ptr s = Some a" "m_metadata s = m_metadata (ms ! j)" "is_shared s" "kind_ok E s"
    using a kind_okD [OF ok ij(2)]
    by (auto simp: s_def set_shared_def content_ptr_def kind_ok_def is_shared_def flag_shared_def
        bit.conj_disj_distrib2)
  have iu: "i \<notin> users a ms" using vi by (simp add: users_def)
  have u: "users a ?ms = insert i (users a ms)"
    using s ij ju by (auto simp: users_update)
  have "users a (ms[i := s]) \<subseteq> {..<length ms}" using users_subset [of a "ms[i := s]"] by simp
  then have "card (insert i (users a ms)) \<le> length ms"
    using card_users [of a ?ms] u by simp
  then have "card (users a ms) + 1 < 2 ^ 32" using iu bound by simp
  then have r: "unat r = card (insert i (users a ms))"
    using sh ns iu by (auto simp: r_def unat_word_ariths)
  have "\<forall>l \<in> users a ?ms. is_shared (?ms ! l)"
    using sh ns s ij unfolding u by (cases "is_shared (ms ! j)") (auto simp: nth_list_update users_def)
  then have "block_ok (k\<lparr>c_refcnt := r\<rparr>) a ?ms"
    using r u by (auto simp: block_ok_def)
  then have "contents_ok E (?h, ?ms)"
    by (intro contents_ok_frame [OF ok, where a = "Some a"])
      (use ij a vi s k in \<open>auto simp: nth_list_update block_at_def\<close>)
  moreover have "share_block a 1 h (ms ! j) = Some (?h, s)"
    using k by (simp add: share_block_def s_def r_def counter_add_def)
  ultimately show ?thesis using s by auto
qed

lemma add_ref_two_ok:
  assumes ok: "metas_ok X (h, ms)" and ij: "i < length ms" "j < length ms" "i \<noteq> j"
    and vi: "m_metadata (ms ! i) = None"
    and d: "m_metadata s = m_metadata (ms ! j)" and bound: "\<And>d. X d + length ms < 2 ^ 32"
  shows "\<exists>h'. copy_meta h s = Some h' \<and>
     metas_ok X (h', ms[i := s, j := s]) \<and> h_contents h' = h_contents h \<and> h_next h' = h_next h"
proof (cases "m_metadata s")
  case None
  then have "meta_users e (ms[i := s, j := s]) = meta_users e ms" for e
    using ij vi d by (auto simp: meta_users_def nth_list_update split: if_splits)
  with None ok show ?thesis by (simp add: copy_meta_def metas_ok_def cong: option.case_cong)
next
  case (Some e)
  have ju: "j \<in> meta_users e ms" using ij Some d by (simp add: meta_users_def)
  then obtain v where v: "h_metas h e = Some v" "0 < unat v" "unat v = X e + card (meta_users e ms)"
    using ok by (auto simp: metas_ok_def split: option.splits dest!: spec [of _ e])
  let ?h = "h\<lparr>h_metas := (h_metas h)(e \<mapsto> v + 1)\<rparr>" and ?ms = "ms[i := s, j := s]"
  have iu: "i \<notin> meta_users e ms" using vi by (simp add: meta_users_def)
  have u: "meta_users e ?ms = insert i (meta_users e ms)"
    using ij Some ju by (auto simp: meta_users_update)
  have "card (meta_users e ?ms) \<le> length ms" using card_meta_users [of e ?ms] by simp
  then have "unat (v + 1) = X e + card (meta_users e ?ms)"
    using u iu v bound [of e] by (simp add: unat_word_ariths)
  moreover have "meta_users f ?ms = meta_users f ms" if "f \<noteq> e" for f
    using that ij vi d Some by (auto simp: meta_users_def nth_list_update split: if_splits)
  ultimately have "metas_ok X (?h, ?ms)"
    using ok u by (auto simp: metas_ok_def cong: option.case_cong)
  with Some v show ?thesis by (simp add: copy_meta_def meta_add_ref_def counter_add_def)
qed

lemma copy_share_ok:
  assumes ok: "contents_ok E (h, ms)" and ij: "i < length ms" "j < length ms" "i \<noteq> j"
    and vi: "content_ptr (ms ! i) = None" and nd: "\<not> dangling (ms ! j)"
    and bound: "length ms < 2 ^ 32"
  shows "\<exists>h' s. copy_share h (ms ! j) = Some (h', s) \<and> contents_ok E (h', ms[i := s, j := s]) \<and>
     h_metas h' = h_metas h \<and> m_metadata s = m_metadata (ms ! j)"
proof (cases "is_counted (ms ! j)")
  case True
  with nd obtain a where a: "content_ptr (ms ! j) = Some a" using is_counted_ptr by blast
  have "copy_share h (ms ! j) = share_block a 1 h (ms ! j)"
    using True a by (auto simp: copy_share_def is_counted_def content_ptr_def split: body.splits)
  then show ?thesis using share_two_ok [OF ok ij vi a bound] by simp
next
  case False
  then have c: "content_ptr (ms ! j) = None" "copy_share h (ms ! j) = Some (h, ms ! j)"
    by (auto simp: copy_share_def is_counted_def content_ptr_def split: body.splits)
  have "contents_ok E (h, ms[i := ms ! j])"
    by (rule contents_okI [where a = None and h = h]) (use ok ij vi c kind_okD [OF ok ij(2)] in auto)
  moreover have "ms[i := ms ! j, j := ms ! j] = ms[i := ms ! j]"
    using ij by (simp add: list_update_same_conv)
  ultimately show ?thesis using c by simp
qed

lemma copy_share_body: "copy_share h m = Some (h', s) \<Longrightarrow> m_body s = m_body m"
  by (auto simp: copy_share_def share_block_def set_shared_def
      split: body.splits bind_splits if_splits)

lemma copy_ok:
  assumes ok: "pool_ok E X (h, ms)" and ij: "i < length ms" "j < length ms" "i \<noteq> j"
    and nd: "\<not> dangling (ms ! i)" "\<not> dangling (ms ! j)"
    and bound: "\<And>d. X d + length ms < 2 ^ 32"
  shows "\<exists>rc h' m s. msg_copy h (ms ! i) (ms ! j) = Some (rc, h', m, s) \<and>
     pool_ok E X (h', ms[i := m, j := s]) \<and> m_body s = m_body (ms ! j) \<and> (rc = Inr () \<longrightarrow> m = s)"
proof (cases "msg_check (ms ! j) \<and> msg_check (ms ! i)")
  case False
  then show ?thesis
    using close_ok [OF ok ij(1) nd(1)] ok by (auto simp: msg_copy_def)
next
  case True
  let ?c = "(ms ! i)\<lparr>m_metadata := None, m_body := Invalid\<rparr>"
  obtain h1 where h1: "msg_close h (ms ! i) = Some (Inr (), h1, ?c)" "pool_ok E X (h1, ms[i := ?c])"
    using close_ok [OF ok ij(1) nd(1)] True by auto
  have len: "length ms < 2 ^ 32" using bound [of 0] by simp
  obtain h2 s where h2: "copy_share h1 (ms ! j) = Some (h2, s)"
       "contents_ok E (h2, ms[i := s, j := s])" "h_metas h2 = h_metas h1"
       "m_metadata s = m_metadata (ms ! j)"
    using copy_share_ok [of E h1 "ms[i := ?c]" i j] h1(2) ij nd(2) len
    by (auto simp: pool_ok_def content_ptr_def)
  have "metas_ok X (h2, ms[i := ?c])" using h1(2) h2(3) by (simp add: pool_ok_def metas_ok_def)
  then obtain h3 where h3: "copy_meta h2 s = Some h3"
      "metas_ok X (h3, ms[i := s, j := s])" "h_contents h3 = h_contents h2" "h_next h3 = h_next h2"
    using add_ref_two_ok [of X h2 "ms[i := ?c]" i j s] ij h2(4) bound by auto
  have "contents_ok E (h3, ms[i := s, j := s])"
    using h2(2) h3(3,4) by (simp add: contents_ok_def block_at_def)
  then have "pool_ok E X (h3, ms[i := s, j := s])" using h3(2) by (simp add: pool_ok_def)
  moreover have "msg_copy h (ms ! i) (ms ! j) = Some (Inr (), h3, s, s)"
    using True h1(1) h2(1) h3(1) by (simp add: msg_copy_def)
  ultimately show ?thesis using copy_share_body [OF h2(1)] by blast
qed

lemma set_flags_ok:
  assumes "pool_ok E X (h, ms)" "i < length ms" "f AND flag_shared = 0"
  shows "pool_ok E X (h, ms[i := msg_set_flags f (ms ! i)])"
proof -
  have "is_shared (msg_set_flags f (ms ! i)) = is_shared (ms ! i)"
    using assms(3) by (simp add: is_shared_def msg_set_flags_def bit.conj_disj_distrib2)
  then show ?thesis
    using assms contents_ok_cong [of E h ms h i "msg_set_flags f (ms ! i)"]
      metas_ok_cong [of X h ms h i "msg_set_flags f (ms ! i)"]
    by (simp add: pool_ok_def msg_set_flags_def)
qed

lemma set_metadata_ok:
  assumes ok: "pool_ok E X (h, ms)" and i: "i < length ms" and none: "m_metadata (ms ! i) = None"
    and d: "h_metas h d = Some v" and bound: "\<And>d. X d + length ms < 2 ^ 32"
  shows "\<exists>h' m. msg_set_metadata d h (ms ! i) = Some (h', m) \<and> pool_ok E X (h', ms[i := m])"
proof -
  let ?h = "h\<lparr>h_metas := (h_metas h)(d \<mapsto> v + 1)\<rparr>" and ?m = "(ms ! i)\<lparr>m_metadata := Some d\<rparr>"
  have iu: "i \<notin> meta_users d ms" using none by (simp add: meta_users_def)
  have u: "meta_users d (ms[i := ?m]) = insert i (meta_users d ms)" using i by (simp add: meta_users_update)
  have v: "0 < unat v" "unat v = X d + card (meta_users d ms)"
    using ok d by (auto simp: pool_ok_def metas_ok_def split: option.splits dest!: spec [of _ d])
  have "card (meta_users d (ms[i := ?m])) \<le> length ms" using card_meta_users [of d "ms[i := ?m]"] by simp
  then have "unat (v + 1) = X d + card (meta_users d (ms[i := ?m]))"
    using u iu v bound [of d] by (simp add: unat_word_ariths)
  moreover have "meta_users e (ms[i := ?m]) = meta_users e ms" if "e \<noteq> d" for e
    using that i none by (auto simp: meta_users_def nth_list_update split: if_splits)
  ultimately have "metas_ok X (?h, ms[i := ?m])"
    using ok u by (auto simp: pool_ok_def metas_ok_def cong: option.case_cong)
  moreover have "contents_ok E (?h, ms[i := ?m])"
    by (rule contents_ok_cong [where h = h]) (use ok i in \<open>auto simp: pool_ok_def is_shared_def\<close>)
  ultimately show ?thesis
    using none d by (simp add: pool_ok_def msg_set_metadata_def meta_add_ref_def counter_add_def)
qed

lemma pool_exec_ok:
  assumes ok: "pool_ok E X (h, ms)" and legal: "pool_legal E op (h, ms)"
    and bound: "\<And>d. X d + length ms < 2 ^ 32"
  shows "\<exists>h' ms'. pool_exec op (h, ms) = Some (h', ms') \<and> pool_ok E X (h', ms') \<and> length ms' = length ms"
proof (cases op)
  case (Op_init i)
  with ok legal show ?thesis by (auto intro!: fill_slot_ok simp: msg_init_def)
next
  case (Op_init_size i sz)
  with ok legal show ?thesis
    by (cases "msg_init_size sz h") (auto intro: init_size_ok)
next
  case (Op_init_data i data ffn hint rid)
  with ok legal show ?thesis
    by (cases "msg_init_data data ffn hint rid h") (auto intro: init_data_ok)
next
  case (Op_init_external i a data ffn hint)
  with ok legal show ?thesis
    by (cases "msg_init_external_storage a data (Some ffn) hint h") (auto intro: init_external_ok)
next
  case (Op_close i)
  with close_ok [OF ok, of i] legal show ?thesis by auto
next
  case (Op_move i j)
  with move_ok [OF ok, of i j] legal show ?thesis by auto
next
  case (Op_copy i j)
  with copy_ok [OF ok, of i j] legal bound show ?thesis by auto
next
  case (Op_set_flags i f)
  with set_flags_ok [OF ok] legal show ?thesis by auto
next
  case (Op_set_metadata i d)
  with set_metadata_ok [OF ok, of i d] legal bound show ?thesis by auto
qed

text \<open>No operation changes the bytes of a block that is in use.\<close>

lemma close_body_data:
  assumes "close_body h m = Some h'" "h_contents h a = Some k" "h_contents h' a = Some k'"
  shows "c_data k' = c_data k \<and> c_size k' = c_size k"
  using assms
  by (auto simp: close_body_def release_lmsg_def release_zclmsg_def counter_sub_def Let_def
      split: body.splits bind_splits if_splits)

lemma reset_metadata_contents: "msg_reset_metadata h m = Some (h', m') \<Longrightarrow> h_contents h' = h_contents h"
  by (auto simp: msg_reset_metadata_def meta_drop_ref_def Let_def split: option.splits bind_splits prod.splits)

lemma close_data:
  assumes "msg_close h m = Some (rc, h', m')" "h_contents h a = Some k" "h_contents h' a = Some k'"
  shows "c_data k' = c_data k \<and> c_size k' = c_size k"
  using assms close_body_data [of h m _ a k] reset_metadata_contents
  by (fastforce simp: msg_close_def split: if_splits bind_splits)

lemma share_data:
  assumes "share_block b n h m = Some (h', m')" "h_contents h a = Some k" "h_contents h' a = Some k'"
  shows "c_data k' = c_data k \<and> c_size k' = c_size k"
  using assms by (auto simp: share_block_def split: bind_splits if_splits)

lemma add_ref_contents: "meta_add_ref d h = Some h' \<Longrightarrow> h_contents h' = h_contents h"
  by (auto simp: meta_add_ref_def split: bind_splits)

lemma copy_share_data:
  assumes "copy_share h m = Some (h', m')" "h_contents h' a = Some k'"
  shows "\<exists>k. h_contents h a = Some k \<and> c_data k' = c_data k \<and> c_size k' = c_size k"
  using assms
  by (fastforce simp: copy_share_def share_block_def split: body.splits bind_splits if_splits)

lemma copy_meta_contents: "copy_meta h m = Some h' \<Longrightarrow> h_contents h' = h_contents h"
  by (auto simp: copy_meta_def dest: add_ref_contents split: option.splits)

lemma copy_data:
  assumes "msg_copy h t s = Some (rc, h', t', s')" "h_contents h a = Some k" "h_contents h' a = Some k'"
  shows "c_data k' = c_data k \<and> c_size k' = c_size k"
proof -
  from assms(1) consider "h' = h" | rc1 t1 where "msg_close h t = Some (rc1, h', t1)"
    | h1 h2 t1 where "msg_close h t = Some (Inr (), h1, t1)" "copy_share h1 s = Some (h2, s')"
        "copy_meta h2 s' = Some h'"
    unfolding msg_copy_def by (fastforce split: if_splits bind_splits sum.splits prod.splits)
  then show ?thesis
  proof cases
    case 1 with assms(2,3) show ?thesis by simp
  next
    case 2 with assms(2,3) show ?thesis by (blast dest: close_data)
  next
    case (3 h1 h2 t1)
    have "h_contents h2 a = Some k'" using copy_meta_contents [OF 3(3)] assms(3) by simp
    with 3(2) obtain k1 where "h_contents h1 a = Some k1" "c_data k' = c_data k1" "c_size k' = c_size k1"
      by (blast dest: copy_share_data)
    with close_data [OF 3(1) assms(2)] show ?thesis by simp
  qed
qed

lemma user_alloc:
  "contents_ok E (h, ms) \<Longrightarrow> i < length ms \<Longrightarrow> content_ptr (ms ! i) = Some a \<Longrightarrow>
   \<exists>k. h_contents h a = Some k"
  by (meson user_block)

lemma exec_block_data:
  assumes ok: "pool_ok E X (h, ms)" and legal: "pool_legal E op (h, ms)"
    and ex: "pool_exec op (h, ms) = Some (h', ms')"
    and a: "users a ms \<noteq> {}" "h_contents h a = Some k" "h_contents h' a = Some k'"
  shows "c_data k' = c_data k \<and> c_size k' = c_size k"
proof -
  have "a \<noteq> h_next h" using users_empty_fresh ok a(1) by (auto simp: pool_ok_def)
  then show ?thesis
    using legal ex a
    by (cases op)
      (auto simp: msg_init_size_def msg_init_data_def msg_init_external_storage_def alloc_content_def
        msg_move_def msg_set_metadata_def Let_def
        split: if_splits bind_splits sum.splits prod.splits
        dest: close_data copy_data add_ref_contents)
qed

lemma msg_data_cong:
  assumes "m_body m' = m_body m"
    and "\<And>a k. content_ptr m = Some a \<Longrightarrow> h_contents h a = Some k \<Longrightarrow>
           \<exists>k'. h_contents h' a = Some k' \<and> c_data k' = c_data k \<and> c_size k' = c_size k"
    and "\<And>a. content_ptr m = Some a \<Longrightarrow> h_contents h a \<noteq> None"
  shows "msg_data h' m' = msg_data h m" "msg_size h' m' = msg_size h m"
  using assms
  by (fastforce simp: msg_data_def msg_size_def content_ptr_def split: body.splits bind_splits)+

lemma exec_keeps_values:
  assumes ok: "pool_ok E X (h, ms)" and legal: "pool_legal E op (h, ms)"
    and bound: "\<And>d. X d + length ms < 2 ^ 32"
    and ex: "pool_exec op (h, ms) = Some (h', ms')"
    and l: "l < length ms" "m_body (ms' ! l) = m_body (ms ! l)"
  shows "msg_data h' (ms' ! l) = msg_data h (ms ! l) \<and> msg_size h' (ms' ! l) = msg_size h (ms ! l)"
proof -
  have ok': "pool_ok E X (h', ms')" "length ms' = length ms"
    using pool_exec_ok [OF ok legal bound] ex by auto
  have blk: "\<exists>k k'. h_contents h a = Some k \<and> h_contents h' a = Some k' \<and>
      c_data k' = c_data k \<and> c_size k' = c_size k"
    if c: "content_ptr (ms ! l) = Some a" for a
  proof -
    have c': "content_ptr (ms' ! l) = Some a" using c l by (simp add: content_ptr_def)
    obtain k where "h_contents h a = Some k"
      using user_alloc [of E h ms l a] ok l c by (auto simp: pool_ok_def)
    moreover obtain k' where "h_contents h' a = Some k'"
      using user_alloc [of E h' ms' l a] ok' l c' by (auto simp: pool_ok_def)
    moreover have "users a ms \<noteq> {}" using l c by (auto simp: users_def)
    ultimately show ?thesis
      using exec_block_data [OF ok legal ex] by blast
  qed
  have "\<exists>k'. h_contents h' a = Some k' \<and> c_data k' = c_data k \<and> c_size k' = c_size k"
    if "content_ptr (ms ! l) = Some a" "h_contents h a = Some k" for a k
    using blk [OF that(1)] that(2) by auto
  moreover have "h_contents h a \<noteq> None" if "content_ptr (ms ! l) = Some a" for a
    using blk [OF that] by auto
  ultimately show ?thesis
    using msg_data_cong [OF l(2), of h h'] by blast
qed


lemma fresh_pool_ok: "fresh_pool E X (h, ms) \<Longrightarrow> pool_ok E X (h, ms)"
proof -
  assume f: "fresh_pool E X (h, ms)"
  then have inv: "m_body (ms ! i) = Invalid \<and> m_metadata (ms ! i) = None" if "i < length ms" for i
    using that by (auto simp: fresh_pool_def)
  have u: "users a ms = {}" for a using inv by (auto simp: users_def content_ptr_def)
  have "meta_users d ms = {}" for d using inv by (auto simp: meta_users_def)
  then have "metas_ok X (h, ms)" using f by (simp add: fresh_pool_def metas_ok_def cong: option.case_cong)
  moreover have "contents_ok E (h, ms)"
    using f u by (auto simp: fresh_pool_def contents_ok_def block_at_def kind_ok_def)
  ultimately show ?thesis by (simp add: pool_ok_def)
qed

lemma pool_reach_ok:
  assumes "pool_reach E p0 p" "fresh_pool E X p0"
  shows "pool_ok E X p \<and> (\<forall>d. X d + length (snd p) < 2 ^ 32)"
  using assms
proof (induction rule: pool_reach.induct)
  case reach_start
  then show ?case by (cases p0) (auto intro: fresh_pool_ok simp: fresh_pool_def)
next
  case (reach_step p op p')
  then show ?case
    using pool_exec_ok [of E X "fst p" "snd p" op] by (cases p) auto
qed

text \<open>Bulk references: a message is copied byte by byte after its counter was raised.\<close>

lemma nth_append_replicate:
  "l < length xs + n \<Longrightarrow> (xs @ replicate n m) ! l = (if l < length xs then xs ! l else m)"
  by (simp add: nth_append)

lemma users_append_replicate:
  "i < length ms \<Longrightarrow>
   users a (ms[i := m] @ replicate n m) =
     (if content_ptr m = Some a then users a (ms[i := m]) \<union> {length ms..<length ms + n}
      else users a (ms[i := m]))"
  by (auto simp: users_def nth_append_replicate split: if_splits)

lemma block_ok_append:
  assumes "i < length ms" "content_ptr m \<noteq> Some b"
  shows "block_ok k b (ms[i := m] @ replicate n m) = block_ok k b (ms[i := m])"
proof -
  let ?ms = "ms[i := m]" and ?ms' = "ms[i := m] @ replicate n m"
  have u: "users b ?ms' = users b ?ms" using assms by (simp add: users_append_replicate)
  have "?ms' ! l = ?ms ! l" if "l \<in> users b ?ms" for l
    using that by (simp add: users_def nth_append)
  then show ?thesis unfolding block_ok_def u by (metis insertI1)
qed

lemma share_many_ok:
  assumes ok: "contents_ok E (h, ms)" and i: "i < length ms" and a: "content_ptr (ms ! i) = Some a"
    and n: "0 < n" and bound: "length ms + n < 2 ^ 32"
  shows "\<exists>h' s. share_block a (of_nat n) h (ms ! i) = Some (h', s) \<and>
     contents_ok E (h', ms[i := s] @ replicate n s)"
proof -
  obtain k where k: "h_contents h a = Some k" "a < h_next h" "a \<in> E \<longrightarrow> c_ffn k \<noteq> None"
    and sh: "is_shared (ms ! i) \<Longrightarrow> (\<forall>l \<in> users a ms. is_shared (ms ! l)) \<and> unat (c_refcnt k) = card (users a ms)"
    and ns: "\<not> is_shared (ms ! i) \<Longrightarrow> users a ms = {i}"
    and iu: "i \<in> users a ms"
    using user_block [OF ok i a] by metis
  define s where "s = (if is_shared (ms ! i) then ms ! i else set_shared (ms ! i))"
  define r where "r = (if is_shared (ms ! i) then c_refcnt k + of_nat n else of_nat n + 1)"
  let ?h = "set_content a (Some (k\<lparr>c_refcnt := r\<rparr>)) h" and ?ms = "ms[i := s] @ replicate n s"
  have s: "content_ptr s = Some a" "is_shared s" "kind_ok E s"
    using a kind_okD [OF ok i]
    by (auto simp: s_def set_shared_def content_ptr_def kind_ok_def is_shared_def flag_shared_def
        bit.conj_disj_distrib2)
  have ui: "users a (ms[i := s]) = users a ms" using s i iu by (auto simp: users_update)
  have u: "users a ?ms = users a ms \<union> {length ms..<length ms + n}"
    using s i ui by (simp add: users_append_replicate)
  have disj: "users a ms \<inter> {length ms..<length ms + n} = {}" by (auto simp: users_def)
  have c: "card (users a ?ms) = card (users a ms) + n"
    unfolding u using disj by (simp add: card_Un_disjoint)
  have cn: "card (users a ms) + n < 2 ^ 32" using card_users [of a ms] bound by simp
  have r: "unat r = card (users a ?ms)"
  proof -
    have n': "unat (of_nat n :: u32) = n" using bound by (simp add: unat_of_nat)
    show ?thesis
    proof (cases "is_shared (ms ! i)")
      case True
      with sh have "unat (c_refcnt k) + n < 2 ^ 32" using cn by simp
      with True sh n' c show ?thesis by (simp add: r_def unat_add_lem [THEN iffD1])
    next
      case False
      have "unat (of_nat n + 1 :: u32) = n + 1"
        using bound i n' by (subst unat_add_lem [THEN iffD1]) auto
      with False ns c show ?thesis by (simp add: r_def)
    qed
  qed
  have "\<forall>l \<in> users a ?ms. is_shared (?ms ! l)"
  proof
    fix l assume l: "l \<in> users a ?ms"
    then have len: "l < length ms + n" by (simp add: users_def)
    show "is_shared (?ms ! l)"
    proof (cases "l < length ms \<and> l \<noteq> i")
      case True
      then have "l \<in> users a ms" using l u by simp
      with True sh ns show ?thesis by (auto simp: nth_append_replicate)
    next
      case False
      with len i s show ?thesis by (auto simp: nth_append_replicate)
    qed
  qed
  moreover have "users a ?ms \<noteq> {}" using u iu by auto
  ultimately have blk: "block_ok (k\<lparr>c_refcnt := r\<rparr>) a ?ms"
    using r unfolding block_ok_def by simp
  have "block_at E ?h ?ms b" for b
  proof (cases "b = a")
    case True with blk k show ?thesis by (simp add: block_at_def)
  next
    case False
    have "block_at E ?h (ms[i := s]) b"
      by (rule block_at_frame [where h = h and ms = ms])
        (use False a s i block_atD [OF ok] in \<open>auto simp: nth_list_update\<close>)
    with False s i show ?thesis
      by (auto simp: block_at_def block_ok_append users_append_replicate split: option.splits)
  qed
  moreover have "\<forall>m \<in> set ?ms. kind_ok E m"
    using ok s(3) set_update_subset_insert [of ms i s] by (auto simp: contents_ok_def)
  ultimately have "contents_ok E (?h, ?ms)"
    using ok k by (auto simp: contents_ok_def)
  moreover have "share_block a (of_nat n) h (ms ! i) = Some (?h, s)"
    using k by (simp add: share_block_def s_def r_def counter_add_def)
  ultimately show ?thesis by auto
qed

lemma ex_pool_fresh: "fresh_pool {} (\<lambda>_. 0) ex_pool"
  by (simp add: fresh_pool_def ex_pool_def ex_heap_def)

lemma ex_pool_reach: "pool_reach {} ex_pool (ex_heap2, ex_msgs2)"
proof -
  have 1: "pool_exec (Op_init_data 0 [1, 2, 3] (Some 7) 9 5) ex_pool =
      Some (ex_heap2, [blank_msg (Lmsg (Some 0) (Some 5)), blank_msg Invalid])"
    by (simp add: ex_pool_def msg_init_data_def alloc_content_def ex_heap_def ex_heap2_def ex_content_def)
  have 2: "pool_exec (Op_init 1) (ex_heap2, [blank_msg (Lmsg (Some 0) (Some 5)), blank_msg Invalid]) =
      Some (ex_heap2, ex_msgs2)"
    by (simp add: ex_msgs2_def)
  have "pool_legal {} (Op_init_data 0 [1, 2, 3] (Some 7) 9 5) ex_pool"
    by (simp add: ex_pool_def vacant_def)
  from pool_reach.reach_step [OF pool_reach.reach_start this 1]
  show ?thesis
    by (rule pool_reach.reach_step [OF _ _ 2]) (simp add: vacant_def)
qed

lemma ex_users: "users 0 ex_msgs2 = {0}" "content_ptr (ex_msgs2 ! 0) = Some 0"
  by (auto simp: users_def ex_msgs2_def msg_init_def less_Suc_eq)

section \<open>Properties\<close>

text \<open>
  C1. Memory safety of messages.  In every state reached by initialising, moving, copying,
  flagging, tagging and closing message objects in any order, every further legal operation
  completes: no content block or metadata object is used after it was released, no counter of
  a released block is touched and no assertion of the message code fails.
\<close>

theorem messages_safe:
  assumes "fresh_pool E X p0" "pool_reach E p0 p" "pool_legal E op p"
  shows "pool_exec op p \<noteq> None"
  using pool_reach_ok [OF assms(2,1)] pool_exec_ok [of E X "fst p" "snd p" op] assms(3)
  by (cases p) auto

theorem messages_safe_witness:
  "pool_exec (Op_copy 1 0) (ex_heap2, ex_msgs2) \<noteq> None \<and>
   pool_legal {} (Op_copy 1 0) (ex_heap2, ex_msgs2)"
proof -
  have l: "pool_legal {} (Op_copy 1 0) (ex_heap2, ex_msgs2)"
    by (simp add: ex_msgs2_def dangling_def msg_init_def)
  show ?thesis using messages_safe [OF ex_pool_fresh ex_pool_reach l] l by simp
qed

text \<open>
  C2. No leak.  When all message objects have been closed, every content block that messages
  allocated has been released, and every metadata object is back to the references that are
  held outside messages (and is deleted if there are none).
\<close>

theorem messages_no_leak:
  assumes "fresh_pool E X p0" "pool_reach E p0 (h, ms)" "\<forall>m \<in> set ms. vacant m" "a \<notin> E"
  shows "h_contents h a = None \<and> (h_metas h d = None \<and> X d = 0 \<or> (\<exists>v. h_metas h d = Some v \<and> unat v = X d))"
proof -
  have ok: "pool_ok E X (h, ms)" using pool_reach_ok [OF assms(2,1)] by simp
  have v: "vacant (ms ! i)" if "i < length ms" for i using assms(3) that by simp
  have u: "users a ms = {}" using vacant_ptr v by (auto simp: users_def)
  have "meta_users d ms = {}" using vacant_ptr v by (auto simp: meta_users_def)
  then show ?thesis
    using ok u assms(4) block_atD [of E h ms a]
    by (auto simp: pool_ok_def metas_ok_def block_at_def block_ok_def split: option.splits dest!: spec [of _ d])
qed

theorem messages_no_leak_witness:
  "\<exists>h ms. pool_reach {} ex_pool (h, ms) \<and> list_all vacant ms \<and> h_calls h \<noteq> [] \<and> h_contents h 0 = None"
proof -
  let ?h = "ex_heap2\<lparr>h_contents := (\<lambda>_. None), h_calls := [(7, [1, 2, 3], 9)]\<rparr>"
  let ?ms = "[blank_msg Invalid, msg_init]" and ?ms' = "[blank_msg Invalid, blank_msg Invalid]"
  have 1: "pool_exec (Op_close 0) (ex_heap2, ex_msgs2) = Some (?h, ?ms)"
    by (simp add: ex_msgs2_def ex_heap2_def ex_heap_def ex_content_def msg_close_def msg_check_def
        close_body_def msg_reset_metadata_def call_ffn_def set_content_def blank_msg_def is_shared_def)
  have 2: "pool_exec (Op_close 1) (?h, ?ms) = Some (?h, ?ms')"
    by (simp add: msg_init_def msg_close_def msg_check_def close_body_def msg_reset_metadata_def
        blank_msg_def)
  have "pool_legal {} (Op_close 0) (ex_heap2, ex_msgs2)" "pool_legal {} (Op_close 1) (?h, ?ms)"
    by (simp_all add: ex_msgs2_def msg_init_def dangling_def)
  then have r: "pool_reach {} ex_pool (?h, ?ms')"
    using ex_pool_reach 1 2 pool_reach.reach_step by blast
  have v: "\<forall>m \<in> set ?ms'. vacant m" by (simp add: vacant_def)
  from messages_no_leak [OF ex_pool_fresh r v, of 0 0] r v show ?thesis
    by (intro exI [of _ ?h] exI [of _ ?ms']) (simp add: list_all_iff)
qed



text \<open>
  C4. A copy has the value of its source.  Copying a valid message onto a valid message
  succeeds, and afterwards both objects read the bytes the source had.
\<close>

theorem copy_shares_value:
  assumes "fresh_pool E X p0" "pool_reach E p0 (h, ms)" "pool_legal E (Op_copy i j) (h, ms)"
    and "msg_check (ms ! i)" "msg_check (ms ! j)"
  shows "\<exists>h' ms'. pool_exec (Op_copy i j) (h, ms) = Some (h', ms') \<and>
     msg_data h' (ms' ! i) = msg_data h (ms ! j) \<and> msg_data h' (ms' ! j) = msg_data h (ms ! j)"
proof -
  note reach = pool_reach_ok [OF assms(2,1)]
  have ok: "pool_ok E X (h, ms)" using reach by simp
  have bound: "\<And>d. X d + length ms < 2 ^ 32" using reach by simp
  have ij: "i < length ms" "j < length ms" "i \<noteq> j" "\<not> dangling (ms ! i)" "\<not> dangling (ms ! j)"
    using assms(3) by auto
  obtain rc h' m s where c: "msg_copy h (ms ! i) (ms ! j) = Some (rc, h', m, s)"
      "m_body s = m_body (ms ! j)" "rc = Inr () \<longrightarrow> m = s"
    using copy_ok [OF ok ij bound] by blast
  have ex: "pool_exec (Op_copy i j) (h, ms) = Some (h', ms[i := m, j := s])" using c by simp
  have "rc = Inr ()"
    using c(1) assms(4,5) close_ok [OF ok ij(1,4)]
    by (auto simp: msg_copy_def split: bind_splits)
  then have "m = s" using c(3) by simp
  moreover have "msg_data h' s = msg_data h (ms ! j)"
    using exec_keeps_values [OF ok assms(3) bound ex, of j] ij c(2) by simp
  ultimately show ?thesis using ex ij by simp
qed

theorem copy_shares_value_witness:
  "\<exists>h ms. pool_exec (Op_copy 1 0) (ex_heap2, ex_msgs2) = Some (h, ms) \<and>
     msg_data h (ms ! 1) = Some [1, 2, 3] \<and> msg_data h (ms ! 0) = Some [1, 2, 3]"
proof -
  have l: "pool_legal {} (Op_copy 1 0) (ex_heap2, ex_msgs2)"
    by (simp add: ex_msgs2_def dangling_def msg_init_def)
  have "msg_data ex_heap2 (ex_msgs2 ! 0) = Some [1, 2, 3]"
    by (simp add: ex_msgs2_def ex_heap2_def msg_data_def ex_content_def)
  with copy_shares_value [OF ex_pool_fresh ex_pool_reach l] show ?thesis
    by (simp add: ex_msgs2_def msg_check_def msg_init_def)
qed



text \<open>
  C6. Message objects do not interfere: an operation on some objects leaves the bytes and the
  size that every other object reads unchanged, also where they share a content block.
\<close>

theorem messages_do_not_interfere:
  assumes "fresh_pool E X p0" "pool_reach E p0 (h, ms)" "pool_legal E op (h, ms)"
    and "pool_exec op (h, ms) = Some (h', ms')" "l < length ms" "m_body (ms' ! l) = m_body (ms ! l)"
  shows "msg_data h' (ms' ! l) = msg_data h (ms ! l) \<and> msg_size h' (ms' ! l) = msg_size h (ms ! l)"
  using exec_keeps_values [of E X h ms op h' ms' l] pool_reach_ok [OF assms(2,1)] assms(3-) by simp

theorem messages_do_not_interfere_witness:
  "\<exists>h ms. pool_exec (Op_close 1) (ex_heap2, ex_msgs2) = Some (h, ms) \<and>
     msg_data h (ms ! 0) = Some [1, 2, 3]"
proof -
  obtain h ms where ex: "pool_exec (Op_close 1) (ex_heap2, ex_msgs2) = Some (h, ms)"
    and b: "m_body (ms ! 0) = m_body (ex_msgs2 ! 0)"
    by (simp add: ex_msgs2_def msg_init_def msg_close_def msg_check_def close_body_def
        msg_reset_metadata_def)
  have l: "pool_legal {} (Op_close 1) (ex_heap2, ex_msgs2)"
    by (simp add: ex_msgs2_def dangling_def msg_init_def)
  have "0 < length ex_msgs2" by (simp add: ex_msgs2_def)
  from messages_do_not_interfere [OF ex_pool_fresh ex_pool_reach l ex this b] ex show ?thesis
    by (simp add: ex_msgs2_def ex_heap2_def msg_data_def ex_content_def)
qed

end
