(* ===== verification/Frame.thy ===== *)
theory Frame
  imports Msg_Pool
begin

text \<open>
  The value of a message.  The layers above \<open>msg_t\<close> (framing, pipes, sockets) are modelled
  on message values, called frames.  \<open>frame_of\<close> reads the value of a message object; the
  lemmas show that the operations of \<open>msg_t\<close> act on values the way the upper layers use
  them, by the ownership results of \<open>Msg_Pool\<close>.  The \<open>shared\<close> flag is an internal
  matter of the representation and not part of the value.
\<close>

datatype frame_kind = Data | Delim | Join_cmd | Leave_cmd

record frame =
  f_kind :: frame_kind
  f_data :: "byte list"
  f_flags :: byte
  f_group :: "byte list"
  f_routing_id :: u32
  f_metadata :: "nat option"

definition frame_of :: "heap \<Rightarrow> msg \<Rightarrow> frame option" where
  "frame_of h m =
     do {
       (kd, d) \<leftarrow> (case m_body m of
                    Invalid \<Rightarrow> None
                  | Delimiter \<Rightarrow> Some (Delim, [])
                  | Join \<Rightarrow> Some (Join_cmd, [])
                  | Leave \<Rightarrow> Some (Leave_cmd, [])
                  | _ \<Rightarrow> map_option (Pair Data) (msg_data h m));
       Some \<lparr>f_kind = kd, f_data = d, f_flags = m_flags m AND NOT flag_shared, f_group = m_group m,
             f_routing_id = m_routing_id m, f_metadata = m_metadata m\<rparr>
     }"

definition data_frame :: "byte \<Rightarrow> byte list \<Rightarrow> frame" where
  "data_frame fl d =
     \<lparr>f_kind = Data, f_data = d, f_flags = fl, f_group = [], f_routing_id = 0, f_metadata = None\<rparr>"

definition empty_frame :: frame where
  "empty_frame = data_frame 0 []"

definition delimiter_frame :: frame where
  "delimiter_frame = empty_frame\<lparr>f_kind := Delim\<rparr>"

definition has_flag :: "byte \<Rightarrow> frame \<Rightarrow> bool" where
  "has_flag fl f = (f_flags f AND fl \<noteq> 0)"

definition f_more :: "frame \<Rightarrow> bool" where
  "f_more f = has_flag flag_more f"

definition f_set_flags :: "byte \<Rightarrow> frame \<Rightarrow> frame" where
  "f_set_flags fl f = f\<lparr>f_flags := f_flags f OR fl\<rparr>"

definition f_reset_flags :: "byte \<Rightarrow> frame \<Rightarrow> frame" where
  "f_reset_flags fl f = f\<lparr>f_flags := f_flags f AND NOT fl\<rparr>"

section \<open>Message objects implement message values\<close>

lemma frame_of_init: "frame_of h msg_init = Some empty_frame"
  by (simp add: frame_of_def msg_init_def blank_msg_def msg_data_def empty_frame_def data_frame_def)

lemma frame_of_delimiter: "frame_of h msg_init_delimiter = Some delimiter_frame"
  by (simp add: frame_of_def msg_init_delimiter_def blank_msg_def delimiter_frame_def
      empty_frame_def data_frame_def)

lemma frame_of_init_buf:
  assumes "msg_init_buf data ffn hint content h = (Inr (), h', m)"
  shows "frame_of h' m = Some (data_frame 0 data)"
proof (cases "length data < max_vsm_size")
  case True
  then have "unat (of_nat (length data) :: u64) = length data"
    by (simp add: max_vsm_size_def unat_of_nat)
  with True assms show ?thesis
    by (auto simp: msg_init_buf_def msg_init_size_def frame_of_def msg_data_def blank_msg_def data_frame_def)
next
  case False
  with assms show ?thesis
    by (auto simp: msg_init_buf_def msg_init_external_storage_def msg_init_data_def alloc_content_def
        frame_of_def msg_data_def blank_msg_def data_frame_def split: option.splits if_splits)
qed

lemma frame_of_set_flags:
  assumes "fl AND flag_shared = 0" "frame_of h m = Some f"
  shows "frame_of h (msg_set_flags fl m) = Some (f_set_flags fl f)"
proof -
  have "fl AND NOT flag_shared = fl"
  proof (rule bit_word_eqI)
    fix n assume n: "n < LENGTH(8)"
    have "\<not> (bit fl n \<and> bit flag_shared n)"
      using assms(1) bit_and_iff [of fl flag_shared n] by simp
    with n show "bit (fl AND NOT flag_shared) n = bit fl n" by (auto simp: bit_simps)
  qed
  with assms(2) show ?thesis
    by (auto simp: frame_of_def msg_set_flags_def f_set_flags_def msg_data_def bit.conj_disj_distrib2
        split: bind_splits body.splits)
qed

lemma frame_of_cong:
  assumes "m_body m' = m_body m" "m_flags m' AND NOT flag_shared = m_flags m AND NOT flag_shared"
    and "m_group m' = m_group m" "m_routing_id m' = m_routing_id m" "m_metadata m' = m_metadata m"
    and "msg_data h' m' = msg_data h m"
  shows "frame_of h' m' = frame_of h m"
  using assms by (simp add: frame_of_def cong: body.case_cong)

lemma not_shared_or [simp]: "(v OR flag_shared) AND NOT flag_shared = v AND NOT flag_shared"
  by (rule bit_word_eqI) (auto simp: bit_simps)

lemma move_frame:
  assumes ok: "pool_ok E X (h, ms)" and legal: "pool_legal E (Op_move i j) (h, ms)"
    and bound: "\<And>d. X d + length ms < 2 ^ 32"
    and ex: "pool_exec (Op_move i j) (h, ms) = Some (h', ms')"
    and valid: "msg_check (ms ! i)" "msg_check (ms ! j)"
  shows "frame_of h' (ms' ! i) = frame_of h (ms ! j) \<and> frame_of h' (ms' ! j) = Some empty_frame"
proof -
  have ij: "i < length ms" "j < length ms" "i \<noteq> j" "\<not> dangling (ms ! i)" using legal by auto
  have ms': "ms' ! i = ms ! j" "ms' ! j = msg_init" "length ms' = length ms"
    using ex valid close_ok [OF ok ij(1,4)] ij by (auto simp: msg_move_def)
  have ok': "pool_ok E X (h', ms')" using pool_exec_ok [OF ok legal bound] ex by auto
  have "msg_data h' (ms ! j) = msg_data h (ms ! j)"
  proof (rule msg_data_cong)
    fix a k assume a: "content_ptr (ms ! j) = Some a" "h_contents h a = Some k"
    obtain k' where k': "h_contents h' a = Some k'"
      using user_alloc [of E h' ms' i a] ok' ms' ij a by (auto simp: pool_ok_def)
    have "users a ms \<noteq> {}" using ij a by (auto simp: users_def)
    from exec_block_data [OF ok legal ex this a(2) k'] k'
    show "\<exists>k'. h_contents h' a = Some k' \<and> c_data k' = c_data k \<and> c_size k' = c_size k" by simp
  next
    fix a assume "content_ptr (ms ! j) = Some a"
    then show "h_contents h a \<noteq> None"
      using user_alloc [of E h ms j a] ok ij by (auto simp: pool_ok_def)
  qed simp
  then have "frame_of h' (ms ! j) = frame_of h (ms ! j)" by (intro frame_of_cong) simp_all
  then show ?thesis
    unfolding ms' by (simp add: frame_of_init)
qed

lemma copy_share_fields:
  "copy_share h m = Some (h', s) \<Longrightarrow>
   m_flags s AND NOT flag_shared = m_flags m AND NOT flag_shared \<and> m_group s = m_group m \<and>
   m_routing_id s = m_routing_id m \<and> m_metadata s = m_metadata m"
  by (auto simp: copy_share_def share_block_def set_shared_def
      split: body.splits bind_splits if_splits)

lemma copy_frame:
  assumes ok: "pool_ok E X (h, ms)" and legal: "pool_legal E (Op_copy i j) (h, ms)"
    and bound: "\<And>d. X d + length ms < 2 ^ 32"
    and ex: "pool_exec (Op_copy i j) (h, ms) = Some (h', ms')"
    and valid: "msg_check (ms ! i)" "msg_check (ms ! j)"
  shows "frame_of h' (ms' ! i) = frame_of h (ms ! j) \<and> frame_of h' (ms' ! j) = frame_of h (ms ! j)"
proof -
  have ij: "i < length ms" "j < length ms" "i \<noteq> j" "\<not> dangling (ms ! i)" using legal by auto
  obtain h1 h2 s where s: "copy_share h1 (ms ! j) = Some (h2, s)" "ms' = ms[i := s, j := s]"
    using ex valid close_ok [OF ok ij(1,4)] by (auto simp: msg_copy_def split: bind_splits)
  have b: "m_body s = m_body (ms ! j)" using copy_share_body [OF s(1)] .
  have n: "ms' ! i = s" "ms' ! j = s" using s(2) ij by auto
  have "msg_data h' (ms' ! j) = msg_data h (ms ! j)"
    using exec_keeps_values [OF ok legal bound ex, of j] ij n b by simp
  then have "frame_of h' s = frame_of h (ms ! j)"
    using copy_share_fields [OF s(1)] b n by (intro frame_of_cong) simp_all
  with n show ?thesis by simp
qed

end
