(* ===== verification/Encoder.thy ===== *)
theory Encoder
  imports Wire Frame
begin

text \<open>
  The encoders: \<open>src/encoder.hpp\<close> with the state machines of \<open>src/v1_encoder.cpp\<close>,
  \<open>src/v2_encoder.cpp\<close> and \<open>src/raw_encoder.cpp\<close>.  The template parameter of
  \<open>encoder_base_t\<close> is the type \<open>proto\<close>; the member-function pointer \<open>next\<close> is a
  constructor of \<open>enc_step\<close>.  The memory between \<open>write_pos\<close> and
  \<open>write_pos + to_write\<close> is the byte list \<open>e_write\<close>.
\<close>

datatype proto = V1 | V2 | Raw

datatype enc_step = Message_ready | Size_ready | Raw_message_ready

record encoder =
  e_write :: "byte list"
  e_next :: enc_step
  e_new_msg :: bool
  e_bufsize :: nat
  e_msg :: "frame option"
  e_tmpbuf :: "byte list"

text \<open>Protocol flags of ZMTP 2, \<open>src/v2_protocol.hpp\<close>.\<close>

definition v2_more_flag :: byte where "v2_more_flag = 1"
definition v2_large_flag :: byte where "v2_large_flag = 2"
definition v2_command_flag :: byte where "v2_command_flag = 4"
definition v2_key_flag :: byte where "v2_key_flag = 8"

lemmas v2_flag_defs = v2_more_flag_def v2_large_flag_def v2_command_flag_def v2_key_flag_def

definition enc_next_step :: "byte list \<Rightarrow> enc_step \<Rightarrow> bool \<Rightarrow> encoder \<Rightarrow> encoder" where
  "enc_next_step ws nxt new_msg e = e\<lparr>e_write := ws, e_next := nxt, e_new_msg := new_msg\<rparr>"

text \<open>
  The constructors.  The memory of \<open>tmpbuf\<close> is not initialised: its content \<open>junk\<close> is
  arbitrary.
\<close>

definition encoder_new :: "proto \<Rightarrow> nat \<Rightarrow> byte list \<Rightarrow> encoder" where
  "encoder_new p bufsize junk =
     enc_next_step [] (if p = Raw then Raw_message_ready else Message_ready) True
       \<lparr>e_write = [], e_next = Message_ready, e_new_msg = False, e_bufsize = bufsize, e_msg = None,
        e_tmpbuf = junk\<rparr>"

section \<open>State machine actions\<close>

definition v2_protocol_flags :: "frame \<Rightarrow> byte" where
  "v2_protocol_flags f =
     (if has_flag flag_more f then v2_more_flag else 0) OR
     (if has_flag flag_command f then v2_command_flag else 0) OR
     v2_large_flag OR
     (if has_flag flag_netml_key f then v2_key_flag else 0)"

text \<open>
  The size of the body, or the number of 8-byte keys for a message marked \<open>netml_key\<close>,
  is converted to \<open>uint32_t\<close>.
\<close>

definition v2_size_field :: "frame \<Rightarrow> u32" where
  "v2_size_field f =
     (if has_flag flag_netml_key f then of_nat (length (f_data f) div 8)
      else of_nat (length (f_data f)))"

text \<open>
  Byte 1 of \<open>tmpbuf\<close> is never written; the six bytes that go out are byte 0, byte 1 as it
  is, and the size field.
\<close>

definition v2_message_ready :: "frame \<Rightarrow> encoder \<Rightarrow> encoder" where
  "v2_message_ready f e =
     (let tmpbuf = [v2_protocol_flags f, e_tmpbuf e ! 1] @ put_uint32 (v2_size_field f) @
                   drop 6 (e_tmpbuf e)
      in enc_next_step (take 6 tmpbuf) Size_ready False (e\<lparr>e_tmpbuf := tmpbuf\<rparr>))"

definition v1_message_ready :: "frame \<Rightarrow> encoder \<Rightarrow> encoder" where
  "v1_message_ready f e =
     (let sz = length (f_data f) + 1 in
      if sz < 255
      then (let tmpbuf = [of_nat sz, f_flags f AND flag_more] @ drop 2 (e_tmpbuf e)
            in enc_next_step (take 2 tmpbuf) Size_ready False (e\<lparr>e_tmpbuf := tmpbuf\<rparr>))
      else (let tmpbuf = [0xff] @ put_uint64 (of_nat sz) @ [f_flags f AND flag_more] @
                         drop 10 (e_tmpbuf e)
            in enc_next_step (take 10 tmpbuf) Size_ready False (e\<lparr>e_tmpbuf := tmpbuf\<rparr>)))"

definition enc_size_ready :: "frame \<Rightarrow> encoder \<Rightarrow> encoder" where
  "enc_size_ready f e = enc_next_step (f_data f) Message_ready True e"

definition raw_message_ready :: "frame \<Rightarrow> encoder \<Rightarrow> encoder" where
  "raw_message_ready f e = enc_next_step (f_data f) Raw_message_ready True e"

definition enc_run :: "proto \<Rightarrow> frame \<Rightarrow> encoder \<Rightarrow> encoder" where
  "enc_run p f e =
     (case e_next e of
        Message_ready \<Rightarrow> (if p = V1 then v1_message_ready f e else v2_message_ready f e)
      | Size_ready \<Rightarrow> enc_size_ready f e
      | Raw_message_ready \<Rightarrow> raw_message_ready f e)"

section \<open>Loading a message and filling a buffer\<close>

definition load_msg :: "proto \<Rightarrow> frame \<Rightarrow> encoder \<Rightarrow> encoder option" where
  "load_msg p f e =
     do {
       zmq_assert (e_msg e = None);
       Some (enc_run p f (e\<lparr>e_msg := Some f\<rparr>))
     }"

text \<open>
  The copying step of the loop: \<open>Inl\<close> is the early return with the bytes of the message
  itself (zero copy), \<open>Inr\<close> continues with the extended buffer.
\<close>

definition enc_copy :: "bool \<Rightarrow> nat \<Rightarrow> byte list \<Rightarrow> encoder \<Rightarrow> (byte list + byte list) \<times> encoder" where
  "enc_copy own bs acc e =
     (if acc = [] \<and> own \<and> length (e_write e) \<ge> bs
      then (Inl (e_write e), e\<lparr>e_write := []\<rparr>)
      else (let n = min (length (e_write e)) (bs - length acc)
            in (Inr (acc @ take n (e_write e)), e\<lparr>e_write := drop n (e_write e)\<rparr>)))"

lemma enc_run_write:
  "e_new_msg (enc_run p f e) \<or> 0 < length (e_write (enc_run p f e))"
  by (auto simp: enc_run_def v1_message_ready_def v2_message_ready_def enc_size_ready_def
      raw_message_ready_def enc_next_step_def Let_def put_uint32_def split: enc_step.splits)

text \<open>
  The loop of \<open>encode\<close>.  \<open>own\<close> tells that the encoder uses its own buffer
  (\<open>*data_ == NULL\<close>), \<open>bs\<close> is the size of the buffer, \<open>acc\<close> what it holds.
  When a message is finished it is closed and the encoder forgets it.
\<close>

function (sequential) enc_loop ::
  "proto \<Rightarrow> frame \<Rightarrow> bool \<Rightarrow> nat \<Rightarrow> byte list \<Rightarrow> encoder \<Rightarrow> byte list \<times> encoder" where
  "enc_loop p f own bs acc e =
     (if length acc < bs then
        (if e_write e = [] \<and> e_new_msg e then (acc, e\<lparr>e_msg := None\<rparr>)
         else (let e' = (if e_write e = [] then enc_run p f e else e) in
               case enc_copy own bs acc e' of
                 (Inl out, e'') \<Rightarrow> (out, e'')
               | (Inr acc', e'') \<Rightarrow> enc_loop p f own bs acc' e''))
      else (acc, e))"
  by pat_completeness auto
termination
proof (relation "measure (\<lambda>(p, f, own, bs, acc, e). 2 * (bs - length acc) +
    (if e_new_msg e then 0 else 1))", goal_cases)
  case 1 then show ?case by simp
next
  case (2 p f own bs acc e e' r e'' acc')
  then have e'_def: "e' = (if e_write e = [] then enc_run p f e else e)"
    and c: "enc_copy own bs acc e' = (Inr acc', e'')"
    and len: "length acc < bs" and nf: "\<not> (e_write e = [] \<and> e_new_msg e)" by auto
  define n where "n = min (length (e_write e')) (bs - length acc)"
  have acc': "length acc' = length acc + n" "e_new_msg e'' = e_new_msg e'"
    using c unfolding n_def by (auto simp: enc_copy_def Let_def split: if_splits)
  have nle: "n \<le> bs - length acc" by (simp add: n_def)
  show ?case
  proof (cases "e_write e = []")
    case True
    then have "e_new_msg e' \<or> 0 < n" "\<not> e_new_msg e"
      using enc_run_write [of p f e] len nf by (auto simp: e'_def n_def)
    then show ?thesis using acc' len nle by auto
  next
    case False
    then have "0 < n" using len by (auto simp: e'_def n_def)
    then show ?thesis using acc' len nle False by (auto simp: e'_def)
  qed
qed

declare enc_loop.simps [simp del]

text \<open>
  \<open>encode\<close>: \<open>None\<close> for the buffer argument stands for \<open>NULL\<close>.  The result is the bytes
  the caller finds at \<open>*data_\<close>.
\<close>

definition enc_buffersize :: "nat option \<Rightarrow> encoder \<Rightarrow> nat" where
  "enc_buffersize data_size e = (case data_size of None \<Rightarrow> e_bufsize e | Some n \<Rightarrow> n)"

definition encode :: "proto \<Rightarrow> nat option \<Rightarrow> encoder \<Rightarrow> byte list \<times> encoder" where
  "encode p data_size e =
     (case e_msg e of
        None \<Rightarrow> ([], e)
      | Some f \<Rightarrow>
          enc_loop p f (data_size = None) (enc_buffersize data_size e) [] e)"

text \<open>A sequence of calls of \<open>encode\<close>; the bytes are sent in the order of the calls.\<close>

fun encode_seq :: "proto \<Rightarrow> nat option list \<Rightarrow> encoder \<Rightarrow> byte list \<times> encoder" where
  "encode_seq p [] e = ([], e)"
| "encode_seq p (s # ss) e =
     (let (out, e') = encode p s e; (outs, e'') = encode_seq p ss e' in (out @ outs, e''))"

section \<open>What the encoders send\<close>

text \<open>
  The bytes of one message on the wire.  \<open>j\<close> is the content of the byte of \<open>tmpbuf\<close> that
  the encoder of version 2 never writes.
\<close>

definition wire_header :: "proto \<Rightarrow> byte \<Rightarrow> frame \<Rightarrow> byte list" where
  "wire_header p j f =
     (case p of
        V2 \<Rightarrow> [v2_protocol_flags f, j] @ put_uint32 (v2_size_field f)
      | V1 \<Rightarrow> (let sz = length (f_data f) + 1 in
               if sz < 255 then [of_nat sz, f_flags f AND flag_more]
               else [0xff] @ put_uint64 (of_nat sz) @ [f_flags f AND flag_more])
      | Raw \<Rightarrow> [])"

definition wire :: "proto \<Rightarrow> byte \<Rightarrow> frame \<Rightarrow> byte list" where
  "wire p j f = wire_header p j f @ f_data f"

text \<open>The bytes of the current message that have not been handed out yet.\<close>

definition pending :: "frame \<Rightarrow> encoder \<Rightarrow> byte list" where
  "pending f e = e_write e @ (if e_new_msg e then [] else f_data f)"

definition idle_next :: "proto \<Rightarrow> enc_step" where
  "idle_next p = (if p = Raw then Raw_message_ready else Message_ready)"

definition enc_ok :: "proto \<Rightarrow> encoder \<Rightarrow> bool" where
  "enc_ok p e \<longleftrightarrow>
     (if e_new_msg e then e_next e = idle_next p else e_next e = Size_ready \<and> p \<noteq> Raw)"

text \<open>An encoder between two messages.\<close>

definition enc_idle :: "proto \<Rightarrow> encoder \<Rightarrow> bool" where
  "enc_idle p e \<longleftrightarrow> e_msg e = None \<and> e_write e = [] \<and> e_new_msg e \<and> enc_ok p e"

lemma encoder_new_idle: "enc_idle p (encoder_new p bs junk)"
  by (simp add: encoder_new_def enc_idle_def enc_next_step_def enc_ok_def idle_next_def)

lemma load_msg_pending:
  assumes "enc_idle p e"
  shows "\<exists>e'. load_msg p f e = Some e' \<and> enc_ok p e' \<and> e_msg e' = Some f \<and>
    pending f e' = wire p (e_tmpbuf e ! 1) f \<and> e_bufsize e' = e_bufsize e \<and>
    (p = V2 \<longrightarrow> e_tmpbuf e' ! 1 = e_tmpbuf e ! 1)"
  using assms
  by (cases p)
    (auto simp: enc_idle_def load_msg_def enc_run_def v1_message_ready_def v2_message_ready_def
      raw_message_ready_def enc_next_step_def pending_def wire_def wire_header_def enc_ok_def Let_def
      idle_next_def put_uint32_def put_uint64_def)

lemma enc_copy_pending:
  assumes "enc_copy own bs acc e = (r, e')" "enc_ok p e"
  shows "enc_ok p e' \<and> e_bufsize e' = e_bufsize e \<and> e_tmpbuf e' = e_tmpbuf e \<and> e_msg e' = e_msg e \<and>
    (case r of Inl out \<Rightarrow> out | Inr out \<Rightarrow> out) @ pending f e' = acc @ pending f e \<and>
    (case r of Inl out \<Rightarrow> bs \<le> length out | Inr out \<Rightarrow> True)"
  using assms by (auto simp: enc_copy_def enc_ok_def pending_def Let_def split: if_splits)

lemma enc_run_pending:
  assumes "e_write e = []" "\<not> e_new_msg e" "enc_ok p e"
  shows "enc_ok p (enc_run p f e) \<and> pending f (enc_run p f e) = pending f e \<and>
    e_msg (enc_run p f e) = e_msg e \<and> e_bufsize (enc_run p f e) = e_bufsize e \<and>
    e_tmpbuf (enc_run p f e) = e_tmpbuf e"
  using assms
  by (auto simp: enc_ok_def enc_run_def enc_size_ready_def enc_next_step_def pending_def idle_next_def)

lemma enc_loop_spec:
  assumes "enc_loop p f own bs acc e = (out, e')" "enc_ok p e" "e_msg e = Some f"
  shows "enc_ok p e' \<and> e_bufsize e' = e_bufsize e \<and> e_tmpbuf e' = e_tmpbuf e \<and> out @ pending f e' = acc @ pending f e \<and>
    (e_msg e' = Some f \<and> bs \<le> length out \<or> enc_idle p e')"
  using assms
proof (induction p f own bs acc e rule: enc_loop.induct)
  case (1 p f own bs acc e)
  show ?case
  proof (cases "length acc < bs \<and> \<not> (e_write e = [] \<and> e_new_msg e)")
    case False
    with "1.prems" show ?thesis
      by (auto simp: enc_loop.simps [of p f own bs acc e] enc_ok_def pending_def enc_idle_def
          split: if_splits)
  next
    case True
    define e1 where "e1 = (if e_write e = [] then enc_run p f e else e)"
    have e1: "enc_ok p e1" "e_msg e1 = Some f" "pending f e1 = pending f e" "e_bufsize e1 = e_bufsize e"
      "e_tmpbuf e1 = e_tmpbuf e"
      using enc_run_pending [of e p f] "1.prems" True by (auto simp: e1_def)
    obtain r e2 where c: "enc_copy own bs acc e1 = (r, e2)" by fastforce
    note copy = enc_copy_pending [OF c e1(1), of f]
    have loop: "enc_loop p f own bs acc e =
        (case r of Inl out \<Rightarrow> (out, e2) | Inr acc' \<Rightarrow> enc_loop p f own bs acc' e2)"
      using True c by (auto simp: enc_loop.simps [of p f own bs acc e] e1_def Let_def)
    show ?thesis
    proof (cases r)
      case (Inl o1)
      with loop copy e1 "1.prems"(1) show ?thesis by auto
    next
      case (Inr acc')
      have "enc_loop p f own bs acc' e2 = (out, e')" using loop Inr "1.prems"(1) by simp
      from "1.IH" [OF _ _ e1_def c [symmetric] Inr this] copy e1 Inr True show ?thesis by auto
    qed
  qed
qed

lemma encode_spec:
  assumes "encode p ds e = (out, e')" "enc_ok p e" "e_msg e = Some f"
  shows "enc_ok p e' \<and> e_bufsize e' = e_bufsize e \<and> e_tmpbuf e' = e_tmpbuf e \<and> out @ pending f e' = pending f e \<and>
    (e_msg e' = Some f \<and> enc_buffersize ds e \<le> length out \<or> enc_idle p e')"
  using assms enc_loop_spec [of p f _ _ "[]" e out e'] by (auto simp: encode_def)

lemma encode_seq_idle: "e_msg e = None \<Longrightarrow> encode_seq p ss e = ([], e)"
  by (induction ss) (simp_all add: encode_def)

lemma encode_seq_spec:
  assumes "encode_seq p ss e = (out, e')" "enc_ok p e" "e_msg e = Some f"
  shows "\<exists>rest. pending f e = out @ rest \<and> (enc_idle p e' \<and> rest = [] \<or> e_msg e' = Some f) \<and>
    e_bufsize e' = e_bufsize e \<and> e_tmpbuf e' = e_tmpbuf e"
  using assms
proof (induction ss arbitrary: e out)
  case Nil then show ?case by simp
next
  case (Cons s ss)
  obtain o1 e1 where e1: "encode p s e = (o1, e1)" by fastforce
  obtain o2 where o2: "encode_seq p ss e1 = (o2, e')" "out = o1 @ o2"
    using Cons.prems(1) e1 by (auto split: prod.splits)
  note sp = encode_spec [OF e1 Cons.prems(2,3)]
  show ?case
  proof (cases "enc_idle p e1")
    case True
    then have "o2 = []" "e' = e1" using o2 encode_seq_idle [of e1 p ss] by (auto simp: enc_idle_def)
    moreover have "pending f e1 = []" using True by (simp add: enc_idle_def pending_def)
    ultimately show ?thesis using sp o2 True by auto
  next
    case False
    with sp Cons.IH [OF o2(1)] show ?thesis using o2(2) by (metis append_assoc)
  qed
qed

text \<open>Progress: every call that does not finish the message hands out at least one byte.\<close>

lemma encode_seq_finishes:
  assumes "enc_ok p e" "e_msg e = Some f" "length (pending f e) < length ss"
    and "\<forall>s \<in> set ss. 0 < enc_buffersize s e"
  shows "enc_idle p (snd (encode_seq p ss e))"
  using assms
proof (induction ss arbitrary: e)
  case Nil then show ?case by simp
next
  case (Cons s ss)
  obtain o1 e1 where e1: "encode p s e = (o1, e1)" by fastforce
  note sp = encode_spec [OF e1 Cons.prems(1,2)]
  show ?case
  proof (cases "enc_idle p e1")
    case True
    then show ?thesis using e1 encode_seq_idle [of e1 p ss] by (simp add: enc_idle_def)
  next
    case False
    then have "e_msg e1 = Some f" "0 < length o1" using sp Cons.prems(4) by auto
    moreover have "enc_buffersize x e1 = enc_buffersize x e" for x
      using sp by (simp add: enc_buffersize_def cong: option.case_cong)
    moreover have "length o1 + length (pending f e1) = length (pending f e)"
      using sp by (metis length_append)
    ultimately have "enc_idle p (snd (encode_seq p ss e1))"
      using sp Cons.prems(3,4) by (intro Cons.IH) (auto simp del: length_greater_0_conv)
    then show ?thesis using e1 by (simp add: case_prod_beta)
  qed
qed

text \<open>
  A sender: every message is loaded and encoded by calls of \<open>encode\<close> with the given buffers.
  Loading a message while another one is in progress is an assertion failure.
\<close>

fun send_all :: "proto \<Rightarrow> (frame \<times> nat option list) list \<Rightarrow> encoder \<Rightarrow> (byte list \<times> encoder) option" where
  "send_all p [] e = Some ([], e)"
| "send_all p ((f, ss) # rest) e =
     do {
       e1 \<leftarrow> load_msg p f e;
       (let (out, e2) = encode_seq p ss e1 in
        do { (outs, e3) \<leftarrow> send_all p rest e2; Some (out @ outs, e3) })
     }"

text \<open>The buffers suffice: one more call than there are bytes, and none of them is empty.\<close>

definition enough_calls :: "proto \<Rightarrow> nat \<Rightarrow> frame \<times> nat option list \<Rightarrow> bool" where
  "enough_calls p bs w =
     (case w of (f, ss) \<Rightarrow> length (wire p 0 f) < length ss \<and>
        list_all (\<lambda>s. 0 < (case s of None \<Rightarrow> bs | Some n \<Rightarrow> n)) ss)"

lemma wire_length: "length (wire p j f) = length (wire p k f)"
  by (simp add: wire_def wire_header_def split: proto.splits)

lemma send_one:
  assumes "enc_idle p e" "enough_calls p (e_bufsize e) (f, ss)"
  shows "\<exists>e1 e2. load_msg p f e = Some e1 \<and> encode_seq p ss e1 = (wire p (e_tmpbuf e ! 1) f, e2) \<and>
    enc_idle p e2 \<and> e_bufsize e2 = e_bufsize e \<and> (p = V2 \<longrightarrow> e_tmpbuf e2 ! 1 = e_tmpbuf e ! 1)"
proof -
  obtain e1 where e1: "load_msg p f e = Some e1" "enc_ok p e1" "e_msg e1 = Some f"
    "pending f e1 = wire p (e_tmpbuf e ! 1) f" "e_bufsize e1 = e_bufsize e"
    "p = V2 \<longrightarrow> e_tmpbuf e1 ! 1 = e_tmpbuf e ! 1"
    using load_msg_pending [OF assms(1)] by blast
  obtain out e2 where e2: "encode_seq p ss e1 = (out, e2)" by fastforce
  have "length (pending f e1) < length ss" "\<forall>s \<in> set ss. 0 < enc_buffersize s e1"
    using assms(2) e1(4,5) wire_length [of p 0 f "e_tmpbuf e ! 1"]
    by (auto simp: enough_calls_def enc_buffersize_def list_all_iff split: option.splits)
  then have "enc_idle p e2" using encode_seq_finishes [OF e1(2,3), of ss] e2 by simp
  with encode_seq_spec [OF e2 e1(2,3)] e1 e2 show ?thesis by (auto simp: enc_idle_def)
qed

lemma send_all_wire:
  assumes "enc_idle p e" "list_all (enough_calls p (e_bufsize e)) ws" "p = V2 \<longrightarrow> j = e_tmpbuf e ! 1"
    "p \<noteq> V2 \<longrightarrow> j = 0"
  shows "\<exists>e'. send_all p ws e = Some (concat (map (wire p j) (map fst ws)), e') \<and> enc_idle p e'"
  using assms
proof (induction ws arbitrary: e)
  case Nil then show ?case by simp
next
  case (Cons w ws)
  obtain f ss where w: "w = (f, ss)" by fastforce
  obtain e1 e2 where s: "load_msg p f e = Some e1" "encode_seq p ss e1 = (wire p (e_tmpbuf e ! 1) f, e2)"
    "enc_idle p e2" "e_bufsize e2 = e_bufsize e" "p = V2 \<longrightarrow> e_tmpbuf e2 ! 1 = e_tmpbuf e ! 1"
    using send_one [OF Cons.prems(1), of f ss] Cons.prems(2) w by auto
  have j: "wire p (e_tmpbuf e ! 1) f = wire p j f"
    using Cons.prems(3,4) by (cases p) (simp_all add: wire_def wire_header_def)
  obtain e' where "send_all p ws e2 = Some (concat (map (wire p j) (map fst ws)), e')" "enc_idle p e'"
    using Cons.IH [OF s(3) _ _ Cons.prems(4)] s(4,5) Cons.prems(2,3) by force
  then show ?case using w s j by simp
qed

end
