(* ===== verification/Allocator.thy ===== *)
theory Allocator
  imports Msg
begin

text \<open>
  The receive buffers of the decoders, \<open>src/decoder_allocators.hpp\<close> and
  \<open>src/decoder_allocators.cpp\<close>.  A shared buffer starts with a reference counter and ends
  with an array of \<open>al_max_counters\<close> content blocks for zero-copy messages.  Live buffers
  are held by identifier with their counter; an operation on a buffer that was freed is
  \<open>None\<close>.
\<close>

record allocator =
  al_buf :: "nat option"
  al_bufsize :: nat
  al_max_size :: nat
  al_content :: nat
  al_max_counters :: nat
  al_bufs :: "nat \<Rightarrow> u32 option"
  al_next :: nat

text \<open>\<open>ceil (max_size / max_vsm_size)\<close> counters.\<close>

definition allocator_new :: "nat \<Rightarrow> allocator" where
  "allocator_new bufsize =
     \<lparr>al_buf = None, al_bufsize = 0, al_max_size = bufsize, al_content = 0,
      al_max_counters = (bufsize + max_vsm_size - 1) div max_vsm_size,
      al_bufs = (\<lambda>_. None), al_next = 0\<rparr>"

definition allocator_new_max :: "nat \<Rightarrow> nat \<Rightarrow> allocator" where
  "allocator_new_max bufsize max_messages = (allocator_new bufsize)\<lparr>al_max_counters := max_messages\<rparr>"

definition al_release :: "allocator \<Rightarrow> allocator" where
  "al_release al = al\<lparr>al_buf := None, al_bufsize := 0, al_content := 0\<rparr>"

definition al_set_ref :: "nat \<Rightarrow> u32 option \<Rightarrow> allocator \<Rightarrow> allocator" where
  "al_set_ref b v al = al\<lparr>al_bufs := (al_bufs al)(b := v)\<rparr>"

text \<open>\<open>allocate\<close>: drops the reference of the decoder; a buffer without other users is reused.\<close>

definition al_drop_own :: "allocator \<Rightarrow> allocator option" where
  "al_drop_own al =
     (case al_buf al of
        None \<Rightarrow> Some al
      | Some b \<Rightarrow>
          do {
            v \<leftarrow> al_bufs al b;
            (let (v', alive) = counter_sub v 1; al' = al_set_ref b (Some v') al
             in Some (if alive then al_release al' else al'))
          })"

definition al_allocate :: "allocator \<Rightarrow> allocator option" where
  "al_allocate al =
     do {
       al1 \<leftarrow> al_drop_own al;
       (let al2 = (case al_buf al1 of
                     None \<Rightarrow> (al_set_ref (al_next al1) (Some 1) al1)
                       \<lparr>al_buf := Some (al_next al1), al_next := Suc (al_next al1)\<rparr>
                   | Some b \<Rightarrow> al_set_ref b (Some 1) al1)
        in Some (al2\<lparr>al_bufsize := al_max_size al2, al_content := 0\<rparr>))
     }"

definition al_deallocate :: "allocator \<Rightarrow> allocator option" where
  "al_deallocate al =
     (case al_buf al of
        None \<Rightarrow> Some (al_release al)
      | Some b \<Rightarrow>
          do {
            v \<leftarrow> al_bufs al b;
            (let (v', alive) = counter_sub v 1
             in Some (al_release (al_set_ref b (if alive then Some v' else None) al)))
          })"

definition al_inc_ref :: "allocator \<Rightarrow> allocator option" where
  "al_inc_ref al =
     do {
       b \<leftarrow> al_buf al;
       v \<leftarrow> al_bufs al b;
       Some (al_set_ref b (Some (counter_add v 1)) al)
     }"

text \<open>The free function of zero-copy messages; the hint is the buffer.\<close>

definition al_call_dec_ref :: "nat \<Rightarrow> allocator \<Rightarrow> allocator option" where
  "al_call_dec_ref b al =
     do {
       v \<leftarrow> al_bufs al b;
       (let (v', alive) = counter_sub v 1
        in Some (al_set_ref b (if alive then Some v' else None) al))
     }"

definition al_resize :: "nat \<Rightarrow> allocator \<Rightarrow> allocator" where
  "al_resize n al = al\<lparr>al_bufsize := n\<rparr>"

text \<open>
  \<open>provide_content\<close> and \<open>advance_content\<close>: the content blocks are an array; taking a
  block beyond its end would write outside the buffer.
\<close>

definition al_take_content :: "allocator \<Rightarrow> allocator option" where
  "al_take_content al =
     do {
       zmq_assert (al_buf al \<noteq> None);
       zmq_assert (al_content al < al_max_counters al);
       Some (al\<lparr>al_content := Suc (al_content al)\<rparr>)
     }"

section \<open>Reference counting of buffers\<close>

text \<open>
  Steps of an allocator with the messages on its buffers: \<open>out b\<close> is the number of
  zero-copy messages that live in buffer \<open>b\<close>.
\<close>

inductive al_step :: "allocator \<times> (nat \<Rightarrow> nat) \<Rightarrow> allocator \<times> (nat \<Rightarrow> nat) \<Rightarrow> bool" where
  al_step_allocate: "al_allocate al = Some al' \<Longrightarrow> al_step (al, out) (al', out)"
| al_step_deallocate: "al_deallocate al = Some al' \<Longrightarrow> al_step (al, out) (al', out)"
| al_step_resize: "al_step (al, out) (al_resize n al, out)"
| al_step_message: "al_buf al = Some b \<Longrightarrow> al_take_content al = Some al1 \<Longrightarrow> al_inc_ref al1 = Some al' \<Longrightarrow>
    out b + 2 < 2 ^ 32 \<Longrightarrow> al_step (al, out) (al', out(b := Suc (out b)))"
| al_step_close: "0 < out b \<Longrightarrow> al_call_dec_ref b al = Some al' \<Longrightarrow>
    al_step (al, out) (al', out(b := out b - 1))"

inductive al_reach :: "nat \<Rightarrow> allocator \<times> (nat \<Rightarrow> nat) \<Rightarrow> bool" for n where
  al_reach_start: "al_reach n (allocator_new n, \<lambda>_. 0)"
| al_reach_step: "al_reach n s \<Longrightarrow> al_step s s' \<Longrightarrow> al_reach n s'"

definition al_refs :: "allocator \<Rightarrow> (nat \<Rightarrow> nat) \<Rightarrow> nat \<Rightarrow> nat" where
  "al_refs al out b = out b + (if al_buf al = Some b then 1 else 0)"

definition al_inv :: "allocator \<times> (nat \<Rightarrow> nat) \<Rightarrow> bool" where
  "al_inv s \<longleftrightarrow>
     (case s of (al, out) \<Rightarrow>
        (\<forall>b. (case al_bufs al b of
                None \<Rightarrow> al_refs al out b = 0
              | Some v \<Rightarrow> unat v = al_refs al out b \<and> 0 < al_refs al out b \<and> b < al_next al)))"

inductive_cases al_stepE: "al_step (al, out) s'"

lemma al_inv_start: "al_inv (allocator_new n, \<lambda>_. 0)"
  by (simp add: al_inv_def allocator_new_def al_refs_def)

lemma al_live:
  assumes "al_inv (al, out)" "al_buf al = Some b \<or> 0 < out b"
  shows "\<exists>v. al_bufs al b = Some v \<and> unat v = al_refs al out b \<and> b < al_next al"
  using assms by (auto simp: al_inv_def al_refs_def split: option.splits dest!: spec [of _ b])

lemma al_inv_update:
  assumes "al_inv (al, out)"
    and "\<And>c. c \<noteq> b \<Longrightarrow> al_bufs al' c = al_bufs al c \<and> al_refs al' out' c = al_refs al out c"
    and "al_next al \<le> al_next al'"
    and "case al_bufs al' b of None \<Rightarrow> al_refs al' out' b = 0
         | Some v \<Rightarrow> unat v = al_refs al' out' b \<and> 0 < al_refs al' out' b \<and> b < al_next al'"
  shows "al_inv (al', out')"
  unfolding al_inv_def split
proof
  fix c
  show "case al_bufs al' c of None \<Rightarrow> al_refs al' out' c = 0
     | Some v \<Rightarrow> unat v = al_refs al' out' c \<and> 0 < al_refs al' out' c \<and> c < al_next al'"
  proof (cases "c = b")
    case True show ?thesis unfolding True by (rule assms(4))
  next
    case False
    with assms(1-3) show ?thesis
      by (auto simp: al_inv_def split: option.splits dest!: spec [of _ c])
  qed
qed

lemma unat_dec: "unat (v :: u32) = Suc n \<Longrightarrow> unat (v - 1) = n"
proof -
  assume a: "unat v = Suc n"
  then have "v \<noteq> 0" by auto
  with a show ?thesis by (simp add: unat_minus_one)
qed

lemma unat_dec_zero: "unat (v :: u32) = Suc n \<Longrightarrow> (v - 1 = 0) = (n = 0)"
  using unat_dec [of v n] unat_eq_0 [of "v - 1"] by simp

lemmas al_op_defs = al_allocate_def al_drop_own_def al_deallocate_def al_inc_ref_def al_call_dec_ref_def
  al_take_content_def al_release_def al_set_ref_def al_resize_def counter_sub_def counter_add_def

lemma al_fresh_ok:
  assumes "al_inv (al, out)" "al_buf al = None"
  shows "al_inv (al\<lparr>al_bufs := (al_bufs al)(al_next al := Some 1), al_buf := Some (al_next al),
      al_next := Suc (al_next al), al_bufsize := n, al_content := k\<rparr>, out)"
proof -
  have "al_bufs al (al_next al) = None"
    using assms(1) by (auto simp: al_inv_def split: option.splits dest!: spec [of _ "al_next al"])
  then have "out (al_next al) = 0"
    using assms by (auto simp: al_inv_def al_refs_def split: option.splits dest!: spec [of _ "al_next al"])
  with assms show ?thesis
    by (intro al_inv_update [OF assms(1), of "al_next al"]) (auto simp: al_refs_def)
qed

lemma al_release_shared_ok:
  assumes "al_inv (al, out)" "al_buf al = Some b" "al_bufs al b = Some v" "v - 1 \<noteq> 0"
  shows "al_inv (al\<lparr>al_bufs := (al_bufs al)(b := Some (v - 1)), al_buf := None, al_bufsize := n, al_content := k\<rparr>, out)"
proof -
  obtain "unat v = Suc (out b)" "b < al_next al"
    using al_live [OF assms(1), of b] assms(2,3) by (auto simp: al_refs_def)
  then have "unat (v - 1) = out b" "out b \<noteq> 0" "b < al_next al"
    using unat_dec unat_dec_zero assms(4) by auto
  with assms show ?thesis
    by (intro al_inv_update [OF assms(1), of b]) (auto simp: al_refs_def)
qed

lemma al_allocate_ok:
  assumes inv: "al_inv (al, out)"
  shows "\<exists>al'. al_allocate al = Some al' \<and> al_inv (al', out) \<and> al_buf al' \<noteq> None \<and>
    al_content al' = 0 \<and> al_bufsize al' = al_max_size al \<and> al_max_size al' = al_max_size al \<and>
    al_max_counters al' = al_max_counters al"
proof (cases "al_buf al")
  case None
  with al_fresh_ok [OF inv None, where n = "al_max_size al" and k = 0] show ?thesis by (simp add: al_op_defs)
next
  case (Some b)
  then obtain v where v: "al_bufs al b = Some v" "unat v = Suc (out b)" "b < al_next al"
    using al_live [OF inv, of b] by (auto simp: al_refs_def)
  show ?thesis
  proof (cases "v - 1 = 0")
    case True
    then have "out b = 0" using unat_dec_zero v by auto
    then have "al_inv (al\<lparr>al_bufs := (al_bufs al)(b := Some 1), al_bufsize := al_max_size al, al_content := 0\<rparr>, out)"
      using Some v by (intro al_inv_update [OF inv, of b]) (auto simp: al_refs_def)
    with Some v True show ?thesis by (simp add: al_op_defs)
  next
    case False
    note al_fresh_ok [OF al_release_shared_ok [OF inv Some v(1) False, where n = 0 and k = 0], where n = "al_max_size al" and k = 0]
    with Some v False show ?thesis by (simp add: al_op_defs Let_def)
  qed
qed

lemma al_step_inv: "al_step s s' \<Longrightarrow> al_inv s \<Longrightarrow> al_inv s'"
proof (induction rule: al_step.induct)
  case (al_step_allocate al al' out)
  then show ?case using al_allocate_ok [of al out] by auto
next
  case (al_step_deallocate al al' out)
  show ?case
  proof (cases "al_buf al")
    case None
    with al_step_deallocate show ?thesis
      by (auto simp: al_op_defs al_inv_def al_refs_def cong: option.case_cong)
  next
    case (Some b)
    then obtain v where v: "al_bufs al b = Some v" "unat v = Suc (out b)" "b < al_next al"
      using al_live [OF al_step_deallocate.prems, of b] by (auto simp: al_refs_def)
    then show ?thesis
      using al_step_deallocate Some unat_dec [OF v(2)] unat_dec_zero [OF v(2)]
      by (intro al_inv_update [OF al_step_deallocate.prems, of b]) (auto simp: al_op_defs al_refs_def)
  qed
next
  case (al_step_resize al out n)
  then show ?case by (simp add: al_op_defs al_inv_def al_refs_def cong: option.case_cong)
next
  case (al_step_message al b al1 al' out)
  obtain v where v: "al_bufs al b = Some v" "unat v = Suc (out b)" "b < al_next al"
    using al_live [OF al_step_message.prems, of b] al_step_message.hyps(1) by (auto simp: al_refs_def)
  have "unat (v + 1) = Suc (Suc (out b))"
    using v(2) al_step_message.hyps(4) by (simp add: unat_word_ariths)
  with v al_step_message show ?case
    by (intro al_inv_update [OF al_step_message.prems, of b])
      (auto simp: al_op_defs al_refs_def split: bind_splits)
next
  case (al_step_close out b al al')
  obtain v where v: "al_bufs al b = Some v" "unat v = al_refs al out b" "b < al_next al"
    using al_live [OF al_step_close.prems, of b] al_step_close.hyps(1) by auto
  then obtain n where n: "unat v = Suc n" "al_refs al (out(b := out b - 1)) b = n"
    using al_step_close.hyps(1) by (cases "out b") (auto simp: al_refs_def)
  show ?case
    using al_step_close v n unat_dec [OF n(1)] unat_dec_zero [OF n(1)]
    by (intro al_inv_update [OF al_step_close.prems, of b]) (auto simp: al_op_defs al_refs_def)
qed

lemma al_reach_inv: "al_reach n s \<Longrightarrow> al_inv s"
  by (induction rule: al_reach.induct) (auto intro: al_inv_start al_step_inv)

text \<open>
  C7. Receive buffers outlive their messages.  In every reachable state of an allocator a
  buffer exists exactly as long as the decoder or some zero-copy message uses it, its counter
  is the number of these uses, and neither asking for a new buffer nor closing a message on a
  live buffer touches freed memory.
\<close>

theorem buffer_lifetime:
  assumes "al_reach n (al, out)"
  shows "(al_bufs al b \<noteq> None) = (al_buf al = Some b \<or> 0 < out b) \<and>
     (\<forall>v. al_bufs al b = Some v \<longrightarrow> unat v = al_refs al out b) \<and>
     al_allocate al \<noteq> None \<and> al_deallocate al \<noteq> None \<and> (0 < out b \<longrightarrow> al_call_dec_ref b al \<noteq> None)"
proof -
  have inv: "al_inv (al, out)" using al_reach_inv [OF assms] .
  have 1: "(al_bufs al b \<noteq> None) = (al_buf al = Some b \<or> 0 < out b)"
    using inv by (auto simp: al_inv_def al_refs_def split: option.splits if_splits dest!: spec [of _ b])
  have 2: "\<forall>v. al_bufs al b = Some v \<longrightarrow> unat v = al_refs al out b"
    using inv by (auto simp: al_inv_def split: option.splits dest!: spec [of _ b])
  have 3: "al_allocate al \<noteq> None" using al_allocate_ok [OF inv] by auto
  have 4: "al_deallocate al \<noteq> None"
  proof (cases "al_buf al")
    case (Some c)
    with al_live [OF inv, of c] show ?thesis by (auto simp: al_op_defs)
  qed (simp add: al_op_defs)
  have 5: "0 < out b \<longrightarrow> al_call_dec_ref b al \<noteq> None"
    using al_live [OF inv, of b] by (auto simp: al_op_defs)
  from 1 2 3 4 5 show ?thesis by blast
qed

theorem buffer_lifetime_witness:
  "al_reach 64 (the (al_allocate (allocator_new 64)), \<lambda>_. 0) \<and>
   al_bufs (the (al_allocate (allocator_new 64))) 0 \<noteq> None"
proof -
  have s: "al_allocate (allocator_new 64) = Some (the (al_allocate (allocator_new 64)))"
    by (simp add: al_op_defs allocator_new_def)
  have r: "al_reach 64 (the (al_allocate (allocator_new 64)), \<lambda>_. 0)"
    by (rule al_reach_step [OF al_reach_start al_step_allocate [OF s]])
  have "al_buf (the (al_allocate (allocator_new 64))) = Some 0"
    by (simp add: al_op_defs allocator_new_def)
  with r buffer_lifetime [OF r, of 0] show ?thesis by simp
qed

end
