(* ===== verification/Decoder.thy ===== *)
theory Decoder
  imports Encoder Allocator
begin

text \<open>
  The decoders: \<open>src/decoder.hpp\<close> with the state machines of \<open>src/v1_decoder.cpp\<close> and
  \<open>src/v2_decoder.cpp\<close>, and the loop of \<open>stream_engine_t::in_event\<close> that drives them.

  The memory from the address given to the last \<open>next_step\<close> up to \<open>read_pos\<close> is the byte
  list \<open>d_got\<close>: in the header states it is the prefix of \<open>tmpbuf\<close> read so far, in the
  body state the prefix of the message.  Where the message is stored (\<open>storage\<close>) depends
  on its size and on whether it lies completely in the receive buffer.
\<close>

datatype dec_step =
    V2_flags_ready
  | V2_one_byte_size_ready
  | V2_four_byte_size_ready
  | V2_key_size_ready
  | V2_message_ready
  | V1_one_byte_size_ready
  | V1_eight_byte_size_ready
  | V1_flags_ready
  | V1_message_ready

datatype storage = In_vsm | In_lmsg | In_zclmsg

record decoder =
  d_next :: dec_step
  d_to_read :: nat
  d_got :: "byte list"
  d_flags :: byte
  d_msg :: frame
  d_size :: nat
  d_storage :: storage
  d_maxmsgsize :: int
  d_alloc :: allocator
  d_grant :: "nat \<Rightarrow> bool"

datatype dec_rc = Rc_more | Rc_msg | Rc_err errno

definition dec_next_step :: "nat \<Rightarrow> dec_step \<Rightarrow> decoder \<Rightarrow> decoder" where
  "dec_next_step n nxt d = d\<lparr>d_got := [], d_to_read := n, d_next := nxt\<rparr>"

text \<open>
  The constructors.  The base class allocates a buffer; version 1 has one fixed buffer, whose
  size is kept in \<open>al_bufsize\<close>.
\<close>

definition decoder_new :: "proto \<Rightarrow> nat \<Rightarrow> int \<Rightarrow> (nat \<Rightarrow> bool) \<Rightarrow> decoder" where
  "decoder_new p bufsize maxmsgsize grant =
     (let al = (if p = V2 then the (al_allocate (allocator_new bufsize))
                else (allocator_new bufsize)\<lparr>al_bufsize := bufsize\<rparr>)
      in dec_next_step (if p = V2 then 2 else 1)
           (if p = V2 then V2_flags_ready else V1_one_byte_size_ready)
           \<lparr>d_next = V2_flags_ready, d_to_read = 0, d_got = [], d_flags = 0, d_msg = empty_frame,
            d_size = 0, d_storage = In_vsm, d_maxmsgsize = maxmsgsize, d_alloc = al,
            d_grant = grant\<rparr>)"

section \<open>State machine actions of version 2\<close>

definition v2_msg_flags :: "byte \<Rightarrow> byte" where
  "v2_msg_flags b =
     (if b AND v2_more_flag \<noteq> 0 then flag_more else 0) OR
     (if b AND v2_command_flag \<noteq> 0 then flag_command else 0)"

definition v2_flags_ready :: "decoder \<Rightarrow> decoder" where
  "v2_flags_ready d =
     (let b = d_got d ! 0; d1 = d\<lparr>d_flags := v2_msg_flags b\<rparr> in
      if b AND v2_large_flag \<noteq> 0
      then (if b AND v2_key_flag \<noteq> 0 then dec_next_step 4 V2_key_size_ready d1
            else dec_next_step 4 V2_four_byte_size_ready d1)
      else dec_next_step 1 V2_one_byte_size_ready d1)"

text \<open>\<open>init_size\<close> of the message in progress: \<open>None\<close> where the allocation fails.\<close>

definition dec_init_size :: "nat \<Rightarrow> decoder \<Rightarrow> decoder option" where
  "dec_init_size n d =
     (if n \<le> max_vsm_size then Some (d\<lparr>d_msg := empty_frame, d_size := n, d_storage := In_vsm\<rparr>)
      else if (sizeof_content + n) mod 2 ^ 64 > n \<and> d_grant d (sizeof_content + n)
      then Some (d\<lparr>d_msg := empty_frame, d_size := n, d_storage := In_lmsg\<rparr>)
      else None)"

text \<open>
  \<open>size_ready\<close>.  \<open>pos\<close> is the offset of the read position in the receive buffer.  The
  outer option is the failure of an assertion or of the content array.
\<close>

definition v2_size_ready :: "nat \<Rightarrow> nat \<Rightarrow> decoder \<Rightarrow> (dec_rc \<times> decoder) option" where
  "v2_size_ready sz pos d =
     (if d_maxmsgsize d \<ge> 0 \<and> int sz > d_maxmsgsize d then Some (Rc_err EMSGSIZE, d)
      else if sz \<noteq> sz mod 2 ^ 64 then Some (Rc_err EMSGSIZE, d)
      else do {
        r \<leftarrow> (if pos + sz > al_bufsize (d_alloc d) then Some (dec_init_size sz d)
             else if sz < max_vsm_size
             then Some (Some (d\<lparr>d_msg := empty_frame, d_size := sz, d_storage := In_vsm\<rparr>))
             else do {
               al1 \<leftarrow> al_take_content (d_alloc d);
               al2 \<leftarrow> al_inc_ref al1;
               Some (Some (d\<lparr>d_msg := empty_frame, d_size := sz, d_storage := In_zclmsg,
                             d_alloc := al2\<rparr>))
             });
        (case r of
           None \<Rightarrow> Some (Rc_err ENOMEM, d\<lparr>d_msg := empty_frame\<rparr>)
         | Some d1 \<Rightarrow>
             Some (Rc_more, dec_next_step sz V2_message_ready
                     (d1\<lparr>d_msg := f_set_flags (d_flags d) (d_msg d1)\<rparr>)))
      })"

definition v2_one_byte_size_ready :: "nat \<Rightarrow> decoder \<Rightarrow> (dec_rc \<times> decoder) option" where
  "v2_one_byte_size_ready pos d = v2_size_ready (unat (d_got d ! 0)) pos d"

definition v2_key_size_ready :: "nat \<Rightarrow> decoder \<Rightarrow> (dec_rc \<times> decoder) option" where
  "v2_key_size_ready pos d =
     do { nb_key \<leftarrow> get_uint32 (d_got d); v2_size_ready (unat nb_key * 8) pos d }"

definition v2_four_byte_size_ready :: "nat \<Rightarrow> decoder \<Rightarrow> (dec_rc \<times> decoder) option" where
  "v2_four_byte_size_ready pos d =
     do { sz \<leftarrow> get_uint32 (d_got d); v2_size_ready (unat sz) pos d }"

text \<open>The message is complete: its bytes are those that were read into it.\<close>

definition dec_complete :: "decoder \<Rightarrow> decoder" where
  "dec_complete d = d\<lparr>d_msg := (d_msg d)\<lparr>f_data := d_got d\<rparr>\<rparr>"

definition v2_message_done :: "decoder \<Rightarrow> dec_rc \<times> decoder" where
  "v2_message_done d = (Rc_msg, dec_next_step 2 V2_flags_ready (dec_complete d))"

section \<open>State machine actions of version 1\<close>

definition v1_one_byte_size_ready :: "decoder \<Rightarrow> dec_rc \<times> decoder" where
  "v1_one_byte_size_ready d =
     (let b = unat (d_got d ! 0) in
      if b = 0xff then (Rc_more, dec_next_step 8 V1_eight_byte_size_ready d)
      else if b = 0 then (Rc_err EPROTO, d)
      else if d_maxmsgsize d \<ge> 0 \<and> int b - 1 > d_maxmsgsize d then (Rc_err EMSGSIZE, d)
      else (case dec_init_size (b - 1) d of
              None \<Rightarrow> (Rc_err ENOMEM, d\<lparr>d_msg := empty_frame\<rparr>)
            | Some d1 \<Rightarrow> (Rc_more, dec_next_step 1 V1_flags_ready d1)))"

definition v1_eight_byte_size_ready :: "decoder \<Rightarrow> (dec_rc \<times> decoder) option" where
  "v1_eight_byte_size_ready d =
     do {
       payload_length \<leftarrow> get_uint64 (d_got d);
       Some (if payload_length = 0 then (Rc_err EPROTO, d)
             else if d_maxmsgsize d \<ge> 0 \<and> int (unat (payload_length - 1)) > d_maxmsgsize d
             then (Rc_err EMSGSIZE, d)
             else if unat (payload_length - 1) > 2 ^ 64 - 1 then (Rc_err EMSGSIZE, d)
             else (case dec_init_size (unat (payload_length - 1)) d of
                     None \<Rightarrow> (Rc_err ENOMEM, d\<lparr>d_msg := empty_frame\<rparr>)
                   | Some d1 \<Rightarrow> (Rc_more, dec_next_step 1 V1_flags_ready d1)))
     }"

definition v1_flags_ready :: "decoder \<Rightarrow> decoder" where
  "v1_flags_ready d =
     dec_next_step (d_size d) V1_message_ready
       (d\<lparr>d_msg := f_set_flags ((d_got d ! 0) AND flag_more) (d_msg d)\<rparr>)"

definition v1_message_done :: "decoder \<Rightarrow> dec_rc \<times> decoder" where
  "v1_message_done d = (Rc_msg, dec_next_step 1 V1_one_byte_size_ready (dec_complete d))"

section \<open>The base class\<close>

definition dec_action :: "nat \<Rightarrow> decoder \<Rightarrow> (dec_rc \<times> decoder) option" where
  "dec_action pos d =
     (case d_next d of
        V2_flags_ready \<Rightarrow> Some (Rc_more, v2_flags_ready d)
      | V2_one_byte_size_ready \<Rightarrow> v2_one_byte_size_ready pos d
      | V2_four_byte_size_ready \<Rightarrow> v2_four_byte_size_ready pos d
      | V2_key_size_ready \<Rightarrow> v2_key_size_ready pos d
      | V2_message_ready \<Rightarrow> Some (v2_message_done d)
      | V1_one_byte_size_ready \<Rightarrow> Some (v1_one_byte_size_ready d)
      | V1_eight_byte_size_ready \<Rightarrow> v1_eight_byte_size_ready d
      | V1_flags_ready \<Rightarrow> Some (Rc_more, v1_flags_ready d)
      | V1_message_ready \<Rightarrow> Some (v1_message_done d))"

text \<open>The states from which an action may schedule an empty read.\<close>

definition dec_rank :: "dec_step \<Rightarrow> nat" where
  "dec_rank s = (if s = V2_message_ready \<or> s = V1_message_ready then 0 else 1)"

lemma v2_size_ready_next:
  "v2_size_ready n pos d = Some (Rc_more, d') \<Longrightarrow> d_next d' = V2_message_ready"
  by (auto simp: v2_size_ready_def dec_next_step_def split: if_splits bind_splits option.splits)

lemma dec_action_rank:
  assumes "dec_action pos d = Some (Rc_more, d')" "d_to_read d' = 0"
  shows "dec_rank (d_next d') < dec_rank (d_next d)"
  using assms
  by (auto simp: dec_action_def dec_rank_def v2_flags_ready_def dec_next_step_def v2_message_done_def
      v1_message_done_def v1_flags_ready_def v1_one_byte_size_ready_def v1_eight_byte_size_ready_def
      v2_one_byte_size_ready_def v2_four_byte_size_ready_def v2_key_size_ready_def Let_def
      split: dec_step.splits if_splits bind_splits option.splits dest!: v2_size_ready_next)

text \<open>The inner loop: \<open>while (to_read == 0)\<close> run the next action.\<close>

function (sequential) dec_steps :: "nat \<Rightarrow> decoder \<Rightarrow> (dec_rc \<times> decoder) option" where
  "dec_steps pos d =
     (case dec_action pos d of
        Some (Rc_more, d') \<Rightarrow> (if d_to_read d' = 0 then dec_steps pos d' else Some (Rc_more, d'))
      | r \<Rightarrow> r)"
  by pat_completeness auto
termination
  by (relation "measure (\<lambda>(pos, d). dec_rank (d_next d))") (auto intro: dec_action_rank)

declare dec_steps.simps [simp del]

definition dec_take :: "nat \<Rightarrow> byte list \<Rightarrow> decoder \<Rightarrow> decoder" where
  "dec_take n data d = d\<lparr>d_got := d_got d @ take n data, d_to_read := d_to_read d - n\<rparr>"

lemma dec_steps_to_read: "dec_steps pos d = Some (Rc_more, d') \<Longrightarrow> 0 < d_to_read d'"
  by (induction pos d rule: dec_steps.induct)
    (subst (asm) (2) dec_steps.simps, auto split: option.splits prod.splits dec_rc.splits if_splits)

text \<open>The loop over the input when it has to be copied; \<open>pos\<close> is the offset of \<open>data\<close>.\<close>

function (sequential) dec_loop :: "nat \<Rightarrow> byte list \<Rightarrow> decoder \<Rightarrow> (dec_rc \<times> nat \<times> decoder) option" where
  "dec_loop pos data d =
     (if data = [] then Some (Rc_more, pos, d)
      else (let n = min (d_to_read d) (length data); d1 = dec_take n data d in
            if d_to_read d1 = 0
            then (case dec_steps (pos + n) d1 of
                    Some (Rc_more, d2) \<Rightarrow> dec_loop (pos + n) (drop n data) d2
                  | Some (rc, d2) \<Rightarrow> Some (rc, pos + n, d2)
                  | None \<Rightarrow> None)
            else dec_loop (pos + n) (drop n data) d1))"
  by pat_completeness auto
termination
  by (relation "measure (\<lambda>(pos, data, d). 2 * length data + (if d_to_read d = 0 then 1 else 0))")
    (auto simp: dec_take_def min_def dest: dec_steps_to_read split: if_splits)

declare dec_loop.simps [simp del]

text \<open>
  \<open>decode\<close> on input that was read into the receive buffer at offset \<open>pos\<close>.  The result is
  the return code and the number of bytes used.
\<close>

definition decode :: "nat \<Rightarrow> byte list \<Rightarrow> decoder \<Rightarrow> (dec_rc \<times> nat \<times> decoder) option" where
  "decode pos data d =
     map_option (\<lambda>(rc, pos', d'). (rc, pos' - pos, d')) (dec_loop pos data d)"

text \<open>\<open>decode\<close> on input that was read directly into the message (\<open>data_ == read_pos\<close>).\<close>

definition decode_zero_copy :: "nat \<Rightarrow> byte list \<Rightarrow> decoder \<Rightarrow> (dec_rc \<times> nat \<times> decoder) option" where
  "decode_zero_copy pos data d =
     do {
       zmq_assert (length data \<le> d_to_read d);
       (let d1 = dec_take (length data) data d in
        if d_to_read d1 = 0
        then map_option (\<lambda>(rc, d2). (rc, length data, d2)) (dec_steps (pos + length data) d1)
        else Some (Rc_more, length data, d1))
     }"

text \<open>
  \<open>get_buffer\<close>: whether the caller is to read into the message itself, and how many bytes.
  \<open>resize_buffer\<close> records how many bytes were received.
\<close>

definition dec_get_buffer :: "proto \<Rightarrow> decoder \<Rightarrow> (bool \<times> nat \<times> decoder) option" where
  "dec_get_buffer p d =
     do {
       al \<leftarrow> (if p = V2 then al_allocate (d_alloc d) else Some (d_alloc d));
       Some (if d_to_read d \<ge> al_bufsize al then (True, d_to_read d, d\<lparr>d_alloc := al\<rparr>)
             else (False, al_bufsize al, d\<lparr>d_alloc := al\<rparr>))
     }"

definition dec_resize_buffer :: "nat \<Rightarrow> decoder \<Rightarrow> decoder" where
  "dec_resize_buffer n d = d\<lparr>d_alloc := al_resize n (d_alloc d)\<rparr>"

text \<open>
  The raw decoder: every read is a message.  A long one takes over the reference of the decoder to
  the buffer.
\<close>

definition raw_decode :: "byte list \<Rightarrow> allocator \<Rightarrow> (frame \<times> storage \<times> allocator) option" where
  "raw_decode data al =
     (if length data < max_vsm_size then Some (data_frame 0 data, In_vsm, al)
      else do {
        al1 \<leftarrow> al_take_content al;
        Some (data_frame 0 data, In_zclmsg, al_release al1)
      })"

section \<open>The receive loop of the engine\<close>

lemma dec_steps_msg_to_read: "dec_steps pos d = Some (Rc_msg, d') \<Longrightarrow> 0 < d_to_read d'"
proof (induction pos d rule: dec_steps.induct)
  case (1 pos d)
  have "dec_action pos d = Some (Rc_msg, d') \<Longrightarrow> 0 < d_to_read d'"
    by (auto simp: dec_action_def v2_message_done_def v1_message_done_def dec_next_step_def
        v1_one_byte_size_ready_def v1_eight_byte_size_ready_def v2_size_ready_def Let_def
        v2_one_byte_size_ready_def v2_four_byte_size_ready_def v2_key_size_ready_def
        split: dec_step.splits if_splits bind_splits option.splits)
  with 1 show ?case
    by (auto simp: dec_steps.simps [of pos d] split: option.splits prod.splits dec_rc.splits if_splits)
qed

lemma dec_loop_Nil [simp]: "dec_loop pos [] d = Some (Rc_more, pos, d)"
  by (simp add: dec_loop.simps)

lemma dec_take_to_read [simp]: "d_to_read (dec_take n data d) = d_to_read d - n"
  by (simp add: dec_take_def)

lemma dec_loop_short:
  assumes "data \<noteq> []" "length data < d_to_read d"
  shows "dec_loop pos data d = Some (Rc_more, pos + length data, dec_take (length data) data d)"
  using assms by (subst dec_loop.simps) (simp add: Let_def)

lemma dec_loop_step:
  assumes "data \<noteq> []" "d_to_read d \<le> length data"
  shows "dec_loop pos data d =
    (case dec_steps (pos + d_to_read d) (dec_take (d_to_read d) data d) of
       Some (Rc_more, d2) \<Rightarrow> dec_loop (pos + d_to_read d) (drop (d_to_read d) data) d2
     | Some (rc, d2) \<Rightarrow> Some (rc, pos + d_to_read d, d2)
     | None \<Rightarrow> None)"
  using assms by (subst dec_loop.simps) (simp add: Let_def min_absorb1)

lemma dec_loop_progress:
  assumes "dec_loop pos data d = Some (rc, pos', d')"
  shows "pos \<le> pos' \<and> pos' \<le> pos + length data \<and> (rc = Rc_more \<longrightarrow> pos' = pos + length data) \<and>
    (rc = Rc_msg \<longrightarrow> 0 < d_to_read d') \<and> (data \<noteq> [] \<and> 0 < d_to_read d \<longrightarrow> pos < pos')"
  using assms
proof (induction "2 * length data + (if d_to_read d = 0 then 1 else 0)" arbitrary: pos data d
    rule: less_induct)
  case less
  consider "data = []" | "data \<noteq> []" "length data < d_to_read d" | "data \<noteq> []" "d_to_read d \<le> length data"
    by linarith
  then show ?case
  proof cases
    case 1 with less.prems show ?thesis by simp
  next
    case 2 with less.prems show ?thesis by (auto simp: dec_loop_short)
  next
    case 3
    let ?n = "d_to_read d"
    obtain rc1 d2 where st: "dec_steps (pos + ?n) (dec_take ?n data d) = Some (rc1, d2)"
      using less.prems 3 by (cases "dec_steps (pos + ?n) (dec_take ?n data d)") (auto simp: dec_loop_step)
    show ?thesis
    proof (cases rc1)
      case Rc_more
      have l: "dec_loop (pos + ?n) (drop ?n data) d2 = Some (rc, pos', d')"
        using less.prems 3 st Rc_more by (simp add: dec_loop_step)
      have t: "0 < d_to_read d2" using dec_steps_to_read st Rc_more by simp
      have "length (drop ?n data) < length data \<or> ?n = 0" using 3 by auto
      then have "2 * length (drop ?n data) + (if d_to_read d2 = 0 then 1 else 0)
          < 2 * length data + (if ?n = 0 then 1 else 0)" using t by auto
      from less.hyps [OF this l] 3 t show ?thesis by auto
    next
      case Rc_msg
      with less.prems 3 st dec_steps_msg_to_read show ?thesis by (auto simp: dec_loop_step)
    next
      case (Rc_err x)
      with less.prems 3 st show ?thesis by (auto simp: dec_loop_step)
    qed
  qed
qed

lemma decode_progress:
  assumes "decode pos data d = Some (rc, n, d')"
  shows "dec_loop pos data d = Some (rc, pos + n, d') \<and> n \<le> length data \<and>
    (rc = Rc_more \<longrightarrow> n = length data) \<and> (rc = Rc_msg \<longrightarrow> 0 < d_to_read d') \<and>
    (data \<noteq> [] \<and> 0 < d_to_read d \<longrightarrow> 0 < n)"
proof -
  obtain pos' where l: "dec_loop pos data d = Some (rc, pos', d')" "n = pos' - pos"
    using assms by (auto simp: decode_def)
  from dec_loop_progress [OF l(1)] l show ?thesis by auto
qed

text \<open>
  The loop of \<open>in_event\<close> over the bytes at \<open>inpos\<close>.  \<open>process\<close> stands for the handler
  \<open>process_msg\<close> on the state of the session.  The result is the last return code
  (\<open>Inl\<close> for -1 with its \<open>errno\<close>), the unprocessed input with its offset, the decoder
  and the session.
\<close>

function (sequential) in_loop ::
  "(frame \<Rightarrow> 's \<Rightarrow> unit result \<times> 's) \<Rightarrow> nat \<Rightarrow> byte list \<Rightarrow> decoder \<Rightarrow> 's \<Rightarrow>
   (unit result \<times> nat \<times> byte list \<times> decoder \<times> 's) option" where
  "in_loop process inpos indata d s =
     (if indata = [] then Some (Inr (), inpos, indata, d, s)
      else (case decode inpos indata d of
              None \<Rightarrow> None
            | Some (Rc_more, n, d') \<Rightarrow> Some (Inr (), inpos + n, drop n indata, d', s)
            | Some (Rc_err e, n, d') \<Rightarrow> Some (Inl e, inpos + n, drop n indata, d', s)
            | Some (Rc_msg, n, d') \<Rightarrow>
                (case process (d_msg d') s of
                   (Inl e, s') \<Rightarrow> Some (Inl e, inpos + n, drop n indata, d', s')
                 | (Inr _, s') \<Rightarrow> in_loop process (inpos + n) (drop n indata) d' s')))"
  by pat_completeness auto
termination
  by (relation "measure (\<lambda>(process, inpos, indata, d, s).
        2 * length indata + (if d_to_read d = 0 then 1 else 0))")
    (auto dest!: decode_progress)

declare in_loop.simps [simp del]

lemma in_loop_Nil [simp]: "in_loop process pos [] d s = Some (Inr (), pos, [], d, s)"
  by (simp add: in_loop.simps)

end
