(* ===== verification/Framing.thy ===== *)
theory Framing
  imports Decoder
begin

text \<open>
  Framing of messages on a byte stream: the receiving side of \<open>stream_engine_t\<close> driven by
  arbitrary reads, and the theorem that it reconstructs the messages that were encoded, however
  the stream is cut into pieces.  The locale \<open>framing\<close> states what a decoder promises to the
  engine; versions 1 and 2 of the protocol are its two instances.
\<close>

section \<open>Reading from the connection\<close>

text \<open>
  One \<open>in_event\<close> with no input left over: at most \<open>n\<close> bytes of the stream \<open>avail\<close> have
  arrived, and \<open>tcp_read\<close> returns as many of them as fit.  The result also has the rest of
  the stream.
\<close>

definition in_read ::
  "(frame \<Rightarrow> 's \<Rightarrow> unit result \<times> 's) \<Rightarrow> proto \<Rightarrow> nat \<Rightarrow> byte list \<Rightarrow> decoder \<Rightarrow> 's \<Rightarrow>
   (byte list \<times> unit result \<times> nat \<times> byte list \<times> decoder \<times> 's) option" where
  "in_read process p n avail d s =
     do {
       (zc, bufsize, d1) \<leftarrow> dec_get_buffer p d;
       (let k = min n bufsize; indata = take k avail; d2 = dec_resize_buffer (length indata) d1 in
        if indata = [] then Some (avail, Inr (), 0, [], d1, s)
        else map_option (Pair (drop k avail))
          (if zc
           then (case decode_zero_copy 0 indata d2 of
                   None \<Rightarrow> None
                 | Some (Rc_more, m, d') \<Rightarrow> Some (Inr (), m, drop m indata, d', s)
                 | Some (Rc_err e, m, d') \<Rightarrow> Some (Inl e, m, drop m indata, d', s)
                 | Some (Rc_msg, m, d') \<Rightarrow>
                     (case process (d_msg d') s of (r, s') \<Rightarrow> Some (r, m, drop m indata, d', s')))
           else in_loop process 0 indata d2 s))
     }"

text \<open>A session that accepts every message and keeps them in order.\<close>

definition log_msg :: "frame \<Rightarrow> frame list \<Rightarrow> unit result \<times> frame list" where
  "log_msg f s = (Inr (), s @ [f])"

text \<open>A series of such events, up to the first error.\<close>

fun receive :: "proto \<Rightarrow> nat list \<Rightarrow> byte list \<Rightarrow> decoder \<Rightarrow> frame list \<Rightarrow>
    (unit result \<times> byte list \<times> decoder \<times> frame list) option" where
  "receive p [] avail d s = Some (Inr (), avail, d, s)"
| "receive p (n # ns) avail d s =
     (case in_read log_msg p n avail d s of
        None \<Rightarrow> None
      | Some (avail', Inl e, _, _, d', s') \<Rightarrow> Some (Inl e, avail', d', s')
      | Some (avail', Inr _, _, _, d', s') \<Rightarrow> receive p ns avail' d' s')"

section \<open>What a decoder promises\<close>

locale framing =
  fixes p :: proto
    and ok :: "frame \<Rightarrow> bool"
    and wire_of :: "frame \<Rightarrow> byte list"
    and received :: "frame \<Rightarrow> frame"
    and idle :: "decoder \<Rightarrow> bool"
    and expects :: "frame \<Rightarrow> decoder \<Rightarrow> byte list \<Rightarrow> bool"
    and room :: "nat \<Rightarrow> decoder \<Rightarrow> bool"
  assumes start: "idle d \<Longrightarrow> ok f \<Longrightarrow> expects f d (wire_of f)"
    and need: "expects f d rest \<Longrightarrow> 0 < d_to_read d \<and> d_to_read d \<le> length rest"
    and part: "expects f d rest \<Longrightarrow> n < d_to_read d \<Longrightarrow> expects f (dec_take n rest d) (drop n rest)"
    and whole: "expects f d rest \<Longrightarrow> room pos d \<Longrightarrow> n = d_to_read d \<Longrightarrow>
      \<exists>rc d'. dec_steps (pos + n) (dec_take n rest d) = Some (rc, d') \<and> room (pos + n) d' \<and>
        (rc = Rc_more \<and> expects f d' (drop n rest) \<or>
         rc = Rc_msg \<and> drop n rest = [] \<and> idle d' \<and> d_msg d' = received f)"
    and room_take: "room pos d \<Longrightarrow> n < d_to_read d \<Longrightarrow> room (pos + n) (dec_take n data d)"
    and buffer: "room pos d \<Longrightarrow> \<exists>zc n d'. dec_get_buffer p d = Some (zc, n, d') \<and> 0 < n \<and>
        (zc \<longrightarrow> n = d_to_read d) \<and> room 0 d'"
    and resize: "room 0 d \<Longrightarrow> 0 < m \<Longrightarrow> dec_get_buffer p d0 = Some (zc, n, d) \<Longrightarrow> m \<le> n \<Longrightarrow>
        room 0 (dec_resize_buffer m d)"
    and stable: "dec_get_buffer p d = Some (zc, n, d') \<Longrightarrow>
        (expects f d rest \<longrightarrow> expects f d' rest \<and> expects f (dec_resize_buffer m d') rest) \<and>
        (idle d \<longrightarrow> idle d')"
begin

definition tracks :: "frame list \<Rightarrow> decoder \<Rightarrow> byte list \<Rightarrow> bool" where
  "tracks fs d stream =
     (case fs of
        [] \<Rightarrow> idle d \<and> stream = []
      | f # fs' \<Rightarrow> list_all ok fs' \<and>
          (\<exists>rest. expects f d rest \<and> stream = rest @ concat (map wire_of fs')))"

lemma tracks_start: "idle d \<Longrightarrow> list_all ok fs \<Longrightarrow> tracks fs d (concat (map wire_of fs))"
  by (cases fs) (auto simp: tracks_def intro!: start)

lemma tracks_end: "tracks fs d [] \<Longrightarrow> fs = []"
  by (cases fs) (auto simp: tracks_def dest: need)

text \<open>One call of the copying loop.\<close>

lemma dec_loop_tracks:
  assumes "tracks (f # fs) d (data @ later)" "room pos d" "data \<noteq> []"
  shows "\<exists>rc n d'. dec_loop pos data d = Some (rc, pos + n, d') \<and> n \<le> length data \<and>
    room (pos + n) d' \<and>
    (rc = Rc_more \<and> n = length data \<and> tracks (f # fs) d' later \<or>
     rc = Rc_msg \<and> 0 < n \<and> d_msg d' = received f \<and> tracks fs d' (drop n data @ later))"
  using assms
proof (induction "length data" arbitrary: data d pos rule: less_induct)
  case less
  from less.prems(1) obtain rest where r: "expects f d rest" "list_all ok fs"
    "data @ later = rest @ concat (map wire_of fs)" by (auto simp: tracks_def)
  let ?n = "d_to_read d"
  have n: "0 < ?n" "?n \<le> length rest" using need [OF r(1)] by auto
  show ?case
  proof (cases "length data < ?n")
    case True
    have t: "take (length data) rest = data" "drop (length data) rest @ concat (map wire_of fs) = later"
      using append_eq_split [OF r(3), of "length data"] True n by auto
    have d: "dec_take (length data) rest d = dec_take (length data) data d"
      using t by (simp add: dec_take_def)
    show ?thesis
      using part [OF r(1) True] t r(2) room_take [OF less.prems(2) True] True less.prems(3)
      by (auto simp: dec_loop_short tracks_def d)
  next
    case False
    then have pre: "take ?n rest = take ?n data"
      "drop ?n rest @ concat (map wire_of fs) = drop ?n data @ later"
      using append_eq_split [OF r(3), of ?n] n by auto
    have d: "dec_take ?n rest d = dec_take ?n data d" using pre by (simp add: dec_take_def)
    obtain rc d2 where st: "dec_steps (pos + ?n) (dec_take ?n data d) = Some (rc, d2)" "room (pos + ?n) d2"
      "rc = Rc_more \<and> expects f d2 (drop ?n rest) \<or>
       rc = Rc_msg \<and> drop ?n rest = [] \<and> idle d2 \<and> d_msg d2 = received f"
      using whole [OF r(1) less.prems(2) refl] by (auto simp: d)
    from st(3) show ?thesis
    proof (elim disjE conjE)
      assume m: "rc = Rc_msg" "drop ?n rest = []" "idle d2" "d_msg d2 = received f"
      then have "tracks fs d2 (drop ?n data @ later)" using pre(2) r(2) tracks_start by fastforce
      then show ?thesis using False m st n less.prems(3) by (auto simp: dec_loop_step)
    next
      assume m: "rc = Rc_more" "expects f d2 (drop ?n rest)"
      then have tr: "tracks (f # fs) d2 (drop ?n data @ later)" using pre(2) r(2) by (auto simp: tracks_def)
      show ?thesis
      proof (cases "drop ?n data = []")
        case True
        then show ?thesis using False m st n tr less.prems(3) by (auto simp: dec_loop_step)
      next
        case nonempty: False
        have "length (drop ?n data) < length data" using n nonempty by auto
        from less.hyps [OF this tr st(2) nonempty] obtain rc' k d' where
          k: "dec_loop (pos + ?n) (drop ?n data) d2 = Some (rc', pos + ?n + k, d')"
            "k \<le> length (drop ?n data)" "room (pos + ?n + k) d'"
            "rc' = Rc_more \<and> k = length (drop ?n data) \<and> tracks (f # fs) d' later \<or>
             rc' = Rc_msg \<and> 0 < k \<and> d_msg d' = received f \<and> tracks fs d' (drop k (drop ?n data) @ later)"
          by blast
        have "dec_loop pos data d = Some (rc', pos + (?n + k), d')"
          using False m st k(1) less.prems(3) by (simp add: dec_loop_step add.assoc)
        then show ?thesis using k(2-4) False
          by (intro exI [of _ rc'] exI [of _ "?n + k"] exI [of _ d'])
            (auto simp: add.assoc add.commute [of k])
      qed
    qed
  qed
qed

text \<open>The loop of the engine over the bytes of one read.\<close>

lemma in_loop_tracks:
  assumes "tracks fs d (data @ later)" "room pos d"
  shows "\<exists>fs1 fs2 d'. in_loop log_msg pos data d s =
      Some (Inr (), pos + length data, [], d', s @ map received fs1) \<and>
    fs = fs1 @ fs2 \<and> tracks fs2 d' later \<and> room (pos + length data) d'"
  using assms
proof (induction "length data" arbitrary: data d pos s fs rule: less_induct)
  case less
  show ?case
  proof (cases "data = []")
    case True
    with less.prems show ?thesis by (auto intro!: exI [of _ d])
  next
    case False
    then obtain f fs' where fs: "fs = f # fs'" using less.prems(1) by (cases fs) (auto simp: tracks_def)
    from dec_loop_tracks [OF less.prems(1) [unfolded fs] less.prems(2) False] obtain rc n d' where
      l: "dec_loop pos data d = Some (rc, pos + n, d')" "n \<le> length data" "room (pos + n) d'"
      "rc = Rc_more \<and> n = length data \<and> tracks (f # fs') d' later \<or>
       rc = Rc_msg \<and> 0 < n \<and> d_msg d' = received f \<and> tracks fs' d' (drop n data @ later)" by blast
    from l(4) show ?thesis
    proof (elim disjE conjE)
      assume "rc = Rc_more" "n = length data" "tracks (f # fs') d' later"
      with l fs False show ?thesis by (auto simp: in_loop.simps [of log_msg pos data] decode_def)
    next
      assume m: "rc = Rc_msg" "0 < n" "d_msg d' = received f" "tracks fs' d' (drop n data @ later)"
      have "length (drop n data) < length data" using m False by simp
      from less.hyps [OF this m(4) l(3), of "s @ [received f]"] obtain fs1 fs2 d'' where
        r: "in_loop log_msg (pos + n) (drop n data) d' (s @ [received f]) =
            Some (Inr (), pos + n + length (drop n data), [], d'', (s @ [received f]) @ map received fs1)"
          "fs' = fs1 @ fs2" "tracks fs2 d'' later" "room (pos + n + length (drop n data)) d''" by blast
      then have "in_loop log_msg pos data d s =
          Some (Inr (), pos + length data, [], d'', s @ map received (f # fs1))"
        using l(1,2) m False by (simp add: in_loop.simps [of log_msg pos data] decode_def log_msg_def)
      then show ?thesis using r(2-4) fs l(2)
        by (intro exI [of _ "f # fs1"] exI [of _ fs2] exI [of _ d'']) simp
    qed
  qed
qed

text \<open>The direct read into a large message.\<close>

lemma decode_zero_copy_tracks:
  assumes "tracks (f # fs) d (data @ later)" "room 0 d" "length data \<le> d_to_read d" "data \<noteq> []"
  shows "\<exists>rc d'. decode_zero_copy 0 data d = Some (rc, length data, d') \<and> room (length data) d' \<and>
    (rc = Rc_more \<and> tracks (f # fs) d' later \<or>
     rc = Rc_msg \<and> d_msg d' = received f \<and> tracks fs d' later)"
proof -
  from assms(1) obtain rest where r: "expects f d rest" "list_all ok fs"
    "data @ later = rest @ concat (map wire_of fs)" by (auto simp: tracks_def)
  let ?n = "length data"
  have "?n \<le> length rest" using need [OF r(1)] assms(3) by linarith
  then have t: "take ?n rest = data" "drop ?n rest @ concat (map wire_of fs) = later"
    using append_eq_split [OF r(3), of ?n] by auto
  have d: "dec_take ?n rest d = dec_take ?n data d" using t by (simp add: dec_take_def)
  show ?thesis
  proof (cases "?n < d_to_read d")
    case True
    then show ?thesis
      using part [OF r(1) True] t r(2) room_take [OF assms(2) True, of data]
      by (auto simp: decode_zero_copy_def tracks_def d Let_def)
  next
    case False
    then have n: "?n = d_to_read d" using assms(3) by simp
    obtain rc d2 where st: "dec_steps ?n (dec_take ?n data d) = Some (rc, d2)" "room ?n d2"
      "rc = Rc_more \<and> expects f d2 (drop ?n rest) \<or>
       rc = Rc_msg \<and> drop ?n rest = [] \<and> idle d2 \<and> d_msg d2 = received f"
      using whole [OF r(1) assms(2) n] d by auto
    have "rc = Rc_more \<and> tracks (f # fs) d2 later \<or>
        rc = Rc_msg \<and> d_msg d2 = received f \<and> tracks fs d2 later"
    proof (cases "rc = Rc_more")
      case True
      with st(3) t(2) r(2) show ?thesis by (auto simp: tracks_def)
    next
      case False
      with st(3) t(2) r(2) tracks_start [of d2 fs] show ?thesis by auto
    qed
    then show ?thesis using st(1,2) n by (auto simp: decode_zero_copy_def Let_def)
  qed
qed

text \<open>One event.\<close>

lemma in_read_tracks:
  assumes "tracks fs d avail" "room pos d"
  shows "\<exists>k pos' fs1 fs2 d'. in_read log_msg p n avail d s =
      Some (drop k avail, Inr (), pos', [], d', s @ map received fs1) \<and>
    fs = fs1 @ fs2 \<and> tracks fs2 d' (drop k avail) \<and> room pos' d' \<and>
    (0 < n \<and> avail \<noteq> [] \<longrightarrow> 0 < k)"
proof -
  obtain zc bs d1 where b: "dec_get_buffer p d = Some (zc, bs, d1)" "0 < bs" "zc \<longrightarrow> bs = d_to_read d" "room 0 d1"
    using buffer [OF assms(2)] by blast
  let ?k = "min n bs"
  let ?data = "take ?k avail"
  let ?d2 = "dec_resize_buffer (length ?data) d1"
  have tr: "tracks fs d1 avail" "?data \<noteq> [] \<Longrightarrow> tracks fs ?d2 avail"
    using assms(1) stable [OF b(1)] by (cases fs; fastforce simp: tracks_def)+
  show ?thesis
  proof (cases "?data = []")
    case True
    then show ?thesis using b tr(1)
      by (intro exI [of _ 0] exI [of _ "0::nat"] exI [of _ "[]"] exI [of _ fs] exI [of _ d1])
        (auto simp: in_read_def)
  next
    case False
    have room2: "room 0 ?d2" using False b(2) by (intro resize [OF b(4) _ b(1)]) auto
    have tr2: "tracks fs ?d2 (?data @ drop ?k avail)" using tr(2) False by simp
    have k: "0 < n \<and> avail \<noteq> [] \<longrightarrow> 0 < ?k" using b(2) by simp
    show ?thesis
    proof (cases zc)
      case False
      with in_loop_tracks [OF tr2 room2, of s] obtain fs1 fs2 d' where
        "in_loop log_msg 0 ?data ?d2 s = Some (Inr (), length ?data, [], d', s @ map received fs1)"
        "fs = fs1 @ fs2" "tracks fs2 d' (drop ?k avail)" "room (length ?data) d'" by auto
      moreover from this(1) have "in_read log_msg p n avail d s =
          Some (drop ?k avail, Inr (), length ?data, [], d', s @ map received fs1)"
        using False b \<open>?data \<noteq> []\<close> by (auto simp: in_read_def Let_def)
      ultimately show ?thesis using k by blast
    next
      case True
      obtain f fs' where fs: "fs = f # fs'" using tr2 \<open>?data \<noteq> []\<close> by (cases fs) (auto simp: tracks_def)
      have "d_to_read ?d2 = d_to_read d"
        using b(1) by (auto simp: dec_get_buffer_def dec_resize_buffer_def split: bind_splits if_splits)
      then have "length ?data \<le> d_to_read ?d2" using b(3) True by simp
      from decode_zero_copy_tracks [OF tr2 [unfolded fs] room2 this \<open>?data \<noteq> []\<close>] obtain rc d' where
        z: "decode_zero_copy 0 ?data ?d2 = Some (rc, length ?data, d')" "room (length ?data) d'"
        "rc = Rc_more \<and> tracks (f # fs') d' (drop ?k avail) \<or>
         rc = Rc_msg \<and> d_msg d' = received f \<and> tracks fs' d' (drop ?k avail)" by blast
      define fs1 where "fs1 = (if rc = Rc_more then [] else [f])"
      define fs2 where "fs2 = (if rc = Rc_more then fs else fs')"
      have "in_read log_msg p n avail d s =
          Some (drop ?k avail, Inr (), length ?data, [], d', s @ map received fs1)"
        using z(1,3) True b \<open>?data \<noteq> []\<close> by (auto simp: in_read_def Let_def fs1_def log_msg_def)
      moreover have "fs = fs1 @ fs2" "tracks fs2 d' (drop ?k avail)"
        using z(3) fs by (auto simp: fs1_def fs2_def)
      ultimately show ?thesis using k z(2) by blast
    qed
  qed
qed

text \<open>Any series of events, and enough of them.\<close>

lemma receive_tracks:
  assumes "tracks fs d avail" "room pos d"
  shows "\<exists>k fs1 fs2 d'. receive p ns avail d s = Some (Inr (), drop k avail, d', s @ map received fs1) \<and>
    fs = fs1 @ fs2 \<and> tracks fs2 d' (drop k avail) \<and>
    (list_all (\<lambda>n. 0 < n) ns \<longrightarrow> min (length ns) (length avail) \<le> k)"
  using assms
proof (induction ns arbitrary: fs d avail pos s)
  case Nil
  then show ?case by (intro exI [of _ 0] exI [of _ "[]"] exI [of _ fs]) auto
next
  case (Cons n ns)
  obtain k pos' fs1 fs2 d' where r: "in_read log_msg p n avail d s =
      Some (drop k avail, Inr (), pos', [], d', s @ map received fs1)"
    "fs = fs1 @ fs2" "tracks fs2 d' (drop k avail)" "room pos' d'" "0 < n \<and> avail \<noteq> [] \<longrightarrow> 0 < k"
    using in_read_tracks [OF Cons.prems, of n s] by blast
  obtain k' fs1' fs2' d'' where r': "receive p ns (drop k avail) d' (s @ map received fs1) =
      Some (Inr (), drop k' (drop k avail), d'', (s @ map received fs1) @ map received fs1')"
    "fs2 = fs1' @ fs2'" "tracks fs2' d'' (drop k' (drop k avail))"
    "list_all (\<lambda>n. 0 < n) ns \<longrightarrow> min (length ns) (length (drop k avail)) \<le> k'"
    using Cons.IH [OF r(3,4), of "s @ map received fs1"] by blast
  show ?case using r r'
    by (intro exI [of _ "k + k'"] exI [of _ "fs1 @ fs1'"] exI [of _ fs2'] exI [of _ d''])
      (auto simp: add.commute)
qed

lemma receive_all:
  assumes "idle d" "room pos d" "list_all ok fs" "list_all (\<lambda>n. 0 < n) ns"
    and "length (concat (map wire_of fs)) \<le> length ns"
  shows "\<exists>d'. receive p ns (concat (map wire_of fs)) d s = Some (Inr (), [], d', s @ map received fs)"
proof -
  obtain k fs1 fs2 d' where r: "receive p ns (concat (map wire_of fs)) d s =
      Some (Inr (), drop k (concat (map wire_of fs)), d', s @ map received fs1)"
    "fs = fs1 @ fs2" "tracks fs2 d' (drop k (concat (map wire_of fs)))"
    "min (length ns) (length (concat (map wire_of fs))) \<le> k"
    using receive_tracks [OF tracks_start [OF assms(1,3)] assms(2), of ns s] assms(4) by blast
  have "drop k (concat (map wire_of fs)) = []" using r(4) assms(5) by simp
  then show ?thesis using r(1,2) tracks_end [of fs2 d'] r(3) by auto
qed

end

section \<open>Version 2\<close>

text \<open>
  The messages that version 2 carries: the size field has 32 bits, and a message marked
  \<open>netml_key\<close> is a sequence of 8-byte keys.  Of the flags only \<open>more\<close> and \<open>command\<close>
  arrive.
\<close>

definition v2_ok :: "int \<Rightarrow> frame \<Rightarrow> bool" where
  "v2_ok mx f \<longleftrightarrow> (mx < 0 \<or> int (length (f_data f)) \<le> mx) \<and>
     (if has_flag flag_netml_key f then 8 dvd length (f_data f) \<and> length (f_data f) div 8 < 2 ^ 32
      else length (f_data f) < 2 ^ 32)"

definition v2_received :: "frame \<Rightarrow> frame" where
  "v2_received f = data_frame (f_flags f AND (flag_more OR flag_command)) (f_data f)"

definition v2_expects :: "int \<Rightarrow> byte \<Rightarrow> frame \<Rightarrow> decoder \<Rightarrow> byte list \<Rightarrow> bool" where
  "v2_expects mx j f d rest \<longleftrightarrow>
     v2_ok mx f \<and> 0 < d_to_read d \<and>
     (case d_next d of
        V2_flags_ready \<Rightarrow> length (d_got d) + d_to_read d = 2 \<and> d_got d @ rest = wire V2 j f
      | V2_key_size_ready \<Rightarrow> has_flag flag_netml_key f \<and> length (d_got d) + d_to_read d = 4 \<and>
          d_got d @ rest = put_uint32 (v2_size_field f) @ f_data f \<and> d_flags d = f_flags (v2_received f)
      | V2_four_byte_size_ready \<Rightarrow> \<not> has_flag flag_netml_key f \<and> length (d_got d) + d_to_read d = 4 \<and>
          d_got d @ rest = put_uint32 (v2_size_field f) @ f_data f \<and> d_flags d = f_flags (v2_received f)
      | V2_message_ready \<Rightarrow> length (d_got d) + d_to_read d = length (f_data f) \<and>
          d_got d @ rest = f_data f \<and> d_msg d = (v2_received f)\<lparr>f_data := []\<rparr>
      | _ \<Rightarrow> False)"

definition v2_idle :: "decoder \<Rightarrow> bool" where
  "v2_idle d \<longleftrightarrow> d_next d = V2_flags_ready \<and> d_got d = [] \<and> d_to_read d = 2"

text \<open>
  The receive buffer is live and its array of content blocks has one block left for each
  \<open>max_vsm_size\<close> bytes that are still to come.  The recorded size of the buffer is larger
  than the buffer only after a direct read into a message, and then no part of the input lies
  before the recorded end.
\<close>

definition dec_ahead :: "nat \<Rightarrow> decoder \<Rightarrow> nat" where
  "dec_ahead pos d = pos + (if d_next d = V2_message_ready then d_to_read d else 0)"

definition v2_buf :: "nat \<Rightarrow> decoder \<Rightarrow> bool" where
  "v2_buf pos d \<longleftrightarrow>
     (\<exists>b v. al_buf (d_alloc d) = Some b \<and> al_bufs (d_alloc d) b = Some v) \<and>
     4 < al_max_size (d_alloc d) \<and> (d_next d \<noteq> V2_message_ready \<longrightarrow> d_to_read d \<le> 4) \<and>
     (al_bufsize (d_alloc d) \<le> al_max_size (d_alloc d) \<or> al_bufsize (d_alloc d) \<le> dec_ahead pos d) \<and>
     al_max_size (d_alloc d) \<le> max_vsm_size * al_max_counters (d_alloc d) \<and>
     max_vsm_size * al_content (d_alloc d) \<le> dec_ahead pos d"

definition v2_room :: "int \<Rightarrow> nat \<Rightarrow> decoder \<Rightarrow> bool" where
  "v2_room mx pos d \<longleftrightarrow> d_grant d = (\<lambda>_. True) \<and> d_maxmsgsize d = mx \<and> v2_buf pos d"

lemma flag_bits:
  "(w :: byte) AND 1 \<noteq> 0 \<longleftrightarrow> bit w 0" "w AND 2 \<noteq> 0 \<longleftrightarrow> bit w 1" "w AND 4 \<noteq> 0 \<longleftrightarrow> bit w 2"
  "w AND 8 \<noteq> 0 \<longleftrightarrow> bit w 3" "w AND 16 \<noteq> 0 \<longleftrightarrow> bit w 4"
  using and_exp_eq_0_iff_not_bit [of w 0] and_exp_eq_0_iff_not_bit [of w 1]
    and_exp_eq_0_iff_not_bit [of w 2] and_exp_eq_0_iff_not_bit [of w 3] and_exp_eq_0_iff_not_bit [of w 4]
  by simp_all

lemma v2_flags_roundtrip:
  "v2_msg_flags (v2_protocol_flags f) = f_flags (v2_received f)"
  "v2_protocol_flags f AND v2_large_flag \<noteq> 0"
  "v2_protocol_flags f AND v2_key_flag \<noteq> 0 \<longleftrightarrow> has_flag flag_netml_key f"
proof -
  have b2: "bit (2 :: int) n \<longleftrightarrow> n = 1" for n
    using bit_exp_iff [where 'a = int, of 1 n] by auto
  have b3: "bit (3 :: int) n \<longleftrightarrow> n = 0 \<or> n = 1" for n
    using bit_or_iff [of "1 :: int" 2 n] b2 by (simp add: bit_1_iff)
  have m: "f_flags f AND 3 = (if bit (f_flags f) 0 then 1 else 0) OR (if bit (f_flags f) 1 then 2 else 0)"
    by (rule bit_eqI) (auto simp: b3 b2 bit_and_iff bit_or_iff bit_1_iff intro!: gr0I)
  show "v2_msg_flags (v2_protocol_flags f) = f_flags (v2_received f)"
    using m by (simp add: v2_msg_flags_def v2_protocol_flags_def v2_flag_defs v2_received_def data_frame_def
        has_flag_def flag_defs flag_bits)
  show "v2_protocol_flags f AND v2_large_flag \<noteq> 0"
    "v2_protocol_flags f AND v2_key_flag \<noteq> 0 \<longleftrightarrow> has_flag flag_netml_key f"
    by (simp_all add: v2_protocol_flags_def v2_flag_defs has_flag_def flag_defs flag_bits)
qed

lemmas v2_expects_simps = v2_expects_def dec_take_def dec_next_step_def

lemma v2_start: "v2_idle d \<Longrightarrow> v2_ok mx f \<Longrightarrow> v2_expects mx j f d (wire V2 j f)"
  by (simp add: v2_expects_def v2_idle_def)

lemma v2_need: "v2_expects mx j f d rest \<Longrightarrow> 0 < d_to_read d \<and> d_to_read d \<le> length rest"
  by (auto simp: v2_expects_def wire_def wire_header_def put_uint32_def split: dec_step.splits
      dest!: arg_cong [where f = length])

lemma v2_part:
  assumes "v2_expects mx j f d rest" "n < d_to_read d"
  shows "v2_expects mx j f (dec_take n rest d) (drop n rest)"
  using assms v2_need [OF assms(1)] by (auto simp: v2_expects_simps split: dec_step.splits)

lemma v2_room_take: "v2_room mx pos d \<Longrightarrow> n \<le> d_to_read d \<Longrightarrow> v2_room mx (pos + n) (dec_take n data d)"
  by (auto simp: v2_room_def v2_buf_def dec_ahead_def dec_take_def)

text \<open>There is a content block for every body that lies in the buffer.\<close>

lemma v2_content_block:
  assumes "v2_buf pos d" "d_next d \<noteq> V2_message_ready" "pos + n \<le> al_bufsize (d_alloc d)" "max_vsm_size \<le> n"
  shows "al_content (d_alloc d) < al_max_counters (d_alloc d)"
proof -
  have "max_vsm_size * Suc (al_content (d_alloc d)) \<le> max_vsm_size * al_max_counters (d_alloc d)"
    using assms by (auto simp: v2_buf_def dec_ahead_def max_vsm_size_def)
  then show ?thesis by (simp add: max_vsm_size_def)
qed

text \<open>The size check passes, and storage is found for the body.\<close>

lemma v2_size_ready_ok:
  assumes "v2_ok mx f" "v2_room mx pos d" "d_next d \<noteq> V2_message_ready"
  shows "\<exists>d'. v2_size_ready (length (f_data f)) pos d = Some (Rc_more, d') \<and>
    d_next d' = V2_message_ready \<and> d_to_read d' = length (f_data f) \<and> d_got d' = [] \<and>
    d_msg d' = f_set_flags (d_flags d) empty_frame \<and> v2_room mx pos d'"
proof -
  let ?n = "length (f_data f)" and ?al = "d_alloc d"
  have small: "?n < 2 ^ 63" "mx < 0 \<or> int ?n \<le> mx"
    using assms(1) by (auto simp: v2_ok_def split: if_splits)
  obtain b v where b: "al_buf ?al = Some b" "al_bufs ?al b = Some v"
    using assms(2) by (auto simp: v2_room_def v2_buf_def)
  have "al_content ?al < al_max_counters ?al" if "pos + ?n \<le> al_bufsize ?al" "max_vsm_size \<le> ?n"
    using v2_content_block [OF _ assms(3) that] assms(2) by (simp add: v2_room_def)
  then show ?thesis using assms small b
    by (auto simp: v2_size_ready_def v2_room_def v2_buf_def dec_ahead_def dec_init_size_def dec_next_step_def al_take_content_def
        al_inc_ref_def al_set_ref_def sizeof_content_def)
qed

lemma v2_message_done_ok:
  assumes "d_next d = V2_message_ready" "d_got d = f_data f" "d_msg d = (v2_received f)\<lparr>f_data := []\<rparr>"
    and "v2_room mx pos d" "d_to_read d = 0"
  shows "\<exists>d'. dec_steps pos d = Some (Rc_msg, d') \<and> v2_room mx pos d' \<and> v2_idle d' \<and>
    d_msg d' = v2_received f"
  using assms
  by (auto simp: dec_steps.simps [of pos d] dec_action_def v2_message_done_def dec_next_step_def
      dec_complete_def v2_room_def v2_buf_def dec_ahead_def v2_idle_def v2_received_def data_frame_def)

lemma v2_size_field_value:
  assumes "v2_ok mx f"
  shows "(if has_flag flag_netml_key f then unat (v2_size_field f) * 8 else unat (v2_size_field f)) =
    length (f_data f)"
  using assms by (auto simp: v2_ok_def v2_size_field_def unat_of_nat)

lemma v2_size_step:
  assumes "v2_ok mx f" "v2_room mx pos d" "d_got d = put_uint32 (v2_size_field f)"
    and "d_next d = (if has_flag flag_netml_key f then V2_key_size_ready else V2_four_byte_size_ready)"
    and "d_flags d = f_flags (v2_received f)"
  shows "\<exists>rc d'. dec_steps pos d = Some (rc, d') \<and> v2_room mx pos d' \<and>
    (rc = Rc_more \<and> v2_expects mx j f d' (f_data f) \<or>
     rc = Rc_msg \<and> f_data f = [] \<and> v2_idle d' \<and> d_msg d' = v2_received f)"
proof -
  have "d_next d \<noteq> V2_message_ready" using assms(4) by simp
  from v2_size_ready_ok [OF assms(1,2) this] obtain d1 where
    d1: "v2_size_ready (length (f_data f)) pos d = Some (Rc_more, d1)"
      "d_next d1 = V2_message_ready" "d_to_read d1 = length (f_data f)" "d_got d1 = []"
      "d_msg d1 = f_set_flags (d_flags d) empty_frame" "v2_room mx pos d1" by blast
  have act: "dec_action pos d = Some (Rc_more, d1)"
    using d1(1) assms(3,4) v2_size_field_value [OF assms(1)]
    by (auto simp: dec_action_def v2_key_size_ready_def v2_four_byte_size_ready_def)
  have msg: "d_msg d1 = (v2_received f)\<lparr>f_data := []\<rparr>"
    using d1(5) assms(5) by (simp add: f_set_flags_def empty_frame_def v2_received_def data_frame_def)
  show ?thesis
  proof (cases "f_data f = []")
    case True
    then have "dec_steps pos d = dec_steps pos d1" using act d1(3) by (simp add: dec_steps.simps [of pos d])
    then show ?thesis using v2_message_done_ok [OF d1(2) _ msg d1(6)] True d1(3,4) by auto
  next
    case False
    then have "dec_steps pos d = Some (Rc_more, d1)" using act d1(3) by (simp add: dec_steps.simps [of pos d])
    moreover have "v2_expects mx j f d1 (f_data f)" using False d1 msg assms(1) by (simp add: v2_expects_def)
    ultimately show ?thesis using d1(6) by blast
  qed
qed

lemma v2_flags_step:
  assumes "v2_ok mx f" "v2_room mx pos d" "d_got d = [v2_protocol_flags f, j]" "d_next d = V2_flags_ready"
  shows "\<exists>d'. dec_steps pos d = Some (Rc_more, d') \<and> v2_room mx pos d' \<and>
    v2_expects mx j f d' (put_uint32 (v2_size_field f) @ f_data f)"
proof -
  let ?s = "if has_flag flag_netml_key f then V2_key_size_ready else V2_four_byte_size_ready"
  let ?d = "dec_next_step 4 ?s (d\<lparr>d_flags := f_flags (v2_received f)\<rparr>)"
  have "v2_flags_ready d = ?d" using assms(3) v2_flags_roundtrip [of f] by (simp add: v2_flags_ready_def)
  then have "dec_steps pos d = Some (Rc_more, ?d)"
    using assms(4) by (simp add: dec_steps.simps [of pos d] dec_action_def dec_next_step_def)
  moreover have "v2_room mx pos ?d" using assms(2,4) by (auto simp: v2_room_def v2_buf_def dec_ahead_def dec_next_step_def)
  moreover have "v2_expects mx j f ?d (put_uint32 (v2_size_field f) @ f_data f)"
    using assms(1) by (simp add: v2_expects_def dec_next_step_def)
  ultimately show ?thesis by blast
qed

lemma v2_whole:
  assumes "v2_expects mx j f d rest" "v2_room mx pos d" "n = d_to_read d"
  shows "\<exists>rc d'. dec_steps (pos + n) (dec_take n rest d) = Some (rc, d') \<and> v2_room mx (pos + n) d' \<and>
    (rc = Rc_more \<and> v2_expects mx j f d' (drop n rest) \<or>
     rc = Rc_msg \<and> drop n rest = [] \<and> v2_idle d' \<and> d_msg d' = v2_received f)"
proof -
  let ?d = "dec_take n rest d"
  have room: "v2_room mx (pos + n) ?d" using assms v2_room_take by simp
  have ok: "v2_ok mx f" using assms(1) by (simp add: v2_expects_def)
  have split: "d_got ?d = take (length (d_got d) + n) (d_got d @ rest)"
    "drop n rest = drop (length (d_got d) + n) (d_got d @ rest)" by (simp_all add: dec_take_def)
  consider "d_next d = V2_flags_ready"
    | "d_next d = (if has_flag flag_netml_key f then V2_key_size_ready else V2_four_byte_size_ready)"
    | "d_next d = V2_message_ready"
    using assms(1) by (auto simp: v2_expects_def split: dec_step.splits)
  then show ?thesis
  proof cases
    case 1
    then have "d_got d @ rest = [v2_protocol_flags f, j] @ put_uint32 (v2_size_field f) @ f_data f"
      "length (d_got d) + n = 2"
      using assms by (auto simp: v2_expects_def wire_def wire_header_def)
    with split have "d_got ?d = [v2_protocol_flags f, j]" "drop n rest = put_uint32 (v2_size_field f) @ f_data f"
      by (simp_all only:) simp_all
    with v2_flags_step [OF ok room] 1 show ?thesis by (auto simp: dec_take_def)
  next
    case 2
    then have "d_got d @ rest = put_uint32 (v2_size_field f) @ f_data f" "length (d_got d) + n = 4"
      "d_flags d = f_flags (v2_received f)"
      using assms by (auto simp: v2_expects_def split: if_splits)
    with split have "d_got ?d = put_uint32 (v2_size_field f)" "drop n rest = f_data f" "d_flags d = f_flags (v2_received f)"
      by (simp_all only:) simp_all
    with v2_size_step [OF ok room, of j] 2 show ?thesis by (simp add: dec_take_def)
  next
    case 3
    then have "d_got d @ rest = f_data f" "length (d_got d) + n = length (f_data f)"
      "d_msg d = (v2_received f)\<lparr>f_data := []\<rparr>"
      using assms by (auto simp: v2_expects_def)
    with split have "d_got ?d = f_data f" "drop n rest = []" "d_msg ?d = (v2_received f)\<lparr>f_data := []\<rparr>"
      by (simp_all add: dec_take_def)
    moreover have "d_next ?d = V2_message_ready" "d_to_read ?d = 0"
      using 3 assms(3) by (simp_all add: dec_take_def)
    ultimately show ?thesis using v2_message_done_ok [OF _ _ _ room, of f] by auto
  qed
qed

lemma al_allocate_live:
  assumes "al_buf al = Some b" "al_bufs al b = Some v"
  shows "\<exists>al' b' v'. al_allocate al = Some al' \<and> al_buf al' = Some b' \<and> al_bufs al' b' = Some v' \<and>
    al_bufsize al' = al_max_size al \<and> al_max_size al' = al_max_size al \<and>
    al_max_counters al' = al_max_counters al \<and> al_content al' = 0"
  using assms by (simp add: al_allocate_def al_drop_own_def al_set_ref_def al_release_def Let_def
      split: prod.splits)

lemma al_allocate_size: "al_allocate al = Some al' \<Longrightarrow> al_bufsize al' = al_max_size al'"
  by (auto simp: al_allocate_def Let_def split: bind_splits)

lemma v2_buf_buffer:
  assumes "v2_buf pos d"
  shows "\<exists>zc n al. dec_get_buffer V2 d = Some (zc, n, d\<lparr>d_alloc := al\<rparr>) \<and> (0 < d_to_read d \<longrightarrow> 0 < n) \<and>
    (zc \<longrightarrow> n = d_to_read d) \<and> v2_buf 0 (d\<lparr>d_alloc := al\<rparr>)"
proof -
  obtain b v where "al_buf (d_alloc d) = Some b" "al_bufs (d_alloc d) b = Some v"
    using assms by (auto simp: v2_buf_def)
  from al_allocate_live [OF this] obtain al b' v' where
    al: "al_allocate (d_alloc d) = Some al" "al_buf al = Some b'" "al_bufs al b' = Some v'"
      "al_bufsize al = al_max_size (d_alloc d)" "al_max_size al = al_max_size (d_alloc d)"
      "al_max_counters al = al_max_counters (d_alloc d)" "al_content al = 0" by blast
  then have "v2_buf 0 (d\<lparr>d_alloc := al\<rparr>)" using assms by (auto simp: v2_buf_def dec_ahead_def)
  moreover have "0 < al_bufsize al" using assms al by (auto simp: v2_buf_def)
  ultimately show ?thesis using al by (auto simp: dec_get_buffer_def)
qed

lemma v2_buffer:
  assumes "v2_room mx pos d" "0 < d_to_read d"
  shows "\<exists>zc n d'. dec_get_buffer V2 d = Some (zc, n, d') \<and> 0 < n \<and> (zc \<longrightarrow> n = d_to_read d) \<and>
    v2_room mx 0 d' \<and> 0 < d_to_read d'"
proof -
  obtain zc n al where "dec_get_buffer V2 d = Some (zc, n, d\<lparr>d_alloc := al\<rparr>)" "0 < n"
    "zc \<longrightarrow> n = d_to_read d" "v2_buf 0 (d\<lparr>d_alloc := al\<rparr>)"
    using v2_buf_buffer [of pos d] assms by (auto simp: v2_room_def)
  then show ?thesis using assms by (intro exI [of _ zc] exI [of _ n] exI [of _ "d\<lparr>d_alloc := al\<rparr>"]) (simp add: v2_room_def)
qed

lemma get_buffer_decoder:
  assumes "dec_get_buffer p d = Some (zc, n, d')"
  shows "\<exists>al. d' = d\<lparr>d_alloc := al\<rparr> \<and> (n = d_to_read d \<or> n = al_bufsize al) \<and>
    (zc \<longrightarrow> n = d_to_read d) \<and> (\<not> zc \<longrightarrow> d_to_read d < n)"
  using assms by (auto simp: dec_get_buffer_def split: bind_splits if_splits)

lemma v2_buf_resize:
  assumes "v2_buf 0 d" "dec_get_buffer V2 d0 = Some (zc, n, d)" "m \<le> n"
  shows "v2_buf 0 (dec_resize_buffer m d)"
  using assms
  by (auto simp: v2_buf_def dec_ahead_def dec_resize_buffer_def al_resize_def dec_get_buffer_def
      split: bind_splits if_splits dest!: al_allocate_size)

lemma v2_resize:
  assumes "v2_room mx 0 d" "dec_get_buffer V2 d0 = Some (zc, n, d)" "m \<le> n"
  shows "v2_room mx 0 (dec_resize_buffer m d)"
  using assms v2_buf_resize [of d d0 zc n m] by (simp add: v2_room_def) (simp add: dec_resize_buffer_def)

interpretation v2: framing V2 "v2_ok mx" "wire V2 j" v2_received v2_idle "v2_expects mx j"
  "\<lambda>pos d. v2_room mx pos d \<and> 0 < d_to_read d" for mx j
proof (unfold_locales, goal_cases)
  case (1 d f) then show ?case by (rule v2_start)
next
  case (2 f d rest) then show ?case by (rule v2_need)
next
  case (3 f d rest n) then show ?case by (rule v2_part)
next
  case (4 f d rest pos n)
  then show ?case using v2_whole [of mx j f d rest pos n]
    by (auto simp: v2_idle_def) (use v2_need in blast)
next
  case (5 pos d n data) then show ?case using v2_room_take [of mx pos d n data] by simp
next
  case (6 pos d) then show ?case using v2_buffer [of mx pos d] by blast
next
  case (7 d m d0 zc n) then show ?case using v2_resize [of mx d d0 zc n m]
    by (auto simp: dec_resize_buffer_def)
next
  case (8 d zc n d' f rest m)
  from get_buffer_decoder [OF 8] show ?case
    by (auto simp: v2_expects_def v2_idle_def dec_resize_buffer_def cong: dec_step.case_cong)
qed

section \<open>Version 1\<close>

text \<open>Version 1 has a 64-bit size; the size of the allocation must not wrap around.\<close>

definition v1_ok :: "int \<Rightarrow> frame \<Rightarrow> bool" where
  "v1_ok mx f \<longleftrightarrow> (mx < 0 \<or> int (length (f_data f)) \<le> mx) \<and>
     length (f_data f) + sizeof_content < 2 ^ 64"

definition v1_received :: "frame \<Rightarrow> frame" where
  "v1_received f = data_frame (f_flags f AND flag_more) (f_data f)"

definition v1_expects :: "int \<Rightarrow> frame \<Rightarrow> decoder \<Rightarrow> byte list \<Rightarrow> bool" where
  "v1_expects mx f d rest \<longleftrightarrow>
     v1_ok mx f \<and> 0 < d_to_read d \<and>
     (case d_next d of
        V1_one_byte_size_ready \<Rightarrow> length (d_got d) + d_to_read d = 1 \<and> d_got d @ rest = wire V1 0 f
      | V1_eight_byte_size_ready \<Rightarrow> 254 \<le> length (f_data f) \<and> length (d_got d) + d_to_read d = 8 \<and>
          d_got d @ rest = put_uint64 (of_nat (length (f_data f) + 1)) @ [f_flags f AND flag_more] @ f_data f
      | V1_flags_ready \<Rightarrow> length (d_got d) + d_to_read d = 1 \<and>
          d_got d @ rest = [f_flags f AND flag_more] @ f_data f \<and> d_size d = length (f_data f) \<and>
          d_msg d = empty_frame
      | V1_message_ready \<Rightarrow> length (d_got d) + d_to_read d = length (f_data f) \<and>
          d_got d @ rest = f_data f \<and> d_msg d = (v1_received f)\<lparr>f_data := []\<rparr>
      | _ \<Rightarrow> False)"

definition v1_idle :: "decoder \<Rightarrow> bool" where
  "v1_idle d \<longleftrightarrow> d_next d = V1_one_byte_size_ready \<and> d_got d = [] \<and> d_to_read d = 1"

definition v1_room :: "int \<Rightarrow> decoder \<Rightarrow> bool" where
  "v1_room mx d \<longleftrightarrow> d_grant d = (\<lambda>_. True) \<and> d_maxmsgsize d = mx \<and> 0 < al_bufsize (d_alloc d)"

lemma v1_room_take: "v1_room mx (dec_take n data d) = v1_room mx d"
  by (simp add: v1_room_def dec_take_def)

lemma v1_need: "v1_expects mx f d rest \<Longrightarrow> 0 < d_to_read d \<and> d_to_read d \<le> length rest"
  by (auto simp: v1_expects_def wire_def wire_header_def put_uint64_def Let_def
      split: dec_step.splits if_splits dest!: arg_cong [where f = length])

lemma v1_part:
  assumes "v1_expects mx f d rest" "n < d_to_read d"
  shows "v1_expects mx f (dec_take n rest d) (drop n rest)"
  using assms v1_need [OF assms(1)] by (auto simp: v1_expects_def dec_take_def split: dec_step.splits)

lemma v1_message_done_ok:
  assumes "d_next d = V1_message_ready" "d_got d = f_data f" "d_msg d = (v1_received f)\<lparr>f_data := []\<rparr>"
    and "v1_room mx d" "d_to_read d = 0"
  shows "\<exists>d'. dec_steps pos d = Some (Rc_msg, d') \<and> v1_room mx d' \<and> v1_idle d' \<and> d_msg d' = v1_received f"
  using assms
  by (auto simp: dec_steps.simps [of pos d] dec_action_def v1_message_done_def dec_next_step_def
      dec_complete_def v1_room_def v1_idle_def v1_received_def data_frame_def)

lemma v1_init_size_ok:
  assumes "v1_ok mx f" "v1_room mx d"
  shows "\<exists>d'. dec_init_size (length (f_data f)) d = Some d' \<and> v1_room mx d' \<and>
    v1_expects mx f (dec_next_step 1 V1_flags_ready d') ([f_flags f AND flag_more] @ f_data f)"
  using assms
  by (auto simp: dec_init_size_def v1_ok_def v1_room_def v1_expects_def dec_next_step_def sizeof_content_def)

lemma v1_flags_step:
  assumes "v1_ok mx f" "v1_room mx d" "d_next d = V1_flags_ready" "d_got d = [f_flags f AND flag_more]"
    and "d_size d = length (f_data f)" "d_msg d = empty_frame"
  shows "\<exists>rc d'. dec_steps pos d = Some (rc, d') \<and> v1_room mx d' \<and>
    (rc = Rc_more \<and> v1_expects mx f d' (f_data f) \<or>
     rc = Rc_msg \<and> f_data f = [] \<and> v1_idle d' \<and> d_msg d' = v1_received f)"
proof -
  let ?d = "v1_flags_ready d"
  have d: "d_next ?d = V1_message_ready" "d_to_read ?d = length (f_data f)" "d_got ?d = []" "v1_room mx ?d"
    "d_msg ?d = (v1_received f)\<lparr>f_data := []\<rparr>"
    using assms by (simp_all add: v1_flags_ready_def dec_next_step_def v1_room_def v1_received_def
        f_set_flags_def empty_frame_def data_frame_def and.assoc)
  have act: "dec_action pos d = Some (Rc_more, ?d)" using assms(3) by (simp add: dec_action_def)
  show ?thesis
  proof (cases "f_data f = []")
    case True
    then have "dec_steps pos d = dec_steps pos ?d" using act d(2) by (simp add: dec_steps.simps [of pos d])
    then show ?thesis using v1_message_done_ok [OF d(1) _ d(5,4), of pos] True d(2,3) by auto
  next
    case False
    then have "dec_steps pos d = Some (Rc_more, ?d)" using act d(2) by (simp add: dec_steps.simps [of pos d])
    moreover have "v1_expects mx f ?d (f_data f)" using False d assms(1) by (simp add: v1_expects_def)
    ultimately show ?thesis using d(4) by blast
  qed
qed

lemma v1_one_byte_step:
  assumes "v1_ok mx f" "v1_room mx d" "d_next d = V1_one_byte_size_ready" "d_got d @ rest = wire V1 0 f"
    and "length (d_got d) = 1"
  shows "\<exists>d'. dec_steps pos d = Some (Rc_more, d') \<and> v1_room mx d' \<and> v1_expects mx f d' rest"
proof (cases "length (f_data f) + 1 < 255")
  case True
  then have g: "d_got d = [of_nat (length (f_data f) + 1)]" "rest = [f_flags f AND flag_more] @ f_data f"
    using assms(4,5) by (auto simp: wire_def wire_header_def length_Suc_conv)
  obtain d' where d': "dec_init_size (length (f_data f)) d = Some d'" "v1_room mx d'"
    "v1_expects mx f (dec_next_step 1 V1_flags_ready d') rest"
    using v1_init_size_ok [OF assms(1,2)] g(2) by blast
  have b: "unat (d_got d ! 0) = length (f_data f) + 1" using True unat_of_nat_small [where 'a = 8, of "length (f_data f) + 1"] g(1) by simp
  have "v1_one_byte_size_ready d = (Rc_more, dec_next_step 1 V1_flags_ready d')"
    unfolding v1_one_byte_size_ready_def b using True assms(1,2) d'(1) by (auto simp: v1_ok_def v1_room_def)
  then show ?thesis using assms(3) d'(2,3)
    by (simp add: dec_steps.simps [of pos d] dec_action_def dec_next_step_def v1_room_def)
next
  case False
  then have "d_got d = [0xff]"
    "rest = put_uint64 (of_nat (length (f_data f) + 1)) @ [f_flags f AND flag_more] @ f_data f"
    using assms(4,5) by (auto simp: wire_def wire_header_def length_Suc_conv)
  then show ?thesis using assms False
    by (auto simp: dec_steps.simps [of pos d] dec_action_def v1_one_byte_size_ready_def dec_next_step_def
        v1_room_def v1_expects_def)
qed

lemma v1_eight_byte_step:
  assumes "v1_ok mx f" "v1_room mx d" "d_next d = V1_eight_byte_size_ready"
    and "d_got d = put_uint64 (of_nat (length (f_data f) + 1))"
  shows "\<exists>d'. dec_steps pos d = Some (Rc_more, d') \<and> v1_room mx d' \<and>
    v1_expects mx f d' ([f_flags f AND flag_more] @ f_data f)"
proof -
  let ?w = "of_nat (length (f_data f) + 1) :: u64"
  have l: "length (f_data f) < 2 ^ 64 - 1" using assms(1) by (simp add: v1_ok_def sizeof_content_def)
  then have u: "unat ?w = length (f_data f) + 1" by (intro unat_of_nat_small) simp
  then have w: "?w \<noteq> 0" "unat (?w - 1) = length (f_data f)"
    using unat_of_nat_small [where 'a = 64, of "length (f_data f)"] l by auto
  obtain d' where d': "dec_init_size (length (f_data f)) d = Some d'" "v1_room mx d'"
    "v1_expects mx f (dec_next_step 1 V1_flags_ready d') ([f_flags f AND flag_more] @ f_data f)"
    using v1_init_size_ok [OF assms(1,2)] by blast
  have "v1_eight_byte_size_ready d = Some (Rc_more, dec_next_step 1 V1_flags_ready d')"
    unfolding v1_eight_byte_size_ready_def assms(4) using w l assms(1,2) d'(1)
    by (auto simp: v1_ok_def v1_room_def simp del: of_nat_add of_nat_Suc)
  then show ?thesis using assms(3) d'(2,3)
    by (simp add: dec_steps.simps [of pos d] dec_action_def dec_next_step_def v1_room_def)
qed

lemma v1_whole:
  assumes "v1_expects mx f d rest" "v1_room mx d" "n = d_to_read d"
  shows "\<exists>rc d'. dec_steps pos (dec_take n rest d) = Some (rc, d') \<and> v1_room mx d' \<and>
    (rc = Rc_more \<and> v1_expects mx f d' (drop n rest) \<or>
     rc = Rc_msg \<and> drop n rest = [] \<and> v1_idle d' \<and> d_msg d' = v1_received f)"
proof -
  let ?d = "dec_take n rest d"
  have room: "v1_room mx ?d" using assms(2) by (simp add: v1_room_take)
  have ok: "v1_ok mx f" using assms(1) by (simp add: v1_expects_def)
  have n: "n \<le> length rest" using v1_need [OF assms(1)] assms(3) by simp
  have got: "d_got ?d @ drop n rest = d_got d @ rest" "length (d_got ?d) = length (d_got d) + n"
    using n by (simp_all add: dec_take_def)
  have keep: "d_next ?d = d_next d" "d_size ?d = d_size d" "d_msg ?d = d_msg d" "d_to_read ?d = 0"
    using assms(3) by (simp_all add: dec_take_def)
  have cut: "d_got ?d = a \<and> drop n rest = b" if "d_got ?d @ drop n rest = a @ b" "length (d_got ?d) = length a" for a b
    using that by auto
  consider "d_next d = V1_one_byte_size_ready" | "d_next d = V1_eight_byte_size_ready"
    | "d_next d = V1_flags_ready" | "d_next d = V1_message_ready"
    using assms(1) by (auto simp: v1_expects_def split: dec_step.splits)
  then show ?thesis
  proof cases
    case 1
    then have "d_got ?d @ drop n rest = wire V1 0 f" "length (d_got ?d) = 1"
      using assms got by (auto simp: v1_expects_def)
    from v1_one_byte_step [OF ok room _ this, of pos] 1 keep show ?thesis by auto
  next
    case 2
    then have "d_got ?d = put_uint64 (of_nat (length (f_data f) + 1)) \<and>
        drop n rest = [f_flags f AND flag_more] @ f_data f"
      using assms got by (intro cut) (auto simp: v1_expects_def)
    with v1_eight_byte_step [OF ok room, of pos] 2 keep show ?thesis by auto
  next
    case 3
    then have "d_got ?d = [f_flags f AND flag_more] \<and> drop n rest = f_data f"
      using assms got by (intro cut) (auto simp: v1_expects_def)
    with v1_flags_step [OF ok room, of pos] 3 keep assms(1) show ?thesis by (auto simp: v1_expects_def)
  next
    case 4
    then have "d_got ?d = f_data f \<and> drop n rest = []"
      using assms got by (intro cut) (auto simp: v1_expects_def)
    with v1_message_done_ok [OF _ _ _ room, of f pos] 4 keep assms(1) show ?thesis by (auto simp: v1_expects_def)
  qed
qed

interpretation v1: framing V1 "v1_ok mx" "wire V1 0" v1_received v1_idle "v1_expects mx"
  "\<lambda>pos d. v1_room mx d \<and> 0 < d_to_read d" for mx
proof (unfold_locales, goal_cases)
  case (1 d f) then show ?case by (simp add: v1_expects_def v1_idle_def)
next
  case (2 f d rest) then show ?case by (rule v1_need)
next
  case (3 f d rest n) then show ?case by (rule v1_part)
next
  case (4 f d rest pos n)
  then show ?case using v1_whole [of mx f d rest n "pos + n"]
    by (auto simp: v1_idle_def) (use v1_need in blast)
next
  case (5 pos d n data) then show ?case by (simp add: v1_room_take)
next
  case (6 pos d) then show ?case by (auto simp: dec_get_buffer_def v1_room_def)
next
  case (7 d m d0 zc n) then show ?case by (simp add: v1_room_def dec_resize_buffer_def al_resize_def)
next
  case (8 d zc n d' f rest m)
  from get_buffer_decoder [OF 8] show ?case
    by (auto simp: v1_expects_def v1_idle_def dec_resize_buffer_def cong: dec_step.case_cong)
qed

section \<open>Messages survive the wire\<close>

lemma decoder_new_v2:
  assumes "4 < bufsize"
  shows "v2_idle (decoder_new V2 bufsize mx (\<lambda>_. True))"
    "v2_room mx 0 (decoder_new V2 bufsize mx (\<lambda>_. True))"
proof -
  have "al_allocate (allocator_new bufsize) =
      Some ((allocator_new bufsize)\<lparr>al_bufs := [0 \<mapsto> 1], al_buf := Some 0, al_next := 1, al_bufsize := bufsize\<rparr>)"
    by (simp add: al_allocate_def allocator_new_def al_drop_own_def al_set_ref_def)
  moreover have "bufsize \<le> max_vsm_size * ((bufsize + max_vsm_size - 1) div max_vsm_size)"
    by (simp add: max_vsm_size_def)
  ultimately show "v2_idle (decoder_new V2 bufsize mx (\<lambda>_. True))"
    "v2_room mx 0 (decoder_new V2 bufsize mx (\<lambda>_. True))"
    using assms by (simp_all add: decoder_new_def Let_def v2_idle_def v2_room_def v2_buf_def dec_ahead_def
        dec_next_step_def allocator_new_def)
qed

lemma decoder_new_v1:
  assumes "0 < bufsize"
  shows "v1_idle (decoder_new V1 bufsize mx (\<lambda>_. True))" "v1_room mx (decoder_new V1 bufsize mx (\<lambda>_. True))"
  using assms
  by (simp_all add: decoder_new_def v1_idle_def v1_room_def dec_next_step_def allocator_new_def)

text \<open>
  C8. Messages sent over version 2 of the protocol arrive complete and in order.  The sender
  loads each message into the encoder and drains it by calls of \<open>encode\<close> with arbitrary
  buffers; the engine of the receiver reads the stream in pieces of arbitrary size, some of them
  directly into a message, and hands to the session exactly the messages that were sent.  This
  holds for messages up to the size limit of the receiver whose size fits the 32-bit field and,
  when marked \<open>netml_key\<close>, is a multiple of 8, whatever the uninitialised byte of the header
  is.  The flags other than \<open>more\<close> and \<open>command\<close> are lost.
\<close>

theorem v2_messages_arrive:
  assumes "list_all (v2_ok mx) (map fst ws)" "list_all (enough_calls V2 bs) ws" "4 < bufsize"
    and "list_all (\<lambda>n. 0 < n) ns" "length (concat (map (wire V2 0) (map fst ws))) \<le> length ns"
  shows "\<exists>stream e d. send_all V2 ws (encoder_new V2 bs junk) = Some (stream, e) \<and> enc_idle V2 e \<and>
    receive V2 ns stream (decoder_new V2 bufsize mx (\<lambda>_. True)) [] =
      Some (Inr (), [], d, map v2_received (map fst ws))"
proof -
  let ?e = "encoder_new V2 bs junk" and ?j = "junk ! 1"
  have e: "e_tmpbuf ?e = junk" "e_bufsize ?e = bs" by (simp_all add: encoder_new_def enc_next_step_def)
  obtain e where s: "send_all V2 ws ?e = Some (concat (map (wire V2 ?j) (map fst ws)), e)" "enc_idle V2 e"
    using send_all_wire [OF encoder_new_idle, of V2 bs junk ws ?j] assms(2) e by auto
  have l: "length (concat (map (wire V2 ?j) (map fst ws))) = length (concat (map (wire V2 0) (map fst ws)))"
    using wire_length [of V2 ?j _ 0] by (simp add: length_concat comp_def)
  note new = decoder_new_v2 [OF assms(3), of mx]
  have "0 < d_to_read (decoder_new V2 bufsize mx (\<lambda>_. True))" using new(1) by (simp add: v2_idle_def)
  with new v2.receive_all [OF new(1) _ assms(1,4), of 0 ?j "[]"] assms(5) l s show ?thesis by auto
qed

definition sample_frames :: "(frame \<times> nat option list) list" where
  "sample_frames =
     [(data_frame flag_more [1, 2, 3], [Some 5, None, Some 4, None, None, None, None, None, None, None]),
      (data_frame 0 [], [None, None, None, None, None, None, None])]"

theorem v2_messages_arrive_witness:
  "\<exists>stream e d. send_all V2 sample_frames (encoder_new V2 2 (replicate 10 7)) = Some (stream, e) \<and>
    enc_idle V2 e \<and>
    receive V2 (replicate 15 4) stream (decoder_new V2 8 100 (\<lambda>_. True)) [] =
      Some (Inr (), [], d, [data_frame flag_more [1, 2, 3], data_frame 0 []])"
proof -
  have "map v2_received (map fst sample_frames) = [data_frame flag_more [1, 2, 3], data_frame 0 []]"
    by (simp add: sample_frames_def v2_received_def data_frame_def flag_defs)
  moreover have "list_all (v2_ok 100) (map fst sample_frames)"
    by (simp add: sample_frames_def v2_ok_def data_frame_def has_flag_def flag_defs sizeof_content_def)
  moreover have "list_all (enough_calls V2 2) sample_frames"
    "length (concat (map (wire V2 0) (map fst sample_frames))) \<le> length (replicate 15 4 :: nat list)"
    by (simp_all add: sample_frames_def enough_calls_def wire_def wire_header_def data_frame_def)
  moreover have "list_all (\<lambda>n. 0 < n) (replicate 15 4 :: nat list)" by (simp add: list_all_iff)
  ultimately show ?thesis using v2_messages_arrive [of 100 sample_frames 2 8 "replicate 15 4" "replicate 10 7"] by simp
qed

text \<open>
  C9. The same for version 1 of the protocol, whose size field has 64 bits.  Only the flag
  \<open>more\<close> is carried.
\<close>

theorem v1_messages_arrive:
  assumes "list_all (v1_ok mx) (map fst ws)" "list_all (enough_calls V1 bs) ws" "0 < bufsize"
    and "list_all (\<lambda>n. 0 < n) ns" "length (concat (map (wire V1 0) (map fst ws))) \<le> length ns"
  shows "\<exists>stream e d. send_all V1 ws (encoder_new V1 bs junk) = Some (stream, e) \<and> enc_idle V1 e \<and>
    receive V1 ns stream (decoder_new V1 bufsize mx (\<lambda>_. True)) [] =
      Some (Inr (), [], d, map v1_received (map fst ws))"
proof -
  let ?e = "encoder_new V1 bs junk"
  have e: "e_bufsize ?e = bs" by (simp add: encoder_new_def enc_next_step_def)
  obtain e where s: "send_all V1 ws ?e = Some (concat (map (wire V1 0) (map fst ws)), e)" "enc_idle V1 e"
    using send_all_wire [OF encoder_new_idle, of V1 bs junk ws 0] assms(2) e by auto
  note new = decoder_new_v1 [OF assms(3), of mx]
  have "0 < d_to_read (decoder_new V1 bufsize mx (\<lambda>_. True))" using new(1) by (simp add: v1_idle_def)
  with new v1.receive_all [OF new(1) _ assms(1,4), where s = "[]"] assms(5) s show ?thesis by auto
qed

theorem v1_messages_arrive_witness:
  "\<exists>stream e d. send_all V1 sample_frames (encoder_new V1 2 []) = Some (stream, e) \<and>
    enc_idle V1 e \<and>
    receive V1 (replicate 7 2) stream (decoder_new V1 1 100 (\<lambda>_. True)) [] =
      Some (Inr (), [], d, [data_frame flag_more [1, 2, 3], data_frame 0 []])"
proof -
  have "map v1_received (map fst sample_frames) = [data_frame flag_more [1, 2, 3], data_frame 0 []]"
    by (simp add: sample_frames_def v1_received_def data_frame_def flag_defs)
  moreover have "list_all (v1_ok 100) (map fst sample_frames)"
    by (simp add: sample_frames_def v1_ok_def data_frame_def has_flag_def flag_defs sizeof_content_def)
  moreover have "list_all (enough_calls V1 2) sample_frames"
    "length (concat (map (wire V1 0) (map fst sample_frames))) \<le> length (replicate 7 2 :: nat list)"
    by (simp_all add: sample_frames_def enough_calls_def wire_def wire_header_def data_frame_def)
  moreover have "list_all (\<lambda>n. 0 < n) (replicate 7 2 :: nat list)" by (simp add: list_all_iff)
  ultimately show ?thesis using v1_messages_arrive [of 100 sample_frames 2 1 "replicate 7 2" "[]"] by simp
qed

section \<open>Sizes that do not fit the header\<close>

text \<open>
  The size the receiver computes from the header of version 2: 32 bits of the number of bytes,
  or of the number of complete keys.
\<close>

definition v2_announced :: "frame \<Rightarrow> nat" where
  "v2_announced f =
     (if has_flag flag_netml_key f then 8 * (length (f_data f) div 8 mod 2 ^ 32)
      else length (f_data f) mod 2 ^ 32)"

lemma dec_loop_append:
  assumes "dec_loop pos data d = Some (Rc_msg, pos', d')"
  shows "dec_loop pos (data @ later) d = Some (Rc_msg, pos', d')"
  using assms
proof (induction "2 * length data + (if d_to_read d = 0 then 1 else 0)" arbitrary: pos data d
    rule: less_induct)
  case less
  let ?n = "d_to_read d"
  have ne: "data \<noteq> []" using less.prems by auto
  have le: "?n \<le> length data"
    using less.prems ne dec_loop_short [of data d pos] by (cases "length data < ?n") auto
  then have t: "dec_take ?n (data @ later) d = dec_take ?n data d" by (simp add: dec_take_def)
  obtain rc1 d2 where st: "dec_steps (pos + ?n) (dec_take ?n data d) = Some (rc1, d2)"
    using less.prems ne le by (cases "dec_steps (pos + ?n) (dec_take ?n data d)") (auto simp: dec_loop_step)
  show ?case
  proof (cases "rc1 = Rc_more")
    case True
    have l: "dec_loop (pos + ?n) (drop ?n data) d2 = Some (Rc_msg, pos', d')"
      using less.prems ne le st True by (simp add: dec_loop_step)
    have "2 * length (drop ?n data) + (if d_to_read d2 = 0 then 1 else 0) <
        2 * length data + (if ?n = 0 then 1 else 0)"
      using dec_steps_to_read [of "pos + ?n" "dec_take ?n data d" d2] st True ne le by auto
    from less.hyps [OF this l] show ?thesis using ne le st True t by (simp add: dec_loop_step)
  next
    case False
    with less.prems ne le st t show ?thesis by (auto simp: dec_loop_step split: dec_rc.splits)
  qed
qed

lemma v2_announced_le: "v2_announced f \<le> length (f_data f)"
  using div_times_less_eq_dividend [of "length (f_data f)" 8]
    mod_less_eq_dividend [of "length (f_data f) div 8" "2 ^ 32"]
  by (auto simp: v2_announced_def)

lemma v2_wire_truncated:
  "wire V2 j f = wire V2 j (f\<lparr>f_data := take (v2_announced f) (f_data f)\<rparr>) @ drop (v2_announced f) (f_data f)"
proof -
  have "v2_size_field (f\<lparr>f_data := take (v2_announced f) (f_data f)\<rparr>) = v2_size_field f"
    using v2_announced_le [of f] by (auto simp: v2_size_field_def v2_announced_def has_flag_def min_absorb2
        word_of_nat_eq_iff take_bit_eq_mod)
  then show ?thesis by (simp add: wire_def wire_header_def v2_protocol_flags_def has_flag_def)
qed

lemma v2_ok_truncated: "mx < 0 \<Longrightarrow> v2_ok mx (f\<lparr>f_data := take (v2_announced f) (f_data f)\<rparr>)"
  using v2_announced_le [of f] by (auto simp: v2_ok_def v2_announced_def has_flag_def min_absorb2)



end
