(* ===== verification/Decoder_Safety.thy ===== *)
theory Decoder_Safety
  imports Framing
begin

text \<open>
  The decoders on arbitrary input.  Whatever bytes a peer sends and however they arrive, the
  receive loop of the engine runs to its end without a failed assertion and without using a
  content block outside the buffer; it stops only with one of the errors the decoder reports, and
  no message is larger than the limit.  The locale \<open>guarded_decoder\<close> is the contract of one
  step of a decoder; both versions of the protocol are instances.
\<close>

definition rc_ok :: "(decoder \<Rightarrow> bool) \<Rightarrow> (frame \<Rightarrow> bool) \<Rightarrow> errno list \<Rightarrow> dec_rc \<Rightarrow> decoder \<Rightarrow> bool" where
  "rc_ok sound fits errs rc d =
     (case rc of Rc_more \<Rightarrow> sound d | Rc_msg \<Rightarrow> sound d \<and> fits (d_msg d) | Rc_err e \<Rightarrow> e \<in> set errs)"

locale guarded_decoder =
  fixes p :: proto
    and sound :: "nat \<Rightarrow> decoder \<Rightarrow> bool"
    and fits :: "frame \<Rightarrow> bool"
    and errs :: "errno list"
  assumes sound_to_read: "sound pos d \<Longrightarrow> 0 < d_to_read d"
    and sound_take: "sound pos d \<Longrightarrow> n < d_to_read d \<Longrightarrow> n \<le> length data \<Longrightarrow> sound (pos + n) (dec_take n data d)"
    and sound_step: "sound pos d \<Longrightarrow> n = d_to_read d \<Longrightarrow> n \<le> length data \<Longrightarrow>
      \<exists>rc d'. dec_steps (pos + n) (dec_take n data d) = Some (rc, d') \<and> rc_ok (sound (pos + n)) fits errs rc d'"
    and sound_buffer: "sound pos d \<Longrightarrow> \<exists>zc n d'. dec_get_buffer p d = Some (zc, n, d') \<and> sound 0 d'"
    and sound_resize: "sound 0 d \<Longrightarrow> dec_get_buffer p d0 = Some (zc, n, d) \<Longrightarrow> 0 < m \<Longrightarrow> m \<le> n \<Longrightarrow>
      sound 0 (dec_resize_buffer m d)"
begin

lemma dec_loop_safe:
  assumes "sound pos d"
  shows "\<exists>rc n d'. dec_loop pos data d = Some (rc, pos + n, d') \<and> n \<le> length data \<and>
    (data \<noteq> [] \<longrightarrow> 0 < n) \<and> rc_ok (sound (pos + n)) fits errs rc d'"
  using assms
proof (induction "length data" arbitrary: data d pos rule: less_induct)
  case less
  let ?n = "d_to_read d"
  consider "data = []" | "data \<noteq> []" "length data < ?n" | "data \<noteq> []" "?n \<le> length data" by linarith
  then show ?case
  proof cases
    case 1 with less.prems show ?thesis by (auto simp: rc_ok_def)
  next
    case 2 with sound_take [OF less.prems 2(2), of data] show ?thesis by (auto simp: dec_loop_short rc_ok_def)
  next
    case 3
    have n: "0 < ?n" using sound_to_read [OF less.prems] .
    obtain rc d2 where st: "dec_steps (pos + ?n) (dec_take ?n data d) = Some (rc, d2)"
      "rc_ok (sound (pos + ?n)) fits errs rc d2" using sound_step [OF less.prems refl 3(2)] by blast
    show ?thesis
    proof (cases "rc = Rc_more")
      case True
      have "length (drop ?n data) < length data" using n 3 by auto
      moreover have "sound (pos + ?n) d2" using st(2) True by (simp add: rc_ok_def)
      ultimately obtain rc' k d' where k: "dec_loop (pos + ?n) (drop ?n data) d2 = Some (rc', pos + ?n + k, d')"
        "k \<le> length (drop ?n data)" "rc_ok (sound (pos + ?n + k)) fits errs rc' d'"
        using less.hyps by blast
      have "dec_loop pos data d = Some (rc', pos + (?n + k), d')"
        using 3 st(1) True k(1) by (simp add: dec_loop_step add.assoc)
      moreover have "?n + k \<le> length data" using 3 k(2) by simp
      ultimately show ?thesis using k(3) n by (metis add.assoc add_pos_nonneg zero_le)
    next
      case False
      with st n 3 show ?thesis by (cases rc) (auto simp: dec_loop_step)
    qed
  qed
qed

lemma in_loop_safe:
  assumes "sound pos d" "list_all fits s"
  shows "\<exists>r pos' rest d' s'. in_loop log_msg pos data d s = Some (r, pos', rest, d', s') \<and> list_all fits s' \<and>
    (case r of Inl e \<Rightarrow> e \<in> set errs | Inr _ \<Rightarrow> sound pos' d' \<and> rest = [])"
  using assms
proof (induction "length data" arbitrary: data d pos s rule: less_induct)
  case less
  show ?case
  proof (cases "data = []")
    case True with less.prems show ?thesis by simp
  next
    case False
    obtain rc n d' where l: "dec_loop pos data d = Some (rc, pos + n, d')" "n \<le> length data" "0 < n"
      "rc_ok (sound (pos + n)) fits errs rc d'"
      using dec_loop_safe [OF less.prems(1), of data] False by blast
    then have dec: "decode pos data d = Some (rc, n, d')" by (simp add: decode_def)
    show ?thesis
    proof (cases rc)
      case Rc_msg
      have "length (drop n data) < length data" using l(3) False by simp
      moreover have "sound (pos + n) d'" "list_all fits (s @ [d_msg d'])"
        using l(4) Rc_msg less.prems(2) by (auto simp: rc_ok_def)
      ultimately show ?thesis using less.hyps [of "drop n data" "pos + n" d' "s @ [d_msg d']"] dec Rc_msg False
        by (simp add: in_loop.simps [of log_msg pos data] log_msg_def)
    next
      case Rc_more
      then have "n = length data" using decode_progress [OF dec] by simp
      then show ?thesis using l(4) dec False Rc_more less.prems(2)
        by (simp add: in_loop.simps [of log_msg pos data] rc_ok_def)
    next
      case (Rc_err e)
      then show ?thesis using l(4) dec False less.prems(2)
        by (simp add: in_loop.simps [of log_msg pos data] rc_ok_def)
    qed
  qed
qed

lemma decode_zero_copy_safe:
  assumes "sound 0 d" "length data \<le> d_to_read d" "data \<noteq> []"
  shows "\<exists>rc d'. decode_zero_copy 0 data d = Some (rc, length data, d') \<and>
    rc_ok (sound (length data)) fits errs rc d'"
proof (cases "length data = d_to_read d")
  case True
  with sound_step [OF assms(1) True order_refl] show ?thesis by (auto simp: decode_zero_copy_def Let_def)
next
  case False
  then have lt: "length data < d_to_read d" using assms(2) by simp
  with sound_take [OF assms(1) lt order_refl] show ?thesis by (simp add: decode_zero_copy_def rc_ok_def)
qed

lemma in_read_safe:
  assumes "sound pos d" "list_all fits s"
  shows "\<exists>avail' r pos' rest d' s'. in_read log_msg p n avail d s = Some (avail', r, pos', rest, d', s') \<and>
    list_all fits s' \<and> (case r of Inl e \<Rightarrow> e \<in> set errs | Inr _ \<Rightarrow> sound pos' d')"
proof -
  obtain zc bs d1 where b: "dec_get_buffer p d = Some (zc, bs, d1)" "sound 0 d1" using sound_buffer [OF assms(1)] by blast
  let ?data = "take (min n bs) avail"
  let ?d2 = "dec_resize_buffer (length ?data) d1"
  show ?thesis
  proof (cases "?data = []")
    case True with b assms(2) show ?thesis by (auto simp: in_read_def)
  next
    case False
    then have i: "sound 0 ?d2" using b by (intro sound_resize [OF b(2,1)]) auto
    show ?thesis
    proof (cases zc)
      case False
      obtain r pos' rest d' s' where "in_loop log_msg 0 ?data ?d2 s = Some (r, pos', rest, d', s')"
        "list_all fits s'" "case r of Inl e \<Rightarrow> e \<in> set errs | Inr _ \<Rightarrow> sound pos' d' \<and> rest = []"
        using in_loop_safe [OF i assms(2), of ?data] by blast
      with False b(1) \<open>?data \<noteq> []\<close> show ?thesis
        by (cases r) (auto simp: in_read_def Let_def)
    next
      case True
      have "bs = d_to_read d" "d_to_read d1 = d_to_read d" using get_buffer_decoder [OF b(1)] True by auto
      then have "length ?data \<le> d_to_read ?d2" by (simp add: dec_resize_buffer_def)
      from decode_zero_copy_safe [OF i this \<open>?data \<noteq> []\<close>] obtain rc d' where
        z: "decode_zero_copy 0 ?data ?d2 = Some (rc, length ?data, d')" "rc_ok (sound (length ?data)) fits errs rc d'"
        by blast
      have "rc = Rc_msg \<Longrightarrow> list_all fits (s @ [d_msg d'])" using z(2) assms(2) by (simp add: rc_ok_def)
      then show ?thesis using z True b(1) \<open>?data \<noteq> []\<close> assms(2)
        by (cases rc) (auto simp: in_read_def Let_def log_msg_def rc_ok_def)
    qed
  qed
qed

lemma receive_safe:
  assumes "sound pos d" "list_all fits s"
  shows "\<exists>r avail' d' s'. receive p ns avail d s = Some (r, avail', d', s') \<and> list_all fits s' \<and>
    (r = Inr () \<or> (\<exists>e. e \<in> set errs \<and> r = Inl e))"
  using assms
proof (induction ns arbitrary: avail d s pos)
  case Nil then show ?case by simp
next
  case (Cons n ns)
  obtain avail' r pos' rest d' s' where r: "in_read log_msg p n avail d s = Some (avail', r, pos', rest, d', s')"
    "list_all fits s'" "case r of Inl e \<Rightarrow> e \<in> set errs | Inr _ \<Rightarrow> sound pos' d'"
    using in_read_safe [OF Cons.prems, of n avail] by blast
  show ?case
  proof (cases r)
    case (Inl e) with r show ?thesis by simp
  next
    case (Inr u) with r Cons.IH [of pos' d' s' avail'] show ?thesis by simp
  qed
qed

end

section \<open>Version 2\<close>

definition in_limit :: "int \<Rightarrow> nat \<Rightarrow> bool" where
  "in_limit mx n \<longleftrightarrow> mx < 0 \<or> int n \<le> mx"

definition v2_sound :: "int \<Rightarrow> nat \<Rightarrow> decoder \<Rightarrow> bool" where
  "v2_sound mx pos d \<longleftrightarrow>
     v2_buf pos d \<and> d_maxmsgsize d = mx \<and> 0 < d_to_read d \<and>
     (case d_next d of
        V2_flags_ready \<Rightarrow> length (d_got d) + d_to_read d = 2
      | V2_one_byte_size_ready \<Rightarrow> length (d_got d) + d_to_read d = 1
      | V2_four_byte_size_ready \<Rightarrow> length (d_got d) + d_to_read d = 4
      | V2_key_size_ready \<Rightarrow> length (d_got d) + d_to_read d = 4
      | V2_message_ready \<Rightarrow> length (d_got d) + d_to_read d = d_size d \<and> in_limit mx (d_size d)
      | _ \<Rightarrow> False)"

lemma v2_size_ready_safe:
  assumes "v2_buf pos d" "d_next d \<noteq> V2_message_ready" "d_maxmsgsize d = mx"
  shows "\<exists>rc d'. v2_size_ready n pos d = Some (rc, d') \<and>
    (rc = Rc_err EMSGSIZE \<or> rc = Rc_err ENOMEM \<or>
     rc = Rc_more \<and> v2_buf pos d' \<and> d_maxmsgsize d' = mx \<and> in_limit mx n \<and> d_size d' = n \<and>
     d_next d' = V2_message_ready \<and> d_got d' = [] \<and> d_to_read d' = n)"
proof -
  let ?al = "d_alloc d"
  obtain b v where b: "al_buf ?al = Some b" "al_bufs ?al b = Some v" using assms(1) by (auto simp: v2_buf_def)
  have "al_content ?al < al_max_counters ?al" if "pos + n \<le> al_bufsize ?al" "max_vsm_size \<le> n"
    using v2_content_block [OF assms(1,2) that] .
  then show ?thesis using assms b
    by (auto simp: v2_size_ready_def v2_buf_def dec_ahead_def dec_init_size_def dec_next_step_def in_limit_def
        al_take_content_def al_inc_ref_def al_set_ref_def)
qed

lemma v2_done_safe:
  assumes "d_next d = V2_message_ready" "v2_buf pos d" "d_to_read d = 0" "length (d_got d) = d_size d"
    and "d_maxmsgsize d = mx" "in_limit mx (d_size d)"
  shows "\<exists>d'. dec_steps pos d = Some (Rc_msg, d') \<and> v2_sound mx pos d' \<and> in_limit mx (length (f_data (d_msg d')))"
  using assms
  by (auto simp: dec_steps.simps [of pos d] dec_action_def v2_message_done_def dec_next_step_def
      dec_complete_def v2_sound_def v2_buf_def dec_ahead_def)

lemma v2_size_steps_safe:
  assumes "dec_action pos d = v2_size_ready n pos d" "v2_buf pos d" "d_next d \<noteq> V2_message_ready" "d_maxmsgsize d = mx"
  shows "\<exists>rc d'. dec_steps pos d = Some (rc, d') \<and>
    rc_ok (v2_sound mx pos) (\<lambda>f. in_limit mx (length (f_data f))) [EMSGSIZE, ENOMEM] rc d'"
proof -
  obtain rc d1 where d1: "v2_size_ready n pos d = Some (rc, d1)"
    "rc = Rc_err EMSGSIZE \<or> rc = Rc_err ENOMEM \<or>
     rc = Rc_more \<and> v2_buf pos d1 \<and> d_maxmsgsize d1 = mx \<and> in_limit mx n \<and> d_size d1 = n \<and>
     d_next d1 = V2_message_ready \<and> d_got d1 = [] \<and> d_to_read d1 = n"
    using v2_size_ready_safe [OF assms(2-4)] by blast
  show ?thesis
  proof (cases "rc = Rc_more")
    case False
    with d1 assms(1) show ?thesis by (auto simp: dec_steps.simps [of pos d] rc_ok_def)
  next
    case True
    show ?thesis
    proof (cases "n = 0")
      case True
      then have "dec_steps pos d = dec_steps pos d1"
        using d1 assms(1) \<open>rc = Rc_more\<close> by (simp add: dec_steps.simps [of pos d])
      then show ?thesis using v2_done_safe [of d1 pos mx] d1 True \<open>rc = Rc_more\<close> by (auto simp: rc_ok_def)
    next
      case False
      then have "dec_steps pos d = Some (Rc_more, d1)"
        using d1 assms(1) \<open>rc = Rc_more\<close> by (simp add: dec_steps.simps [of pos d])
      then show ?thesis using d1 False \<open>rc = Rc_more\<close> by (simp add: rc_ok_def v2_sound_def)
    qed
  qed
qed

lemma get_uint32_length: "length b = 4 \<Longrightarrow> \<exists>w. get_uint32 b = Some w"
  by (auto simp: numeral_eq_Suc length_Suc_conv get_uint32_def)

lemma v2_flags_safe:
  assumes "d_next d = V2_flags_ready" "v2_buf pos d" "d_maxmsgsize d = mx"
  shows "\<exists>d'. dec_steps pos d = Some (Rc_more, d') \<and> v2_sound mx pos d'"
  using assms
  by (auto simp: dec_steps.simps [of pos d] dec_action_def v2_flags_ready_def dec_next_step_def Let_def
      v2_sound_def v2_buf_def dec_ahead_def)

lemma v2_buf_take: "v2_buf pos d \<Longrightarrow> n \<le> d_to_read d \<Longrightarrow> v2_buf (pos + n) (dec_take n data d)"
  by (auto simp: v2_buf_def dec_ahead_def dec_take_def)

lemma v2_step_safe:
  assumes "v2_sound mx pos d" "n = d_to_read d" "n \<le> length data"
  shows "\<exists>rc d'. dec_steps (pos + n) (dec_take n data d) = Some (rc, d') \<and>
    rc_ok (v2_sound mx (pos + n)) (\<lambda>f. in_limit mx (length (f_data f))) [EMSGSIZE, ENOMEM] rc d'"
proof -
  let ?d = "dec_take n data d"
  have buf: "v2_buf (pos + n) ?d" using assms v2_buf_take by (simp add: v2_sound_def)
  have d: "d_next ?d = d_next d" "d_to_read ?d = 0" "d_maxmsgsize ?d = mx" "d_size ?d = d_size d"
    "length (d_got ?d) = length (d_got d) + n"
    using assms by (simp_all add: v2_sound_def dec_take_def)
  consider "d_next d = V2_flags_ready" | "d_next d = V2_one_byte_size_ready"
    | "d_next d = V2_four_byte_size_ready \<or> d_next d = V2_key_size_ready" "length (d_got ?d) = 4"
    | "d_next d = V2_message_ready" "length (d_got ?d) = d_size d" "in_limit mx (d_size d)"
    using assms d(5) by (cases "d_next d") (auto simp: v2_sound_def)
  then show ?thesis
  proof cases
    case 1 with v2_flags_safe [OF _ buf d(3)] d(1) show ?thesis by (auto simp: rc_ok_def)
  next
    case 2 with d(1) show ?thesis
      by (intro v2_size_steps_safe [OF _ buf _ d(3)]) (simp_all add: dec_action_def v2_one_byte_size_ready_def)
  next
    case 3
    obtain w where w: "get_uint32 (d_got ?d) = Some w" using get_uint32_length 3(2) by blast
    show ?thesis
      using 3(1) d(1) w
      by (intro v2_size_steps_safe [OF _ buf _ d(3),
            where n = "if d_next d = V2_key_size_ready then unat w * 8 else unat w"])
        (auto simp: dec_action_def v2_four_byte_size_ready_def v2_key_size_ready_def)
  next
    case 4 with v2_done_safe [OF _ buf d(2) _ d(3)] d show ?thesis by (auto simp: rc_ok_def)
  qed
qed

interpretation v2_guarded: guarded_decoder V2 "v2_sound mx" "\<lambda>f. in_limit mx (length (f_data f))"
  "[EMSGSIZE, ENOMEM]" for mx
proof (unfold_locales, goal_cases)
  case (1 pos d) then show ?case by (simp add: v2_sound_def)
next
  case (2 pos d n data)
  then show ?case using v2_buf_take [of pos d n data]
    by (auto simp: v2_sound_def) (auto simp: dec_take_def split: dec_step.splits)
next
  case (3 pos d n data) then show ?case by (rule v2_step_safe)
next
  case (4 pos d)
  then have "v2_buf pos d" by (simp add: v2_sound_def)
  from v2_buf_buffer [OF this] obtain zc n al where b: "dec_get_buffer V2 d = Some (zc, n, d\<lparr>d_alloc := al\<rparr>)"
    "v2_buf 0 (d\<lparr>d_alloc := al\<rparr>)" by blast
  have "v2_sound mx 0 (d\<lparr>d_alloc := al\<rparr>)" using 4 b(2) by (simp add: v2_sound_def cong: dec_step.case_cong)
  with b(1) show ?case by blast
next
  case (5 d d0 zc n m)
  then have "v2_buf 0 (dec_resize_buffer m d)" using v2_buf_resize [of d d0 zc n m] by (simp add: v2_sound_def)
  then show ?case using 5(1) by (simp add: v2_sound_def) (simp add: dec_resize_buffer_def cong: dec_step.case_cong)
qed

section \<open>Version 1\<close>

definition v1_sound :: "int \<Rightarrow> decoder \<Rightarrow> bool" where
  "v1_sound mx d \<longleftrightarrow>
     d_maxmsgsize d = mx \<and> 0 < d_to_read d \<and>
     (case d_next d of
        V1_one_byte_size_ready \<Rightarrow> length (d_got d) + d_to_read d = 1
      | V1_eight_byte_size_ready \<Rightarrow> length (d_got d) + d_to_read d = 8
      | V1_flags_ready \<Rightarrow> length (d_got d) + d_to_read d = 1 \<and> in_limit mx (d_size d)
      | V1_message_ready \<Rightarrow> length (d_got d) + d_to_read d = d_size d \<and> in_limit mx (d_size d)
      | _ \<Rightarrow> False)"

lemma v1_done_safe:
  assumes "d_next d = V1_message_ready" "d_to_read d = 0" "length (d_got d) = d_size d"
    and "d_maxmsgsize d = mx" "in_limit mx (d_size d)"
  shows "\<exists>d'. dec_steps pos d = Some (Rc_msg, d') \<and> v1_sound mx d' \<and> in_limit mx (length (f_data (d_msg d')))"
  using assms
  by (auto simp: dec_steps.simps [of pos d] dec_action_def v1_message_done_def dec_next_step_def
      dec_complete_def v1_sound_def)

lemma v1_init_size_safe:
  assumes "d_maxmsgsize d = mx" "in_limit mx n" "dec_init_size n d = Some d'"
  shows "v1_sound mx (dec_next_step 1 V1_flags_ready d')"
  using assms by (auto simp: dec_init_size_def v1_sound_def dec_next_step_def split: if_splits)

lemma v1_one_byte_safe:
  assumes "d_next d = V1_one_byte_size_ready" "d_maxmsgsize d = mx"
  shows "\<exists>rc d'. dec_steps pos d = Some (rc, d') \<and>
    rc_ok (v1_sound mx) (\<lambda>f. in_limit mx (length (f_data f))) [EPROTO, EMSGSIZE, ENOMEM] rc d'"
proof -
  let ?b = "unat (d_got d ! 0)"
  consider "?b = 255" | "?b = 0" | "\<not> in_limit mx (?b - 1)" "?b \<noteq> 255" "?b \<noteq> 0"
    | "in_limit mx (?b - 1)" "?b \<noteq> 255" "?b \<noteq> 0" by blast
  then show ?thesis
  proof cases
    case 4
    have lim: "\<not> (0 \<le> d_maxmsgsize d \<and> d_maxmsgsize d < int ?b - 1)"
      using 4 assms(2) by (auto simp: in_limit_def)
    show ?thesis
    proof (cases "dec_init_size (?b - 1) d")
      case None with 4 lim assms show ?thesis
        by (auto simp: dec_steps.simps [of pos d] dec_action_def v1_one_byte_size_ready_def rc_ok_def Let_def)
    next
      case (Some d1)
      have "v1_one_byte_size_ready d = (Rc_more, dec_next_step 1 V1_flags_ready d1)"
        using 4 lim Some by (auto simp: v1_one_byte_size_ready_def Let_def)
      then show ?thesis using assms v1_init_size_safe [OF assms(2) 4(1) Some]
        by (simp add: dec_steps.simps [of pos d] dec_action_def rc_ok_def)
          (simp add: dec_next_step_def)
    qed
  qed (use assms in \<open>auto simp: dec_steps.simps [of pos d] dec_action_def v1_one_byte_size_ready_def Let_def
      dec_next_step_def rc_ok_def v1_sound_def in_limit_def\<close>)
qed

lemma get_uint64_length: "length b = 8 \<Longrightarrow> \<exists>w. get_uint64 b = Some w"
  by (auto simp: numeral_eq_Suc length_Suc_conv get_uint64_def)

lemma v1_eight_byte_safe:
  assumes "d_next d = V1_eight_byte_size_ready" "d_maxmsgsize d = mx" "length (d_got d) = 8"
  shows "\<exists>rc d'. dec_steps pos d = Some (rc, d') \<and>
    rc_ok (v1_sound mx) (\<lambda>f. in_limit mx (length (f_data f))) [EPROTO, EMSGSIZE, ENOMEM] rc d'"
proof -
  obtain w where w: "get_uint64 (d_got d) = Some w" using get_uint64_length [OF assms(3)] by blast
  let ?n = "unat (w - 1)"
  have n: "\<not> ?n > 2 ^ 64 - 1" using unsigned_less [where 'a = nat, of "w - 1"] by simp
  show ?thesis
  proof (cases "w = 0 \<or> \<not> in_limit mx ?n \<or> dec_init_size ?n d = None")
    case True
    then show ?thesis using assms w
      by (auto simp: dec_steps.simps [of pos d] dec_action_def v1_eight_byte_size_ready_def rc_ok_def in_limit_def)
  next
    case False
    then obtain d1 where d1: "dec_init_size ?n d = Some d1" "in_limit mx ?n" "w \<noteq> 0" by auto
    have "v1_eight_byte_size_ready d = Some (Rc_more, dec_next_step 1 V1_flags_ready d1)"
      using d1 assms(2) n w by (auto simp: v1_eight_byte_size_ready_def in_limit_def)
    then show ?thesis using assms v1_init_size_safe [OF assms(2) d1(2,1)]
      by (simp add: dec_steps.simps [of pos d] dec_action_def rc_ok_def) (simp add: dec_next_step_def)
  qed
qed

lemma v1_flags_safe:
  assumes "d_next d = V1_flags_ready" "d_maxmsgsize d = mx" "in_limit mx (d_size d)"
  shows "\<exists>rc d'. dec_steps pos d = Some (rc, d') \<and>
    rc_ok (v1_sound mx) (\<lambda>f. in_limit mx (length (f_data f))) [EPROTO, EMSGSIZE, ENOMEM] rc d'"
proof -
  let ?d = "v1_flags_ready d"
  have d: "d_next ?d = V1_message_ready" "d_to_read ?d = d_size d" "d_got ?d = []" "d_size ?d = d_size d"
    "d_maxmsgsize ?d = mx" using assms(2) by (simp_all add: v1_flags_ready_def dec_next_step_def)
  have act: "dec_action pos d = Some (Rc_more, ?d)" using assms(1) by (simp add: dec_action_def)
  show ?thesis
  proof (cases "d_size d = 0")
    case True
    then have "dec_steps pos d = dec_steps pos ?d" using act d(2) by (simp add: dec_steps.simps [of pos d])
    then show ?thesis using v1_done_safe [OF d(1) _ _ d(5), of pos] True d assms(3) by (auto simp: rc_ok_def)
  next
    case False
    then have "dec_steps pos d = Some (Rc_more, ?d)" using act d(2) by (simp add: dec_steps.simps [of pos d])
    then show ?thesis using d False assms(3) by (simp add: rc_ok_def v1_sound_def)
  qed
qed

lemma v1_step_safe:
  assumes "v1_sound mx d" "n = d_to_read d" "n \<le> length data"
  shows "\<exists>rc d'. dec_steps pos (dec_take n data d) = Some (rc, d') \<and>
    rc_ok (v1_sound mx) (\<lambda>f. in_limit mx (length (f_data f))) [EPROTO, EMSGSIZE, ENOMEM] rc d'"
proof -
  let ?d = "dec_take n data d"
  have d: "d_next ?d = d_next d" "d_to_read ?d = 0" "d_maxmsgsize ?d = mx" "d_size ?d = d_size d"
    "length (d_got ?d) = length (d_got d) + n"
    using assms by (simp_all add: v1_sound_def dec_take_def)
  consider "d_next d = V1_one_byte_size_ready" | "d_next d = V1_eight_byte_size_ready" "length (d_got ?d) = 8"
    | "d_next d = V1_flags_ready" "in_limit mx (d_size d)"
    | "d_next d = V1_message_ready" "length (d_got ?d) = d_size d" "in_limit mx (d_size d)"
    using assms d(5) by (cases "d_next d") (auto simp: v1_sound_def)
  then show ?thesis
  proof cases
    case 1 with d show ?thesis by (intro v1_one_byte_safe) simp_all
  next
    case 2 with d show ?thesis by (intro v1_eight_byte_safe) simp_all
  next
    case 3 with d show ?thesis by (intro v1_flags_safe) simp_all
  next
    case 4 with v1_done_safe [OF _ d(2) _ d(3), of pos] d show ?thesis by (auto simp: rc_ok_def)
  qed
qed

interpretation v1_guarded: guarded_decoder V1 "\<lambda>_. v1_sound mx" "\<lambda>f. in_limit mx (length (f_data f))"
  "[EPROTO, EMSGSIZE, ENOMEM]" for mx
proof (unfold_locales, goal_cases)
  case (1 pos d) then show ?case by (simp add: v1_sound_def)
next
  case (2 pos d n data)
  then show ?case by (auto simp: v1_sound_def dec_take_def split: dec_step.splits)
next
  case (3 pos d n data) then show ?case by (rule v1_step_safe)
next
  case (4 pos d) then show ?case by (auto simp: dec_get_buffer_def)
next
  case (5 d d0 zc n m) then show ?case
    by (simp add: v1_sound_def dec_resize_buffer_def cong: dec_step.case_cong)
qed

section \<open>No input harms the receiver\<close>



text \<open>
  C12. The same for version 1, whose decoder also rejects a payload length of zero.  Here the
  buffer may have any size.
\<close>

theorem v1_receiver_safe:
  "\<exists>r rest d msgs. receive V1 ns stream (decoder_new V1 bufsize mx grant) [] = Some (r, rest, d, msgs) \<and>
    list_all (\<lambda>f. mx < 0 \<or> int (length (f_data f)) \<le> mx) msgs \<and>
    (r = Inr () \<or> r = Inl EPROTO \<or> r = Inl EMSGSIZE \<or> r = Inl ENOMEM)"
proof -
  have "v1_sound mx (decoder_new V1 bufsize mx grant)"
    by (simp add: v1_sound_def decoder_new_def dec_next_step_def)
  from v1_guarded.receive_safe [OF this, of "[]" ns stream] show ?thesis
    by (fastforce simp: in_limit_def)
qed

end
