(* ===== verification/Yqueue.thy ===== *)
theory Yqueue
  imports Prelude
begin

text \<open>
  The queue of \<open>src/yqueue.hpp\<close>: a doubly linked list of chunks of \<open>N\<close> elements, with
  one spare chunk.  Chunks are held in a heap by address; a step on a chunk that was freed, or
  through a \<open>NULL\<close> pointer, is \<open>None\<close>.  Memory that was never written is \<open>None\<close> in
  \<open>ck_values\<close>.  Allocation succeeds (\<open>alloc_assert\<close> aborts otherwise).

  The locale \<open>cell_queue\<close> is the interface that \<open>ypipe_t\<close> uses: a list of cells, each with
  an address that stays valid and unique as long as the cell is in the queue.
\<close>

section \<open>The data structure\<close>

record 'a chunk =
  ck_values :: "nat \<Rightarrow> 'a option"
  ck_prev :: "nat option"
  ck_next :: "nat option"

record 'a yqueue =
  yq_heap :: "nat \<Rightarrow> 'a chunk option"
  yq_fresh :: nat
  yq_begin_chunk :: nat
  yq_begin_pos :: nat
  yq_back_chunk :: "nat option"
  yq_back_pos :: nat
  yq_end_chunk :: nat
  yq_end_pos :: nat
  yq_spare :: "nat option"

type_synonym cell_addr = "nat \<times> nat"

definition allocate_chunk :: "'a yqueue \<Rightarrow> nat \<times> 'a yqueue" where
  "allocate_chunk q =
     (yq_fresh q,
      q\<lparr>yq_heap := (yq_heap q)(yq_fresh q \<mapsto> \<lparr>ck_values = (\<lambda>_. None), ck_prev = None, ck_next = None\<rparr>),
        yq_fresh := Suc (yq_fresh q)\<rparr>)"

definition yqueue_new :: "'a yqueue" where
  "yqueue_new =
     (let (c, q) = allocate_chunk
        \<lparr>yq_heap = (\<lambda>_. None), yq_fresh = 0, yq_begin_chunk = 0, yq_begin_pos = 0,
         yq_back_chunk = None, yq_back_pos = 0, yq_end_chunk = 0, yq_end_pos = 0, yq_spare = None\<rparr>
      in q\<lparr>yq_begin_chunk := c, yq_end_chunk := c\<rparr>)"

definition yq_front_addr :: "'a yqueue \<Rightarrow> cell_addr" where
  "yq_front_addr q = (yq_begin_chunk q, yq_begin_pos q)"

definition yq_front :: "'a yqueue \<Rightarrow> 'a option" where
  "yq_front q = do { k \<leftarrow> yq_heap q (yq_begin_chunk q); ck_values k (yq_begin_pos q) }"

definition yq_back_addr :: "'a yqueue \<Rightarrow> cell_addr option" where
  "yq_back_addr q = map_option (\<lambda>c. (c, yq_back_pos q)) (yq_back_chunk q)"

definition yq_back :: "'a yqueue \<Rightarrow> 'a option" where
  "yq_back q = do { c \<leftarrow> yq_back_chunk q; k \<leftarrow> yq_heap q c; ck_values k (yq_back_pos q) }"

definition yq_set_back :: "'a \<Rightarrow> 'a yqueue \<Rightarrow> 'a yqueue option" where
  "yq_set_back x q =
     do {
       c \<leftarrow> yq_back_chunk q;
       k \<leftarrow> yq_heap q c;
       Some (q\<lparr>yq_heap := (yq_heap q)(c \<mapsto> k\<lparr>ck_values := (ck_values k)(yq_back_pos q \<mapsto> x)\<rparr>)\<rparr>)
     }"

definition yq_set_next :: "nat \<Rightarrow> nat option \<Rightarrow> 'a yqueue \<Rightarrow> 'a yqueue option" where
  "yq_set_next c n q =
     do { k \<leftarrow> yq_heap q c; Some (q\<lparr>yq_heap := (yq_heap q)(c \<mapsto> k\<lparr>ck_next := n\<rparr>)\<rparr>) }"

definition yq_set_prev :: "nat \<Rightarrow> nat option \<Rightarrow> 'a yqueue \<Rightarrow> 'a yqueue option" where
  "yq_set_prev c n q =
     do { k \<leftarrow> yq_heap q c; Some (q\<lparr>yq_heap := (yq_heap q)(c \<mapsto> k\<lparr>ck_prev := n\<rparr>)\<rparr>) }"

definition yq_free :: "nat option \<Rightarrow> 'a yqueue \<Rightarrow> 'a yqueue" where
  "yq_free c q = (case c of None \<Rightarrow> q | Some a \<Rightarrow> q\<lparr>yq_heap := (yq_heap q)(a := None)\<rparr>)"

definition yq_push :: "nat \<Rightarrow> 'a yqueue \<Rightarrow> 'a yqueue option" where
  "yq_push N q =
     (let q1 = q\<lparr>yq_back_chunk := Some (yq_end_chunk q), yq_back_pos := yq_end_pos q,
                 yq_end_pos := Suc (yq_end_pos q)\<rparr> in
      if yq_end_pos q1 \<noteq> N then Some q1
      else (let (n, q2) = (case yq_spare q1 of
                             Some sc \<Rightarrow> (sc, q1\<lparr>yq_spare := None\<rparr>)
                           | None \<Rightarrow> allocate_chunk q1) in
            do {
              q3 \<leftarrow> yq_set_next (yq_end_chunk q2) (Some n) q2;
              q4 \<leftarrow> yq_set_prev n (Some (yq_end_chunk q2)) q3;
              Some (q4\<lparr>yq_end_chunk := n, yq_end_pos := 0\<rparr>)
            }))"

text \<open>\<open>unpush\<close> first moves \<open>back\<close>, then \<open>end\<close>, one position backwards.\<close>

definition yq_back_dec :: "nat \<Rightarrow> 'a yqueue \<Rightarrow> 'a yqueue option" where
  "yq_back_dec N q =
     (if yq_back_pos q \<noteq> 0 then Some (q\<lparr>yq_back_pos := yq_back_pos q - 1\<rparr>)
      else do {
        c \<leftarrow> yq_back_chunk q;
        k \<leftarrow> yq_heap q c;
        Some (q\<lparr>yq_back_chunk := ck_prev k, yq_back_pos := N - 1\<rparr>)
      })"

definition yq_unpush :: "nat \<Rightarrow> 'a yqueue \<Rightarrow> 'a yqueue option" where
  "yq_unpush N q =
     do {
       q1 \<leftarrow> yq_back_dec N q;
       (if yq_end_pos q1 \<noteq> 0 then Some (q1\<lparr>yq_end_pos := yq_end_pos q1 - 1\<rparr>)
        else do {
          k \<leftarrow> yq_heap q1 (yq_end_chunk q1);
          e \<leftarrow> ck_prev k;
          ke \<leftarrow> yq_heap q1 e;
          yq_set_next e None (yq_free (ck_next ke) (q1\<lparr>yq_end_pos := N - 1, yq_end_chunk := e\<rparr>))
        })
     }"

definition yq_pop :: "nat \<Rightarrow> 'a yqueue \<Rightarrow> 'a yqueue option" where
  "yq_pop N q =
     (let q1 = q\<lparr>yq_begin_pos := Suc (yq_begin_pos q)\<rparr> in
      if yq_begin_pos q1 \<noteq> N then Some q1
      else do {
        k \<leftarrow> yq_heap q1 (yq_begin_chunk q1);
        b \<leftarrow> ck_next k;
        q2 \<leftarrow> yq_set_prev b None q1;
        Some (yq_free (yq_spare q2)
                (q2\<lparr>yq_begin_chunk := b, yq_begin_pos := 0, yq_spare := Some (yq_begin_chunk q2)\<rparr>))
      })"

text \<open>The destructor walks from the first chunk to the last; \<open>fuel\<close> bounds the walk.\<close>

fun yq_destroy :: "nat \<Rightarrow> 'a yqueue \<Rightarrow> 'a yqueue option" where
  "yq_destroy 0 q = None"
| "yq_destroy (Suc fuel) q =
     (if yq_begin_chunk q = yq_end_chunk q
      then do {
        _ \<leftarrow> yq_heap q (yq_begin_chunk q);
        Some (yq_free (yq_spare q) (yq_free (Some (yq_begin_chunk q)) q)\<lparr>yq_spare := None\<rparr>)
      }
      else do {
        k \<leftarrow> yq_heap q (yq_begin_chunk q);
        b \<leftarrow> ck_next k;
        yq_destroy fuel ((yq_free (Some (yq_begin_chunk q)) q)\<lparr>yq_begin_chunk := b\<rparr>)
      })"

section \<open>The interface\<close>

locale cell_queue =
  fixes new :: 'q
    and push :: "'q \<Rightarrow> 'q option"
    and unpush :: "'q \<Rightarrow> 'q option"
    and pop :: "'q \<Rightarrow> 'q option"
    and front_addr :: "'q \<Rightarrow> 'p"
    and front_val :: "'q \<Rightarrow> 'a option"
    and back_addr :: "'q \<Rightarrow> 'p option"
    and back_val :: "'q \<Rightarrow> 'a option"
    and set_back :: "'a \<Rightarrow> 'q \<Rightarrow> 'q option"
    and cells :: "'q \<Rightarrow> ('p \<times> 'a option) list \<Rightarrow> bool"
  assumes cells_new: "cells new []"
    and cells_push: "cells q xs \<Longrightarrow> \<exists>q' p v. push q = Some q' \<and> cells q' (xs @ [(p, v)])"
    and cells_unpush: "cells q (xs @ [a, b]) \<Longrightarrow> \<exists>q'. unpush q = Some q' \<and> cells q' (xs @ [a])"
    and cells_pop: "cells q (a # xs) \<Longrightarrow> \<exists>q'. pop q = Some q' \<and> cells q' xs"
    and cells_front: "cells q ((p, v) # xs) \<Longrightarrow> front_addr q = p \<and> front_val q = v"
    and cells_back: "cells q (xs @ [(p, v)]) \<Longrightarrow> back_addr q = Some p \<and> back_val q = v"
    and cells_set_back: "cells q (xs @ [(p, v)]) \<Longrightarrow> \<exists>q'. set_back x q = Some q' \<and> cells q' (xs @ [(p, Some x)])"
    and cells_distinct: "cells q xs \<Longrightarrow> distinct (map fst xs)"
begin

text \<open>Filling the terminator cell and adding a new one.\<close>

lemma cells_write:
  assumes "cells q (xs @ [(p, v)])"
  shows "\<exists>q1 q2 p' v'. set_back x q = Some q1 \<and> push q1 = Some q2 \<and>
    cells q2 (xs @ [(p, Some x), (p', v')]) \<and> back_addr q2 = Some p'"
proof -
  obtain q1 where q1: "set_back x q = Some q1" "cells q1 (xs @ [(p, Some x)])"
    using cells_set_back [OF assms] by blast
  obtain q2 p' v' where q2: "push q1 = Some q2" "cells q2 ((xs @ [(p, Some x)]) @ [(p', v')])"
    using cells_push [OF q1(2)] by blast
  with q1 show ?thesis using cells_back [OF q2(2)] by auto
qed

text \<open>Two positions of the queue have the same address only if they are the same.\<close>

lemma cells_addr_inj:
  assumes "cells q xs" "i < length xs" "j < length xs"
  shows "fst (xs ! i) = fst (xs ! j) \<longleftrightarrow> i = j"
  using nth_eq_iff_index_eq [OF cells_distinct [OF assms(1)], of i j] assms(2,3) by simp

end

section \<open>The queue implements the interface\<close>

definition links_next :: "(nat \<Rightarrow> 'a chunk option) \<Rightarrow> nat \<Rightarrow> nat option" where
  "links_next h c = (case h c of None \<Rightarrow> None | Some k \<Rightarrow> ck_next k)"

definition links_prev :: "(nat \<Rightarrow> 'a chunk option) \<Rightarrow> nat \<Rightarrow> nat option" where
  "links_prev h c = (case h c of None \<Rightarrow> None | Some k \<Rightarrow> ck_prev k)"

fun chain :: "(nat \<Rightarrow> nat option) \<Rightarrow> (nat \<Rightarrow> nat option) \<Rightarrow> nat list \<Rightarrow> bool" where
  "chain nx pv (c # d # cs) \<longleftrightarrow> nx c = Some d \<and> pv d = Some c \<and> chain nx pv (d # cs)"
| "chain nx pv _ \<longleftrightarrow> True"

lemma chain_snoc:
  "chain nx pv (cs @ [e, n]) \<longleftrightarrow> chain nx pv (cs @ [e]) \<and> nx e = Some n \<and> pv n = Some e"
  by (induction nx pv cs rule: chain.induct) auto

lemma chain_cong:
  assumes "\<And>c. c \<in> set (butlast cs) \<Longrightarrow> nx' c = nx c" "\<And>c. c \<in> set (tl cs) \<Longrightarrow> pv' c = pv c"
  shows "chain nx' pv' cs \<longleftrightarrow> chain nx pv cs"
  using assms
proof (induction cs)
  case (Cons c cs)
  then show ?case by (cases cs) auto
qed simp

text \<open>The cells of a list of complete chunks, and the live cells of a queue.\<close>

definition chunk_cells :: "nat \<Rightarrow> nat list \<Rightarrow> cell_addr list" where
  "chunk_cells N cs = concat (map (\<lambda>c. map (Pair c) [0..<N]) cs)"

lemma chunk_cells_simps [simp]:
  "chunk_cells N [] = []"
  "chunk_cells N (c # cs) = map (Pair c) [0..<N] @ chunk_cells N cs"
  "chunk_cells N (xs @ ys) = chunk_cells N xs @ chunk_cells N ys"
  by (simp_all add: chunk_cells_def)

lemma chunk_cells_set: "(c, i) \<in> set (chunk_cells N cs) \<longleftrightarrow> c \<in> set cs \<and> i < N"
  by (force simp: chunk_cells_def)

lemma chunk_cells_distinct: "distinct cs \<Longrightarrow> distinct (chunk_cells N cs)"
  by (induction cs) (auto simp: distinct_map inj_on_def chunk_cells_set)

definition live_cells :: "nat \<Rightarrow> nat list \<Rightarrow> nat \<Rightarrow> nat \<Rightarrow> nat \<Rightarrow> cell_addr list" where
  "live_cells N pre e bp ep = drop bp (chunk_cells N pre @ map (Pair e) [0..<ep])"

definition cell_value :: "'a yqueue \<Rightarrow> cell_addr \<Rightarrow> 'a option" where
  "cell_value q p = (case yq_heap q (fst p) of None \<Rightarrow> None | Some k \<Rightarrow> ck_values k (snd p))"

text \<open>
  \<open>pre\<close> are the complete chunks, \<open>e\<close> is the last one.  Besides them only the spare chunk is
  allocated.
\<close>

definition yq_shape :: "nat \<Rightarrow> 'a yqueue \<Rightarrow> nat list \<Rightarrow> nat \<Rightarrow> bool" where
  "yq_shape N q pre e \<longleftrightarrow>
     distinct (pre @ [e]) \<and> dom (yq_heap q) = set (pre @ [e]) \<union> set_option (yq_spare q) \<and>
     (\<forall>c \<in> dom (yq_heap q). c < yq_fresh q) \<and> set_option (yq_spare q) \<inter> set (pre @ [e]) = {} \<and>
     chain (links_next (yq_heap q)) (links_prev (yq_heap q)) (pre @ [e]) \<and>
     yq_begin_chunk q = hd (pre @ [e]) \<and> yq_end_chunk q = e \<and> yq_begin_pos q < N \<and> yq_end_pos q < N \<and>
     yq_begin_pos q \<le> length (chunk_cells N pre) + yq_end_pos q \<and>
     (live_cells N pre e (yq_begin_pos q) (yq_end_pos q) \<noteq> [] \<longrightarrow>
        yq_back_addr q = Some (last (live_cells N pre e (yq_begin_pos q) (yq_end_pos q))))"

definition yq_cells :: "nat \<Rightarrow> 'a yqueue \<Rightarrow> (cell_addr \<times> 'a option) list \<Rightarrow> bool" where
  "yq_cells N q xs \<longleftrightarrow>
     (\<exists>pre e. yq_shape N q pre e \<and>
        xs = map (\<lambda>p. (p, cell_value q p)) (live_cells N pre e (yq_begin_pos q) (yq_end_pos q)))"

lemma yq_cells_new: "0 < N \<Longrightarrow> yq_cells N yqueue_new []"
  by (auto simp: yq_cells_def yq_shape_def yqueue_new_def allocate_chunk_def live_cells_def
      intro!: exI [of _ "[] :: nat list"])

lemma live_cells_distinct: "distinct (pre @ [e]) \<Longrightarrow> distinct (live_cells N pre e bp ep)"
  unfolding live_cells_def
  by (intro distinct_drop) (auto simp: chunk_cells_distinct distinct_map inj_on_def chunk_cells_set)

lemma yq_cells_distinct: "yq_cells N q xs \<Longrightarrow> distinct (map fst xs)"
  by (auto simp: yq_cells_def yq_shape_def comp_def intro!: live_cells_distinct)

lemma live_cells_length: "length (live_cells N pre e bp ep) = length (chunk_cells N pre) + ep - bp"
  by (simp only: live_cells_def length_drop length_append length_map length_upt diff_zero)

lemma live_cells_push:
  "bp \<le> length (chunk_cells N pre) + ep \<Longrightarrow>
   live_cells N pre e bp (Suc ep) = live_cells N pre e bp ep @ [(e, ep)]"
  by (simp add: live_cells_def)

lemma live_cells_wrap [simp]: "live_cells N (pre @ [e]) n bp 0 = live_cells N pre e bp N"
  by (simp add: live_cells_def)

lemma live_cells_chunk: "p \<in> set (live_cells N pre e bp ep) \<Longrightarrow> fst p \<in> set (pre @ [e])"
  by (cases p) (auto simp: live_cells_def chunk_cells_set dest!: in_set_dropD)

text \<open>The link step of \<open>push\<close>: chunk \<open>n\<close>, new or spare, becomes the last one.\<close>

lemma links_upd:
  "links_next (h(c \<mapsto> k)) = (links_next h)(c := ck_next k)"
  "links_prev (h(c \<mapsto> k)) = (links_prev h)(c := ck_prev k)"
  "links_next (h(c := None)) = (links_next h)(c := None)"
  "links_prev (h(c := None)) = (links_prev h)(c := None)"
  by (auto simp: links_next_def links_prev_def)

lemma chain_extend:
  assumes "chain nx pv (pre @ [e])" "distinct (pre @ [e, n])"
  shows "chain (nx(e := Some n, n := x)) (pv(n := Some e)) (pre @ [e, n])"
proof -
  have "chain (nx(e := Some n, n := x)) (pv(n := Some e)) (pre @ [e]) = chain nx pv (pre @ [e])"
    using assms(2) by (intro chain_cong) (auto dest: in_set_tlD)
  then show ?thesis using assms by (simp add: chain_snoc)
qed

lemma yq_push_link:
  assumes "yq_shape N q pre e" "Suc (yq_end_pos q) = N"
    and "distinct (pre @ [e, n])" "h n = Some kn" "h e = Some ke" "yq_heap q e = Some ke"
    and "\<And>c. c \<in> set (pre @ [e]) \<Longrightarrow> h c = yq_heap q c" "dom h = set (pre @ [e, n]) \<union> set_option sp"
    and "\<forall>c \<in> dom h. c < fresh" "set_option sp \<inter> set (pre @ [e, n]) = {}"
  defines "q' \<equiv> q\<lparr>yq_heap := h(e \<mapsto> ke\<lparr>ck_next := Some n\<rparr>, n \<mapsto> kn\<lparr>ck_prev := Some e\<rparr>), yq_fresh := fresh,
      yq_spare := sp, yq_back_chunk := Some e, yq_back_pos := yq_end_pos q, yq_end_chunk := n, yq_end_pos := 0\<rparr>"
  shows "yq_shape N q' (pre @ [e]) n"
    "live_cells N (pre @ [e]) n (yq_begin_pos q) 0 =
      live_cells N pre e (yq_begin_pos q) (yq_end_pos q) @ [(e, yq_end_pos q)]"
    "\<And>p. p \<in> set (live_cells N pre e (yq_begin_pos q) (yq_end_pos q)) \<Longrightarrow> cell_value q' p = cell_value q p"
proof -
  have ne: "n \<noteq> e" "n \<notin> set pre" "e \<notin> set pre" using assms(3) by auto
  have chain0: "chain (links_next h) (links_prev h) (pre @ [e])"
    using assms(1,7) by (subst chain_cong [where nx = "links_next (yq_heap q)" and pv = "links_prev (yq_heap q)"])
      (auto simp: yq_shape_def links_next_def links_prev_def dest: in_set_tlD)
  show live: "live_cells N (pre @ [e]) n (yq_begin_pos q) 0 =
      live_cells N pre e (yq_begin_pos q) (yq_end_pos q) @ [(e, yq_end_pos q)]"
    using assms(1,2) live_cells_push [of "yq_begin_pos q" N pre "yq_end_pos q" e] by (auto simp: yq_shape_def)
  have "chain (links_next (yq_heap q')) (links_prev (yq_heap q')) (pre @ [e, n])"
    using chain_extend [OF chain0 assms(3), of "ck_next kn"] ne assms(4,5)
    by (simp add: q'_def links_upd fun_upd_idem links_prev_def)
  then show "yq_shape N q' (pre @ [e]) n"
    using assms(1-3,8-10) live ne by (auto simp: yq_shape_def q'_def yq_back_addr_def hd_append)
  fix p assume "p \<in> set (live_cells N pre e (yq_begin_pos q) (yq_end_pos q))"
  then have "fst p \<in> set (pre @ [e])" by (rule live_cells_chunk)
  then show "cell_value q' p = cell_value q p"
    using assms(6,7) ne by (auto simp: cell_value_def q'_def)
qed

lemma yq_cells_snocI:
  assumes "yq_shape N q' pre' e'" "live_cells N pre' e' (yq_begin_pos q') (yq_end_pos q') = ls @ [p]"
    and "\<And>p. p \<in> set ls \<Longrightarrow> cell_value q' p = cell_value q p"
  shows "yq_cells N q' (map (\<lambda>p. (p, cell_value q p)) ls @ [(p, cell_value q' p)])"
  using assms unfolding yq_cells_def by (intro exI [of _ pre'] exI [of _ e']) auto

lemma yq_cells_push:
  assumes "yq_cells N q xs"
  shows "\<exists>q' p v. yq_push N q = Some q' \<and> yq_cells N q' (xs @ [(p, v)])"
proof -
  obtain pre e where sh: "yq_shape N q pre e"
    and xs: "xs = map (\<lambda>p. (p, cell_value q p)) (live_cells N pre e (yq_begin_pos q) (yq_end_pos q))"
    using assms by (auto simp: yq_cells_def)
  let ?ls = "live_cells N pre e (yq_begin_pos q) (yq_end_pos q)"
  have d: "distinct (pre @ [e])" "dom (yq_heap q) = set (pre @ [e]) \<union> set_option (yq_spare q)"
    "\<forall>c \<in> dom (yq_heap q). c < yq_fresh q" "set_option (yq_spare q) \<inter> set (pre @ [e]) = {}"
    "yq_end_chunk q = e" using sh by (auto simp: yq_shape_def)
  obtain ke where ke: "yq_heap q e = Some ke" using d(2) by auto
  show ?thesis
  proof (cases "Suc (yq_end_pos q) = N")
    case False
    let ?q = "q\<lparr>yq_back_chunk := Some e, yq_back_pos := yq_end_pos q, yq_end_pos := Suc (yq_end_pos q)\<rparr>"
    have push: "yq_push N q = Some ?q" using False d(5) by (simp add: yq_push_def Let_def)
    have l: "live_cells N pre e (yq_begin_pos q) (Suc (yq_end_pos q)) = ?ls @ [(e, yq_end_pos q)]"
      using sh by (intro live_cells_push) (simp add: yq_shape_def)
    moreover have "yq_shape N ?q pre e" using sh False l by (auto simp: yq_shape_def yq_back_addr_def)
    ultimately have "yq_cells N ?q (map (\<lambda>p. (p, cell_value q p)) ?ls @
        [((e, yq_end_pos q), cell_value ?q (e, yq_end_pos q))])"
      by (intro yq_cells_snocI [of N ?q pre e]) (simp_all add: cell_value_def)
    with push xs show ?thesis by blast
  next
    case True
    define n where "n = (case yq_spare q of Some sc \<Rightarrow> sc | None \<Rightarrow> yq_fresh q)"
    define h where "h = (case yq_spare q of Some sc \<Rightarrow> yq_heap q | None \<Rightarrow>
      (yq_heap q)(n \<mapsto> \<lparr>ck_values = (\<lambda>_. None), ck_prev = None, ck_next = None\<rparr>))"
    define fresh where "fresh = (case yq_spare q of Some sc \<Rightarrow> yq_fresh q | None \<Rightarrow> Suc (yq_fresh q))"
    have n: "distinct (pre @ [e, n])"
      using d by (cases "yq_spare q") (auto simp: n_def)
    obtain kn where kn: "h n = Some kn" using d(2) by (cases "yq_spare q") (auto simp: h_def n_def)
    have h: "h e = Some ke" "\<And>c. c \<in> set (pre @ [e]) \<Longrightarrow> h c = yq_heap q c"
      "dom h = set (pre @ [e, n]) \<union> set_option None" "\<forall>c \<in> dom h. c < fresh"
      using n d ke by (cases "yq_spare q"; auto simp: h_def n_def fresh_def)+
    let ?q = "q\<lparr>yq_heap := h(e \<mapsto> ke\<lparr>ck_next := Some n\<rparr>, n \<mapsto> kn\<lparr>ck_prev := Some e\<rparr>), yq_fresh := fresh,
      yq_spare := None, yq_back_chunk := Some e, yq_back_pos := yq_end_pos q, yq_end_chunk := n, yq_end_pos := 0\<rparr>"
    note link = yq_push_link [OF sh True n kn h(1) ke h(2-4), simplified]
    have "yq_push N q = Some ?q"
      using True d(5) h(1) kn n
      by (cases "yq_spare q")
        (auto simp: yq_push_def Let_def allocate_chunk_def yq_set_next_def yq_set_prev_def h_def n_def fresh_def)
    moreover have "yq_cells N ?q (map (\<lambda>p. (p, cell_value q p)) ?ls @ [((e, yq_end_pos q), cell_value ?q (e, yq_end_pos q))])"
      using link by (intro yq_cells_snocI [of N ?q "pre @ [e]" n]) simp_all
    ultimately show ?thesis using xs by blast
  qed
qed

lemma live_cells_hd:
  assumes "live_cells N pre e bp ep \<noteq> []" "bp < N"
  shows "hd (live_cells N pre e bp ep) = (hd (pre @ [e]), bp)"
  using assms by (cases pre) (auto simp: live_cells_def hd_drop_conv_nth nth_append)

lemma yq_cells_front:
  assumes "yq_cells N q ((p, v) # xs)"
  shows "yq_front_addr q = p \<and> yq_front q = v"
proof -
  obtain pre e ls where sh: "yq_shape N q pre e" and v: "v = cell_value q p"
    and l: "live_cells N pre e (yq_begin_pos q) (yq_end_pos q) = p # ls"
    using assms by (auto simp: yq_cells_def)
  have "p = (yq_begin_chunk q, yq_begin_pos q)"
    using live_cells_hd [of N pre e "yq_begin_pos q" "yq_end_pos q"] l sh by (auto simp: yq_shape_def)
  then show ?thesis using v
    by (simp add: yq_front_addr_def yq_front_def cell_value_def split: option.splits)
qed

lemma yq_cells_back:
  assumes "yq_cells N q (xs @ [(p, v)])"
  shows "yq_back_addr q = Some p \<and> yq_back q = v"
proof -
  obtain pre e ls where sh: "yq_shape N q pre e" and v: "v = cell_value q p"
    and l: "live_cells N pre e (yq_begin_pos q) (yq_end_pos q) = ls @ [p]"
    using assms by (auto simp: yq_cells_def map_eq_append_conv append_eq_map_conv)
  have "yq_back_addr q = Some p" using sh l by (simp add: yq_shape_def)
  then show ?thesis using v
    by (auto simp: yq_back_addr_def yq_back_def cell_value_def split: option.splits)
qed

lemma yq_cells_set_back:
  assumes "yq_cells N q (xs @ [(p, v)])"
  shows "\<exists>q'. yq_set_back x q = Some q' \<and> yq_cells N q' (xs @ [(p, Some x)])"
proof -
  obtain pre e ls where sh: "yq_shape N q pre e" and xs: "xs = map (\<lambda>p. (p, cell_value q p)) ls"
    and l: "live_cells N pre e (yq_begin_pos q) (yq_end_pos q) = ls @ [p]"
    using assms by (auto simp: yq_cells_def map_eq_append_conv append_eq_map_conv)
  obtain c i where p: "p = (c, i)" by fastforce
  have b: "yq_back_chunk q = Some c" "yq_back_pos q = i"
    using sh l p by (auto simp: yq_shape_def yq_back_addr_def)
  have "c \<in> set (pre @ [e])" using live_cells_chunk [of p N pre e "yq_begin_pos q" "yq_end_pos q"] l p by simp
  moreover have "dom (yq_heap q) = set (pre @ [e]) \<union> set_option (yq_spare q)"
    using sh by (simp add: yq_shape_def)
  ultimately obtain k where k: "yq_heap q c = Some k" by blast
  let ?q = "q\<lparr>yq_heap := (yq_heap q)(c \<mapsto> k\<lparr>ck_values := (ck_values k)(i \<mapsto> x)\<rparr>)\<rparr>"
  have links: "links_next (yq_heap ?q) = links_next (yq_heap q)" "links_prev (yq_heap ?q) = links_prev (yq_heap q)"
    using k by (auto simp: links_next_def links_prev_def)
  have "yq_set_back x q = Some ?q" using b k by (simp add: yq_set_back_def)
  moreover have "yq_shape N ?q pre e"
    using sh k links by (auto simp: yq_shape_def yq_back_addr_def insert_absorb)
  moreover have "distinct (ls @ [p])" using l sh live_cells_distinct [of pre e N] by (metis yq_shape_def)
  then have "cell_value ?q r = cell_value q r" if "r \<in> set ls" for r
    using that p k by (cases r) (auto simp: cell_value_def)
  moreover have "cell_value ?q p = Some x" using p by (simp add: cell_value_def)
  ultimately show ?thesis using yq_cells_snocI [of N ?q pre e ls p q] l xs by auto
qed

text \<open>The chunk that \<open>pop\<close> leaves becomes the spare one.\<close>

lemma yq_cells_pop_wrap:
  assumes "yq_shape N q (c # pre) e" "Suc (yq_begin_pos q) = N"
    and "live_cells N (c # pre) e (yq_begin_pos q) (yq_end_pos q) = p # ls"
  shows "\<exists>q'. yq_pop N q = Some q' \<and> yq_cells N q' (map (\<lambda>p. (p, cell_value q p)) ls)"
proof -
  obtain d ds where cons: "pre @ [e] = d # ds" by (cases pre) auto
  have ch: "chain (links_next (yq_heap q)) (links_prev (yq_heap q)) (c # d # ds)"
    and dist: "distinct (c # d # ds)" and first: "yq_begin_chunk q = c" "yq_end_chunk q = e"
    and dom: "dom (yq_heap q) = set (c # d # ds) \<union> set_option (yq_spare q)"
    and spare: "set_option (yq_spare q) \<inter> set (c # d # ds) = {}"
    and fresh: "\<forall>c \<in> dom (yq_heap q). c < yq_fresh q"
    using assms(1) cons by (auto simp: yq_shape_def)
  have "c \<in> dom (yq_heap q)" "d \<in> dom (yq_heap q)" using dom by auto
  then obtain kc kd where k: "yq_heap q c = Some kc" "yq_heap q d = Some kd" by blast
  then have nx: "ck_next kc = Some d" using ch by (simp add: links_next_def)
  define h where "h = (case yq_spare q of
      None \<Rightarrow> (yq_heap q)(d \<mapsto> kd\<lparr>ck_prev := None\<rparr>)
    | Some s \<Rightarrow> (yq_heap q)(d \<mapsto> kd\<lparr>ck_prev := None\<rparr>, s := None))"
  let ?q = "q\<lparr>yq_heap := h, yq_begin_chunk := d, yq_begin_pos := 0, yq_spare := Some c\<rparr>"
  have pop: "yq_pop N q = Some ?q"
    using assms(2) k nx first
    by (cases "yq_spare q") (auto simp: yq_pop_def Let_def yq_set_prev_def yq_free_def h_def)
  have live: "live_cells N pre e 0 (yq_end_pos q) = ls"
    using assms(2,3) by (auto simp: live_cells_def)
  have hk: "h a = yq_heap q a" if "a \<in> set (c # ds)" for a
    using that dist spare by (cases "yq_spare q") (auto simp: h_def)
  have hd: "h d = Some (kd\<lparr>ck_prev := None\<rparr>)" using spare by (cases "yq_spare q") (auto simp: h_def)
  have nxs: "links_next h a = links_next (yq_heap q) a" if "a \<in> set (d # ds)" for a
    using that hk hd k by (auto simp: links_next_def)
  have pvs: "links_prev h a = links_prev (yq_heap q) a" if "a \<in> set ds" for a
    using that hk by (simp add: links_prev_def)
  have "chain (links_next h) (links_prev h) (d # ds) =
      chain (links_next (yq_heap q)) (links_prev (yq_heap q)) (d # ds)"
    by (rule chain_cong) (use nxs pvs in \<open>auto dest: in_set_butlastD simp del: butlast.simps\<close>)
  then have "chain (links_next h) (links_prev h) (d # ds)" using ch by simp
  moreover have "dom h = set (d # ds) \<union> {c}" using dom spare k by (cases "yq_spare q") (auto simp: h_def)
  ultimately have "yq_shape N ?q pre e"
    using assms cons dist live fresh first dom by (auto simp: yq_shape_def yq_back_addr_def)
  moreover have "cell_value ?q r = cell_value q r" if "r \<in> set ls" for r
  proof -
    have "fst r \<in> set (d # ds)" using that live_cells_chunk [of r N pre e 0] live cons by auto
    then show ?thesis using hk hd k by (auto simp: cell_value_def)
  qed
  ultimately have "yq_cells N ?q (map (\<lambda>p. (p, cell_value q p)) ls)"
    using live unfolding yq_cells_def by (intro exI [of _ pre] exI [of _ e]) auto
  with pop show ?thesis by blast
qed

lemma yq_cells_pop:
  assumes "yq_cells N q (a # xs)"
  shows "\<exists>q'. yq_pop N q = Some q' \<and> yq_cells N q' xs"
proof -
  obtain pre e p ls where sh: "yq_shape N q pre e" and xs: "xs = map (\<lambda>p. (p, cell_value q p)) ls"
    and l: "live_cells N pre e (yq_begin_pos q) (yq_end_pos q) = p # ls"
    using assms by (auto simp: yq_cells_def)
  show ?thesis
  proof (cases "Suc (yq_begin_pos q) = N")
    case True
    have "pre \<noteq> []"
      using arg_cong [OF l, of length] True sh by (auto simp: yq_shape_def live_cells_length)
    then obtain c pre' where "pre = c # pre'" by (cases pre) auto
    with yq_cells_pop_wrap [of N q c pre' e p ls] sh True l xs show ?thesis by simp
  next
    case False
    let ?q = "q\<lparr>yq_begin_pos := Suc (yq_begin_pos q)\<rparr>"
    have l': "live_cells N pre e (Suc (yq_begin_pos q)) (yq_end_pos q) = ls"
      using arg_cong [OF l, of tl] by (simp only: live_cells_def drop_Suc tl_drop list.sel)
    have "Suc (yq_begin_pos q) \<le> length (chunk_cells N pre) + yq_end_pos q"
      using arg_cong [OF l, of length] by (simp add: live_cells_length)
    then have "yq_shape N ?q pre e" using sh False l l' by (auto simp: yq_shape_def yq_back_addr_def)
    then have "yq_cells N ?q xs" using l' xs unfolding yq_cells_def
      by (intro exI [of _ pre] exI [of _ e]) (simp add: cell_value_def)
    then show ?thesis using False by (simp add: yq_pop_def)
  qed
qed

text \<open>The cell before the last one.\<close>

lemma live_cells_before:
  assumes "live_cells N pre e bp (Suc ep) = ls @ [p, r]" "0 < N"
  shows "r = (e, ep) \<and> live_cells N pre e bp ep = ls @ [p] \<and> bp \<le> length (chunk_cells N pre) + ep \<and>
    (if ep \<noteq> 0 then p = (e, ep - 1) else (\<exists>pre' c. pre = pre' @ [c] \<and> p = (c, N - 1)))"
proof -
  have bp: "Suc bp \<le> length (chunk_cells N pre) + ep"
    using arg_cong [OF assms(1), of length] by (simp add: live_cells_length)
  then have l: "live_cells N pre e bp ep @ [(e, ep)] = ls @ [p, r]"
    using live_cells_push [of bp N pre ep e] assms(1) by simp
  then have l': "live_cells N pre e bp ep = ls @ [p]" "r = (e, ep)"
    by (metis append_butlast_last_id butlast_append butlast_snoc append_is_Nil_conv last_snoc list.distinct(1)
        append.assoc append_Cons append_Nil)+
  have "p = last (chunk_cells N pre @ map (Pair e) [0..<ep])"
    using l'(1) bp unfolding live_cells_def by (metis last_drop last_snoc length_append length_map length_upt
        diff_zero Suc_le_lessD)
  moreover have "\<exists>pre' c. pre = pre' @ [c] \<and> p = (c, N - 1)" if "ep = 0"
  proof -
    have "pre \<noteq> []" using bp that by auto
    then obtain pre' c where "pre = pre' @ [c]" by (metis append_butlast_last_id)
    then show ?thesis using calculation that assms(2) by (simp add: last_map)
  qed
  ultimately show ?thesis using l' bp by (auto simp: last_append last_map)
qed

lemma yq_back_dec_ok:
  assumes "chain nx (links_prev (yq_heap q)) (pre @ [c])" "c \<in> dom (yq_heap q)" "yq_back_addr q = Some (c, i)"
    and "if i \<noteq> 0 then p = (c, i - 1) else (\<exists>pre' c'. pre = pre' @ [c'] \<and> p = (c', N - 1))"
  shows "\<exists>bc bp. yq_back_dec N q = Some (q\<lparr>yq_back_chunk := bc, yq_back_pos := bp\<rparr>) \<and>
    map_option (\<lambda>c. (c, bp)) bc = Some p"
proof -
  have b: "yq_back_chunk q = Some c" "yq_back_pos q = i" using assms(3) by (auto simp: yq_back_addr_def)
  obtain k where k: "yq_heap q c = Some k" using assms(2) by blast
  show ?thesis
  proof (cases "i = 0")
    case False
    then show ?thesis using b assms(4) by (simp add: yq_back_dec_def)
  next
    case True
    then obtain pre' c' where "pre = pre' @ [c']" "p = (c', N - 1)" using assms(4) by auto
    then have "ck_prev k = Some c'" using assms(1) k by (simp add: chain_snoc links_prev_def)
    then show ?thesis using b k True \<open>p = (c', N - 1)\<close> by (auto simp: yq_back_dec_def)
  qed
qed

lemma yq_cells_unpush:
  assumes "yq_cells N q (xs @ [a, b])"
  shows "\<exists>q'. yq_unpush N q = Some q' \<and> yq_cells N q' (xs @ [a])"
proof -
  obtain pre e ls p r where sh: "yq_shape N q pre e" and xs: "xs @ [a] = map (\<lambda>p. (p, cell_value q p)) (ls @ [p])"
    and l: "live_cells N pre e (yq_begin_pos q) (yq_end_pos q) = ls @ [p, r]"
    using assms by (auto simp: yq_cells_def map_eq_append_conv append_eq_map_conv Cons_eq_map_conv)
  have N: "0 < N" and bk: "yq_back_addr q = Some r" and dist: "distinct (pre @ [e])"
    and ch: "chain (links_next (yq_heap q)) (links_prev (yq_heap q)) (pre @ [e])"
    and dom: "dom (yq_heap q) = set (pre @ [e]) \<union> set_option (yq_spare q)"
    using sh l by (auto simp: yq_shape_def)
  show ?thesis
  proof (cases "yq_end_pos q")
    case (Suc ep)
    note before = live_cells_before [OF l [unfolded Suc] N]
    then obtain bc bp where q1: "yq_back_dec N q = Some (q\<lparr>yq_back_chunk := bc, yq_back_pos := bp\<rparr>)"
      "map_option (\<lambda>c. (c, bp)) bc = Some p"
      using yq_back_dec_ok [OF ch, of ep p N] dom bk by auto
    let ?q = "q\<lparr>yq_back_chunk := bc, yq_back_pos := bp, yq_end_pos := ep\<rparr>"
    have "yq_shape N ?q pre e" using sh before q1(2) Suc by (auto simp: yq_shape_def yq_back_addr_def)
    then have "yq_cells N ?q (xs @ [a])" using xs before unfolding yq_cells_def
      by (intro exI [of _ pre] exI [of _ e]) (simp add: cell_value_def)
    then show ?thesis using q1(1) Suc by (simp add: yq_unpush_def)
  next
    case 0
    have "pre \<noteq> []" using arg_cong [OF l, of length] 0 by (auto simp: live_cells_length)
    then obtain pre' e' where pre: "pre = pre' @ [e']" by (metis append_butlast_last_id)
    have "live_cells N pre' e' (yq_begin_pos q) (Suc (N - 1)) = ls @ [p, r]" using l 0 pre N by simp
    note before = live_cells_before [OF this N]
    have ch': "chain (links_next (yq_heap q)) (links_prev (yq_heap q)) (pre' @ [e'])"
      and link: "links_next (yq_heap q) e' = Some e" "links_prev (yq_heap q) e = Some e'"
      using ch pre by (auto simp: chain_snoc)
    then obtain k ke where k: "yq_heap q e = Some k" "ck_prev k = Some e'" "yq_heap q e' = Some ke" "ck_next ke = Some e"
      by (auto simp: links_next_def links_prev_def split: option.splits)
    obtain bc bp where q1: "yq_back_dec N q = Some (q\<lparr>yq_back_chunk := bc, yq_back_pos := bp\<rparr>)"
      "map_option (\<lambda>c. (c, bp)) bc = Some p"
      using yq_back_dec_ok [OF ch', of "N - 1" p N] before bk k(3) by auto
    let ?h = "(yq_heap q)(e := None, e' \<mapsto> ke\<lparr>ck_next := None\<rparr>)"
    let ?q = "q\<lparr>yq_back_chunk := bc, yq_back_pos := bp, yq_end_pos := N - 1, yq_end_chunk := e', yq_heap := ?h\<rparr>"
    have ne: "e \<noteq> e'" "e \<notin> set pre'" "e' \<notin> set pre'" using dist pre by auto
    have "chain (links_next ?h) (links_prev ?h) (pre' @ [e']) =
        chain (links_next (yq_heap q)) (links_prev (yq_heap q)) (pre' @ [e'])"
      using ne k(3) by (intro chain_cong) (auto simp: links_next_def links_prev_def dest: in_set_tlD)
    then have "yq_shape N ?q pre' e'"
      using sh before q1(2) pre ch' ne N by (auto simp: yq_shape_def yq_back_addr_def hd_append)
    moreover have "cell_value ?q t = cell_value q t" if "t \<in> set (ls @ [p])" for t
    proof -
      have "fst t \<in> set (pre' @ [e'])"
        using that before live_cells_chunk [of t N pre' e' "yq_begin_pos q" "N - 1"] by simp
      then show ?thesis using k ne by (auto simp: cell_value_def)
    qed
    ultimately have "yq_cells N ?q (xs @ [a])" using xs before unfolding yq_cells_def
      by (intro exI [of _ pre'] exI [of _ e']) simp
    moreover have "yq_unpush N q = Some ?q"
      using q1(1) 0 k ne sh by (simp add: yq_unpush_def yq_free_def yq_set_next_def yq_shape_def)
    ultimately show ?thesis by blast
  qed
qed

interpretation yq: cell_queue yqueue_new "yq_push (Suc n)" "yq_unpush (Suc n)" "yq_pop (Suc n)"
  yq_front_addr yq_front yq_back_addr yq_back yq_set_back "yq_cells (Suc n)" for n
proof (unfold_locales, goal_cases)
  case 1 show ?case by (rule yq_cells_new) simp
next
  case (2 q xs) then show ?case by (rule yq_cells_push)
next
  case (3 q xs a b) then show ?case by (rule yq_cells_unpush)
next
  case (4 q a xs) then show ?case by (rule yq_cells_pop)
next
  case (5 q p v xs) then show ?case by (rule yq_cells_front)
next
  case (6 q xs p v) then show ?case by (rule yq_cells_back)
next
  case (7 q xs p v x) then show ?case by (rule yq_cells_set_back)
next
  case (8 q xs) then show ?case by (rule yq_cells_distinct)
qed

section \<open>No chunk is lost\<close>

lemma yq_destroy_all:
  assumes "distinct (pre @ [e])" "dom (yq_heap q) = set (pre @ [e]) \<union> set_option (yq_spare q)"
    and "chain (links_next (yq_heap q)) pv (pre @ [e])" "yq_begin_chunk q = hd (pre @ [e])" "yq_end_chunk q = e"
    and "length pre < fuel" "set_option (yq_spare q) \<inter> set (pre @ [e]) = {}"
  shows "\<exists>q'. yq_destroy fuel q = Some q' \<and> yq_heap q' = Map.empty"
  using assms
proof (induction pre arbitrary: q fuel pv)
  case Nil
  then obtain f where f: "fuel = Suc f" by (cases fuel) auto
  obtain k where "yq_heap q e = Some k" using Nil.prems(2) by auto
  moreover have "yq_heap (yq_free (yq_spare q) (yq_free (Some e) q)) = Map.empty"
    using Nil.prems(2) by (cases "yq_spare q") (auto simp: yq_free_def fun_eq_iff dom_def)
  ultimately show ?case using Nil.prems f by simp
next
  case (Cons c pre)
  then obtain f where f: "fuel = Suc f" "length pre < f" by (cases fuel) auto
  obtain d ds where cons: "pre @ [e] = d # ds" by (cases pre) auto
  have "c \<in> dom (yq_heap q)" using Cons.prems(2) by auto
  then obtain k where k: "yq_heap q c = Some k" by blast
  then have nx: "ck_next k = Some d" using Cons.prems(3) cons by (simp add: links_next_def)
  let ?q = "(yq_free (Some c) q)\<lparr>yq_begin_chunk := d\<rparr>"
  have c: "c \<notin> set (pre @ [e])" using Cons.prems(1) by simp
  then have nxs: "links_next (yq_heap ?q) a = links_next (yq_heap q) a" if "a \<in> set (pre @ [e])" for a
    using that by (auto simp: yq_free_def links_next_def)
  have "chain (links_next (yq_heap ?q)) pv (pre @ [e]) = chain (links_next (yq_heap q)) pv (pre @ [e])"
    using nxs by (intro chain_cong) auto
  moreover have "chain (links_next (yq_heap q)) pv (pre @ [e])" using Cons.prems(3) cons by simp
  ultimately have ch: "chain (links_next (yq_heap ?q)) pv (pre @ [e])" by simp
  have dom: "dom (yq_heap ?q) = set (pre @ [e]) \<union> set_option (yq_spare ?q)"
    using Cons.prems(2,7) c by (auto simp: yq_free_def)
  have "set_option (yq_spare ?q) \<inter> set (pre @ [e]) = {}" using Cons.prems(7) by (auto simp: yq_free_def)
  then have "\<exists>q'. yq_destroy f ?q = Some q' \<and> yq_heap q' = Map.empty"
    using Cons.prems(1,5) f(2) cons by (intro Cons.IH [OF _ dom ch]) (simp_all add: yq_free_def)
  then show ?case using f k nx Cons.prems(4,5) c by simp
qed

lemma yq_shape_destroy:
  assumes "yq_shape N q pre e" "length pre < fuel"
  shows "\<exists>q'. yq_destroy fuel q = Some q' \<and> yq_heap q' = Map.empty"
  using assms by (intro yq_destroy_all [where pv = "links_prev (yq_heap q)"]) (auto simp: yq_shape_def)



end
