(* ===== verification/Ypipe.thy ===== *)
theory Ypipe
  imports Yqueue
begin

text \<open>
  The lock-free pipe of \<open>src/ypipe.hpp\<close> on the chunked queue.  Pointers to elements are cell
  addresses; \<open>NULL\<close> is \<open>None\<close>.  The writer and the reader share only the pointer \<open>c\<close>,
  which both access by one compare-and-swap per operation, so an execution of two threads is a
  sequence of the operations below in some order.  The pipe is shown to implement a specification
  with three segments: items the reader may take, complete items that are not flushed, and items
  of an incomplete batch.
\<close>

section \<open>The pipe\<close>

record 'a ypipe =
  yp_queue :: "'a yqueue"
  yp_w :: cell_addr
  yp_r :: "cell_addr option"
  yp_f :: cell_addr
  yp_c :: "cell_addr option"

definition ypipe_new :: "nat \<Rightarrow> 'a ypipe option" where
  "ypipe_new N =
     do {
       q \<leftarrow> yq_push N yqueue_new;
       b \<leftarrow> yq_back_addr q;
       Some \<lparr>yp_queue = q, yp_w = b, yp_r = Some b, yp_f = b, yp_c = Some b\<rparr>
     }"

definition yp_write :: "nat \<Rightarrow> 'a \<Rightarrow> bool \<Rightarrow> 'a ypipe \<Rightarrow> 'a ypipe option" where
  "yp_write N x incomplete y =
     do {
       q1 \<leftarrow> yq_set_back x (yp_queue y);
       q2 \<leftarrow> yq_push N q1;
       b \<leftarrow> yq_back_addr q2;
       Some (y\<lparr>yp_queue := q2, yp_f := (if incomplete then yp_f y else b)\<rparr>)
     }"

definition yp_unwrite :: "nat \<Rightarrow> 'a ypipe \<Rightarrow> ('a option \<times> 'a ypipe) option" where
  "yp_unwrite N y =
     do {
       b \<leftarrow> yq_back_addr (yp_queue y);
       (if yp_f y = b then Some (None, y)
        else do {
          q \<leftarrow> yq_unpush N (yp_queue y);
          x \<leftarrow> yq_back q;
          Some (Some x, y\<lparr>yp_queue := q\<rparr>)
        })
     }"

definition yp_flush :: "'a ypipe \<Rightarrow> bool \<times> 'a ypipe" where
  "yp_flush y =
     (if yp_w y = yp_f y then (True, y)
      else if yp_c y \<noteq> Some (yp_w y) then (False, y\<lparr>yp_c := Some (yp_f y), yp_w := yp_f y\<rparr>)
      else (True, y\<lparr>yp_c := Some (yp_f y), yp_w := yp_f y\<rparr>))"

definition yp_check_read :: "'a ypipe \<Rightarrow> bool \<times> 'a ypipe" where
  "yp_check_read y =
     (let front = yq_front_addr (yp_queue y) in
      if yp_r y \<noteq> Some front \<and> yp_r y \<noteq> None then (True, y)
      else (let r = yp_c y;
                y' = y\<lparr>yp_r := r, yp_c := (if yp_c y = Some front then None else yp_c y)\<rparr>
            in if r = Some front \<or> r = None then (False, y') else (True, y')))"

definition yp_read :: "nat \<Rightarrow> 'a ypipe \<Rightarrow> ('a option \<times> 'a ypipe) option" where
  "yp_read N y =
     (case yp_check_read y of
        (False, y') \<Rightarrow> Some (None, y')
      | (True, y') \<Rightarrow>
          do {
            x \<leftarrow> yq_front (yp_queue y');
            q \<leftarrow> yq_pop N (yp_queue y');
            Some (Some x, y'\<lparr>yp_queue := q\<rparr>)
          })"

definition yp_probe :: "('a \<Rightarrow> bool) \<Rightarrow> 'a ypipe \<Rightarrow> (bool \<times> 'a ypipe) option" where
  "yp_probe fn y =
     (case yp_check_read y of
        (rc, y') \<Rightarrow>
          do {
            zmq_assert rc;
            x \<leftarrow> yq_front (yp_queue y');
            Some (fn x, y')
          })"

section \<open>The specification\<close>

record 'a pipe_spec =
  ps_readable :: "'a list"
  ps_complete :: "'a list"
  ps_incomplete :: "'a list"
  ps_asleep :: bool

datatype 'a pipe_op = Write 'a bool | Unwrite | Flush | Check_read | Read

datatype 'a pipe_out = Out_none | Out_bool bool | Out_item "'a option"

definition pipe_spec_new :: "'a pipe_spec" where
  "pipe_spec_new = \<lparr>ps_readable = [], ps_complete = [], ps_incomplete = [], ps_asleep = False\<rparr>"

fun ps_exec :: "'a pipe_op \<Rightarrow> 'a pipe_spec \<Rightarrow> 'a pipe_out \<times> 'a pipe_spec" where
  "ps_exec (Write x inc) s =
     (Out_none,
      if inc then s\<lparr>ps_incomplete := ps_incomplete s @ [x]\<rparr>
      else s\<lparr>ps_complete := ps_complete s @ ps_incomplete s @ [x], ps_incomplete := []\<rparr>)"
| "ps_exec Unwrite s =
     (if ps_incomplete s = [] then (Out_item None, s)
      else (Out_item (Some (last (ps_incomplete s))), s\<lparr>ps_incomplete := butlast (ps_incomplete s)\<rparr>))"
| "ps_exec Flush s =
     (if ps_complete s = [] then (Out_bool True, s)
      else (Out_bool (\<not> ps_asleep s),
            s\<lparr>ps_readable := ps_readable s @ ps_complete s, ps_complete := [], ps_asleep := False\<rparr>))"
| "ps_exec Check_read s =
     (if ps_readable s = [] then (Out_bool False, s\<lparr>ps_asleep := True\<rparr>) else (Out_bool True, s))"
| "ps_exec Read s =
     (if ps_readable s = [] then (Out_item None, s\<lparr>ps_asleep := True\<rparr>)
      else (Out_item (Some (hd (ps_readable s))), s\<lparr>ps_readable := tl (ps_readable s)\<rparr>))"

fun yp_exec :: "nat \<Rightarrow> 'a pipe_op \<Rightarrow> 'a ypipe \<Rightarrow> ('a pipe_out \<times> 'a ypipe) option" where
  "yp_exec N (Write x inc) y = map_option (Pair Out_none) (yp_write N x inc y)"
| "yp_exec N Unwrite y = map_option (map_prod Out_item id) (yp_unwrite N y)"
| "yp_exec N Flush y = Some (map_prod Out_bool id (yp_flush y))"
| "yp_exec N Check_read y = Some (map_prod Out_bool id (yp_check_read y))"
| "yp_exec N Read y = map_option (map_prod Out_item id) (yp_read N y)"

section \<open>The pipe implements the specification\<close>

definition yp_rel :: "nat \<Rightarrow> 'a ypipe \<Rightarrow> 'a pipe_spec \<Rightarrow> bool" where
  "yp_rel n y s \<longleftrightarrow>
     (\<exists>xs v. yq_cells (Suc n) (yp_queue y) xs \<and>
        map snd xs = map Some (ps_readable s @ ps_complete s @ ps_incomplete s) @ [v] \<and>
        yp_w y = fst (xs ! length (ps_readable s)) \<and>
        yp_f y = fst (xs ! (length (ps_readable s) + length (ps_complete s))) \<and>
        yp_c y = (if ps_asleep s then None else Some (yp_w y)) \<and>
        (ps_asleep s \<longrightarrow> ps_readable s = []) \<and>
        (yp_r y = None \<or> (\<exists>k \<le> length (ps_readable s). yp_r y = Some (fst (xs ! k)))))"

lemma yp_rel_new: "\<exists>y. ypipe_new (Suc n) = Some y \<and> yp_rel n y pipe_spec_new"
proof -
  obtain q :: "'a yqueue" and p v where q: "yq_push (Suc n) yqueue_new = Some q" "yq_cells (Suc n) q ([] @ [(p, v)])"
    using yq.cells_push [OF yq.cells_new] by blast
  have "yq_back_addr q = Some p" using yq.cells_back [OF q(2)] by simp
  then show ?thesis using q
    by (auto simp: ypipe_new_def yp_rel_def pipe_spec_new_def intro!: exI [of _ "[(p, v)]"])
qed

lemma yp_rel_write:
  assumes "yp_rel n y s"
  shows "\<exists>y'. yp_write (Suc n) x inc y = Some y' \<and> yp_rel n y' (snd (ps_exec (Write x inc) s))"
proof -
  let ?items = "ps_readable s @ ps_complete s @ ps_incomplete s"
  obtain xs v where r: "yq_cells (Suc n) (yp_queue y) xs" "map snd xs = map Some ?items @ [v]"
    "yp_w y = fst (xs ! length (ps_readable s))"
    "yp_f y = fst (xs ! (length (ps_readable s) + length (ps_complete s)))"
    "yp_c y = (if ps_asleep s then None else Some (yp_w y))" "ps_asleep s \<longrightarrow> ps_readable s = []"
    "yp_r y = None \<or> (\<exists>k \<le> length (ps_readable s). yp_r y = Some (fst (xs ! k)))"
    using assms by (auto simp: yp_rel_def)
  obtain ys p where xs: "xs = ys @ [(p, v)]" "map snd ys = map Some ?items"
    using r(2) by (cases xs rule: rev_cases) auto
  obtain q1 q2 p' v' where w: "yq_set_back x (yp_queue y) = Some q1" "yq_push (Suc n) q1 = Some q2"
    "yq_cells (Suc n) q2 (ys @ [(p, Some x), (p', v')])" "yq_back_addr q2 = Some p'"
    using yq.cells_write [OF r(1) [unfolded xs(1)]] by blast
  have len: "length ys = length ?items" using xs(2) by (metis length_map)
  let ?zs = "ys @ [(p, Some x), (p', v')]"
  have nth: "fst (?zs ! k) = fst (xs ! k)" if "k \<le> length ys" for k
    using that xs(1) by (cases "k = length ys") (auto simp: nth_append)
  have sn: "map snd ?zs = map Some (?items @ [x]) @ [v']" using xs(2) by simp
  have last: "fst (?zs ! Suc (length ys)) = p'" by (simp add: nth_append)
  let ?y = "y\<lparr>yp_queue := q2, yp_f := (if inc then yp_f y else p')\<rparr>"
  have wr: "yp_write (Suc n) x inc y = Some ?y" using w by (simp add: yp_write_def)
  have rr: "yp_r y = None \<or> (\<exists>k \<le> length (ps_readable s). yp_r y = Some (fst (?zs ! k)))"
    using r(7) nth len by fastforce
  have "yp_rel n ?y (snd (ps_exec (Write x inc) s))"
    unfolding yp_rel_def using r(3-6) w(3) sn rr nth len last
    by (intro exI [of _ ?zs] exI [of _ v']) (auto simp: add.assoc)
  with wr show ?thesis by blast
qed

lemma yp_rel_unwrite:
  assumes "yp_rel n y s"
  shows "\<exists>r y'. yp_unwrite (Suc n) y = Some (r, y') \<and> Out_item r = fst (ps_exec Unwrite s) \<and>
    yp_rel n y' (snd (ps_exec Unwrite s))"
proof -
  let ?rc = "ps_readable s @ ps_complete s"
  obtain xs v where r: "yq_cells (Suc n) (yp_queue y) xs" "map snd xs = map Some (?rc @ ps_incomplete s) @ [v]"
    "yp_w y = fst (xs ! length (ps_readable s))" "yp_f y = fst (xs ! length ?rc)"
    "yp_c y = (if ps_asleep s then None else Some (yp_w y))" "ps_asleep s \<longrightarrow> ps_readable s = []"
    "yp_r y = None \<or> (\<exists>k \<le> length (ps_readable s). yp_r y = Some (fst (xs ! k)))"
    using assms by (auto simp: yp_rel_def)
  obtain ys p where xs: "xs = ys @ [(p, v)]" "map snd ys = map Some (?rc @ ps_incomplete s)"
    using r(2) by (cases xs rule: rev_cases) auto
  have len: "length ys = length ?rc + length (ps_incomplete s)" using arg_cong [OF xs(2), of length] by simp
  have b: "yq_back_addr (yp_queue y) = Some p" using yq.cells_back r(1) xs(1) by blast
  have f: "yp_f y = p \<longleftrightarrow> ps_incomplete s = []"
    using yq.cells_addr_inj [OF r(1), of "length ?rc" "length ys"] len xs(1) r(4) by (simp add: nth_append)
  show ?thesis
  proof (cases "ps_incomplete s = []")
    case True
    with f b assms show ?thesis by (simp add: yp_unwrite_def)
  next
    case False
    then obtain ks x where ks: "ps_incomplete s = ks @ [x]" by (cases "ps_incomplete s" rule: rev_cases) auto
    then obtain zs p' where ys: "ys = zs @ [(p', Some x)]" "map snd zs = map Some (?rc @ ks)"
      using xs(2) by (cases ys rule: rev_cases) auto
    obtain q where q: "yq_unpush (Suc n) (yp_queue y) = Some q" "yq_cells (Suc n) q (zs @ [(p', Some x)])"
      using yq.cells_unpush [of n "yp_queue y" zs "(p', Some x)" "(p, v)"] r(1) xs(1) ys(1) by auto
    let ?y = "y\<lparr>yp_queue := q\<rparr>" and ?zs = "zs @ [(p', Some x)]"
    have un: "yp_unwrite (Suc n) y = Some (Some x, ?y)"
      using b f False q yq.cells_back [OF q(2)] by (simp add: yp_unwrite_def)
    have "length zs = length ?rc + length ks" using arg_cong [OF ys(2), of length] by simp
    then have nth: "?zs ! k = xs ! k" if "k \<le> length ?rc" for k
      using that xs(1) ys(1) by (simp add: nth_append)
    have rr: "yp_r y = None \<or> (\<exists>k \<le> length (ps_readable s). yp_r y = Some (fst (?zs ! k)))"
      using r(7) nth by fastforce
    have "yp_rel n ?y (s\<lparr>ps_incomplete := ks\<rparr>)" unfolding yp_rel_def
      using r(3-6) q(2) ys(2) rr nth by (intro exI [of _ ?zs] exI [of _ "Some x"]) auto
    with un ks show ?thesis by simp
  qed
qed

lemma yp_rel_flush:
  assumes "yp_rel n y s"
  shows "Out_bool (fst (yp_flush y)) = fst (ps_exec Flush s) \<and> yp_rel n (snd (yp_flush y)) (snd (ps_exec Flush s))"
proof -
  obtain xs v where r: "yq_cells (Suc n) (yp_queue y) xs"
    "map snd xs = map Some (ps_readable s @ ps_complete s @ ps_incomplete s) @ [v]"
    "yp_w y = fst (xs ! length (ps_readable s))"
    "yp_f y = fst (xs ! (length (ps_readable s) + length (ps_complete s)))"
    "yp_c y = (if ps_asleep s then None else Some (yp_w y))" "ps_asleep s \<longrightarrow> ps_readable s = []"
    "yp_r y = None \<or> (\<exists>k \<le> length (ps_readable s). yp_r y = Some (fst (xs ! k)))"
    using assms by (auto simp: yp_rel_def)
  have "length xs = length (ps_readable s) + length (ps_complete s) + length (ps_incomplete s) + 1"
    using arg_cong [OF r(2), of length] by simp
  then have wf: "yp_w y = yp_f y \<longleftrightarrow> ps_complete s = []"
    using yq.cells_addr_inj [OF r(1), of "length (ps_readable s)" "length (ps_readable s) + length (ps_complete s)"] r(3,4)
    by simp
  show ?thesis
  proof (cases "ps_complete s = []")
    case True with wf assms show ?thesis by (simp add: yp_flush_def)
  next
    case False
    have "yp_rel n (y\<lparr>yp_c := Some (yp_f y), yp_w := yp_f y\<rparr>)
        (s\<lparr>ps_readable := ps_readable s @ ps_complete s, ps_complete := [], ps_asleep := False\<rparr>)"
      unfolding yp_rel_def using r by (intro exI [of _ xs] exI [of _ v]) (auto intro: trans_le_add1)
    then show ?thesis using False wf r(5) by (simp add: yp_flush_def)
  qed
qed

lemma yp_rel_check_read:
  assumes "yp_rel n y s" "yp_check_read y = (b, y')"
  shows "b = (ps_readable s \<noteq> []) \<and> yp_rel n y' (if ps_readable s = [] then s\<lparr>ps_asleep := True\<rparr> else s) \<and>
    yp_queue y' = yp_queue y \<and> (b \<longrightarrow> yp_r y' \<noteq> None \<and> yp_r y' \<noteq> Some (yq_front_addr (yp_queue y)))"
proof -
  let ?front = "yq_front_addr (yp_queue y)"
  obtain xs v where r: "yq_cells (Suc n) (yp_queue y) xs"
    "map snd xs = map Some (ps_readable s @ ps_complete s @ ps_incomplete s) @ [v]"
    "yp_w y = fst (xs ! length (ps_readable s))"
    "yp_f y = fst (xs ! (length (ps_readable s) + length (ps_complete s)))"
    "yp_c y = (if ps_asleep s then None else Some (yp_w y))" "ps_asleep s \<longrightarrow> ps_readable s = []"
    "yp_r y = None \<or> (\<exists>k \<le> length (ps_readable s). yp_r y = Some (fst (xs ! k)))"
    using assms(1) by (auto simp: yp_rel_def)
  have len: "length xs = length (ps_readable s) + length (ps_complete s) + length (ps_incomplete s) + 1"
    using arg_cong [OF r(2), of length] by simp
  have front: "?front = fst (xs ! 0)"
  proof (cases xs)
    case (Cons a ys)
    with yq.cells_front [of n "yp_queue y" "fst a" "snd a" ys] r(1) show ?thesis by simp
  qed (use len in simp)
  have inj: "fst (xs ! k) = ?front \<longleftrightarrow> k = 0" if "k \<le> length (ps_readable s)" for k
  proof -
    have "k < length xs" "0 < length xs" using that len by auto
    then show ?thesis unfolding front by (rule yq.cells_addr_inj [OF r(1)])
  qed
  show ?thesis
  proof (cases "yp_r y \<noteq> Some ?front \<and> yp_r y \<noteq> None")
    case True
    then have "yp_r y \<noteq> None" by simp
    with r(7) obtain k where k: "k \<le> length (ps_readable s)" "yp_r y = Some (fst (xs ! k))" by (elim disjE) auto
    then have "k \<noteq> 0" using True front by (cases k) simp_all
    then have "ps_readable s \<noteq> []" using k(1) by auto
    moreover have "b" "y' = y" using True assms(2) by (auto simp: yp_check_read_def)
    ultimately show ?thesis using True assms(1) by simp
  next
    case False
    show ?thesis
    proof (cases "ps_readable s = []")
      case True
      then have c: "yp_c y = (if ps_asleep s then None else Some ?front)" using r(3,5) front by simp
      then have "b = False" "y' = y\<lparr>yp_r := yp_c y, yp_c := None\<rparr>"
        using assms(2) False by (auto simp: yp_check_read_def Let_def split: if_splits)
      moreover have "yp_rel n (y\<lparr>yp_r := yp_c y, yp_c := None\<rparr>) (s\<lparr>ps_asleep := True\<rparr>)"
        unfolding yp_rel_def using r(1-4) True c front by (intro exI [of _ xs] exI [of _ v]) auto
      ultimately show ?thesis using True by simp
    next
      case ne: False
      then have c: "yp_c y = Some (fst (xs ! length (ps_readable s)))" "yp_c y \<noteq> Some ?front"
        using r(3,5,6) inj [of "length (ps_readable s)"] by auto
      then have "b = True" "y' = y\<lparr>yp_r := yp_c y\<rparr>"
        using assms(2) False by (auto simp: yp_check_read_def Let_def split: if_splits)
      moreover have "\<exists>k \<le> length (ps_readable s). yp_c y = Some (fst (xs ! k))" using c(1) by blast
      then have "yp_rel n (y\<lparr>yp_r := yp_c y\<rparr>) s"
        unfolding yp_rel_def using r(1-6) by (intro exI [of _ xs] exI [of _ v]) simp
      ultimately show ?thesis using ne c by simp
    qed
  qed
qed

lemma yp_rel_read:
  assumes "yp_rel n y s"
  shows "\<exists>r y'. yp_read (Suc n) y = Some (r, y') \<and> Out_item r = fst (ps_exec Read s) \<and>
    yp_rel n y' (snd (ps_exec Read s))"
proof -
  obtain b y1 where c: "yp_check_read y = (b, y1)" by fastforce
  note chk = yp_rel_check_read [OF assms c]
  show ?thesis
  proof (cases "ps_readable s")
    case Nil
    with chk c show ?thesis by (simp add: yp_read_def)
  next
    case (Cons x rs)
    then have b: "b" "yp_rel n y1 s" "yp_queue y1 = yp_queue y" "yp_r y1 \<noteq> None"
      "yp_r y1 \<noteq> Some (yq_front_addr (yp_queue y1))" using chk by auto
    obtain xs v where r: "yq_cells (Suc n) (yp_queue y1) xs"
      "map snd xs = map Some (ps_readable s @ ps_complete s @ ps_incomplete s) @ [v]"
      "yp_w y1 = fst (xs ! length (ps_readable s))"
      "yp_f y1 = fst (xs ! (length (ps_readable s) + length (ps_complete s)))"
      "yp_c y1 = (if ps_asleep s then None else Some (yp_w y1))" "ps_asleep s \<longrightarrow> ps_readable s = []"
      "\<exists>k \<le> length (ps_readable s). yp_r y1 = Some (fst (xs ! k))"
      using b(2,4) by (auto simp: yp_rel_def)
    obtain p ys where xs: "xs = (p, Some x) # ys" "map snd ys = map Some (rs @ ps_complete s @ ps_incomplete s) @ [v]"
      using r(2) Cons by (cases xs) auto
    have front: "yq_front_addr (yp_queue y1) = p" "yq_front (yp_queue y1) = Some x"
      using yq.cells_front r(1) xs(1) by blast+
    obtain q where q: "yq_pop (Suc n) (yp_queue y1) = Some q" "yq_cells (Suc n) q ys"
      using yq.cells_pop r(1) xs(1) by blast
    obtain k where k: "Suc k \<le> length (ps_readable s)" "yp_r y1 = Some (fst (ys ! k))"
      using r(7) b(5) front(1) xs(1) by (metis fst_conv nth_Cons_0 nth_Cons_Suc not0_implies_Suc)
    have "yp_rel n (y1\<lparr>yp_queue := q\<rparr>) (s\<lparr>ps_readable := rs\<rparr>)"
      unfolding yp_rel_def using r(3-6) q(2) xs k Cons by (intro exI [of _ ys] exI [of _ v]) auto
    moreover have "yp_read (Suc n) y = Some (Some x, y1\<lparr>yp_queue := q\<rparr>)"
      using c b(1) front q by (simp add: yp_read_def)
    ultimately show ?thesis using Cons by simp
  qed
qed

lemma yp_exec_rel:
  assumes "yp_rel n y s"
  shows "\<exists>y'. yp_exec (Suc n) op y = Some (fst (ps_exec op s), y') \<and> yp_rel n y' (snd (ps_exec op s))"
proof (cases op)
  case (Write x inc)
  with yp_rel_write [OF assms, of x inc] show ?thesis by auto
next
  case Unwrite
  with yp_rel_unwrite [OF assms] show ?thesis by (auto simp del: ps_exec.simps)
next
  case Flush
  with yp_rel_flush [OF assms] show ?thesis by (cases "yp_flush y") (auto simp del: ps_exec.simps)
next
  case Check_read
  with yp_rel_check_read [OF assms, of "fst (yp_check_read y)" "snd (yp_check_read y)"] show ?thesis
    by (auto simp: map_prod_def split: prod.splits)
next
  case Read
  with yp_rel_read [OF assms] show ?thesis by (auto simp del: ps_exec.simps)
qed

section \<open>Runs\<close>

fun ps_run :: "'a pipe_op list \<Rightarrow> 'a pipe_spec \<Rightarrow> 'a pipe_out list \<times> 'a pipe_spec" where
  "ps_run [] s = ([], s)"
| "ps_run (op # ops) s =
     (let (r, s1) = ps_exec op s; (rs, s2) = ps_run ops s1 in (r # rs, s2))"

fun yp_run :: "nat \<Rightarrow> 'a pipe_op list \<Rightarrow> 'a ypipe \<Rightarrow> ('a pipe_out list \<times> 'a ypipe) option" where
  "yp_run N [] y = Some ([], y)"
| "yp_run N (op # ops) y =
     do {
       (r, y1) \<leftarrow> yp_exec N op y;
       (rs, y2) \<leftarrow> yp_run N ops y1;
       Some (r # rs, y2)
     }"

lemma yp_run_rel:
  "yp_rel n y s \<Longrightarrow> \<exists>y'. yp_run (Suc n) ops y = Some (fst (ps_run ops s), y') \<and> yp_rel n y' (snd (ps_run ops s))"
proof (induction ops arbitrary: y s)
  case Nil then show ?case by simp
next
  case (Cons op ops)
  obtain y1 where y1: "yp_exec (Suc n) op y = Some (fst (ps_exec op s), y1)" "yp_rel n y1 (snd (ps_exec op s))"
    using yp_exec_rel [OF Cons.prems] by blast
  from Cons.IH [OF y1(2)] y1(1) show ?case by (auto simp: Let_def split: prod.splits)
qed

lemma ps_run_Cons:
  "ps_run (op # ops) s =
     (fst (ps_exec op s) # fst (ps_run ops (snd (ps_exec op s))), snd (ps_run ops (snd (ps_exec op s))))"
  by (simp add: Let_def split: prod.splits)

declare ps_run.simps(2) [simp del] ps_run_Cons [simp]

text \<open>The items of complete batches, in the order of writing; \<open>acc\<close> is the open batch.\<close>

fun completed :: "'a pipe_op list \<Rightarrow> 'a list \<Rightarrow> 'a list" where
  "completed [] acc = []"
| "completed (Write x True # ops) acc = completed ops (acc @ [x])"
| "completed (Write x False # ops) acc = acc @ x # completed ops []"
| "completed (Unwrite # ops) acc = completed ops (butlast acc)"
| "completed (_ # ops) acc = completed ops acc"

definition items_read :: "'a pipe_op list \<Rightarrow> 'a pipe_out list \<Rightarrow> 'a list" where
  "items_read ops outs =
     concat (map (\<lambda>(op, r). case (op, r) of (Read, Out_item (Some x)) \<Rightarrow> [x] | _ \<Rightarrow> []) (zip ops outs))"

lemma items_read_simps [simp]:
  "items_read [] outs = []"
  "items_read (op # ops) (r # outs) =
     (case (op, r) of (Read, Out_item (Some x)) \<Rightarrow> [x] | _ \<Rightarrow> []) @ items_read ops outs"
  by (simp_all add: items_read_def)

lemma ps_run_items:
  assumes "ps_run ops s = (outs, s')"
  shows "items_read ops outs @ ps_readable s' @ ps_complete s' =
    ps_readable s @ ps_complete s @ completed ops (ps_incomplete s)"
  using assms
proof (induction ops arbitrary: s outs)
  case (Cons op ops)
  obtain rs where run: "ps_run ops (snd (ps_exec op s)) = (rs, s')" "outs = fst (ps_exec op s) # rs"
    using Cons.prems by (cases "ps_run ops (snd (ps_exec op s))") auto
  show ?case
  proof (cases op)
    case (Write x inc)
    with Cons.IH [OF run(1)] run(2) show ?thesis by (cases inc) auto
  next
    case Unwrite
    with Cons.IH [OF run(1)] run(2) show ?thesis by (auto split: if_splits)
  next
    case Read
    with Cons.IH [OF run(1)] run(2) show ?thesis by (cases "ps_readable s") auto
  qed (use Cons.IH [OF run(1)] run(2) in \<open>auto split: if_splits\<close>)
qed simp

lemma ps_run_length: "length (fst (ps_run ops s)) = length ops"
  by (induction ops arbitrary: s) simp_all

lemma ps_run_append:
  "ps_run (xs @ ys) s = (fst (ps_run xs s) @ fst (ps_run ys (snd (ps_run xs s))), snd (ps_run ys (snd (ps_run xs s))))"
  by (induction xs arbitrary: s) simp_all

lemma items_read_append:
  "length xs = length o1 \<Longrightarrow> items_read (xs @ ys) (o1 @ o2) = items_read xs o1 @ items_read ys o2"
  by (simp add: items_read_def)

lemma completed_append_reads: "completed (ops @ Flush # replicate k Read) acc = completed ops acc"
proof -
  have r: "completed (replicate k Read) acc = []" for acc :: "'a list" by (induction k) simp_all
  show ?thesis by (induction ops acc rule: completed.induct) (simp_all add: r)
qed

lemma ps_run_reads:
  "length (ps_readable s) \<le> k \<Longrightarrow>
   ps_readable (snd (ps_run (replicate k Read) s)) = [] \<and>
   ps_complete (snd (ps_run (replicate k Read) s)) = ps_complete s"
  by (induction k arbitrary: s) auto

lemma ps_run_asleep: "ps_asleep s \<longrightarrow> ps_readable s = [] \<Longrightarrow>
    ps_asleep (snd (ps_run ops s)) \<longrightarrow> ps_readable (snd (ps_run ops s)) = []"
proof (induction ops arbitrary: s)
  case (Cons op ops)
  have "ps_asleep (snd (ps_exec op s)) \<longrightarrow> ps_readable (snd (ps_exec op s)) = []"
    using Cons.prems by (cases op) (auto split: if_splits)
  from Cons.IH [OF this] show ?case by simp
qed simp

text \<open>
  C14. The lock-free pipe implements its specification: for every granularity and every
  interleaving of the operations of the writer and of the reader, every operation succeeds
  (no dangling pointer, no uninitialised element) and all results, the items read, the items
  taken back and the wake-up answers of \<open>flush\<close>, are those of the specification.
\<close>

theorem ypipe_refines:
  "\<exists>y y'. ypipe_new (Suc n) = Some y \<and> yp_run (Suc n) ops y = Some (fst (ps_run ops pipe_spec_new), y')"
  using yp_rel_new [of n] yp_run_rel [of n _ pipe_spec_new ops] by blast

text \<open>
  C15. The pipe is a lossless queue of complete batches: whatever the interleaving, the items read
  are a prefix of the items of the complete batches in the order in which they were written (an
  item of a batch that is still open, or was taken back, is never read), and after a flush
  sufficiently many reads deliver all of them.
\<close>

theorem ypipe_fifo:
  fixes ops :: "'a pipe_op list"
  assumes "length (completed ops []) \<le> k"
  shows "\<exists>y y' outs y'' outs'. ypipe_new (Suc n) = Some y \<and>
    yp_run (Suc n) ops y = Some (outs, y') \<and>
    (\<exists>unread. completed ops [] = items_read ops outs @ unread) \<and>
    yp_run (Suc n) (ops @ Flush # replicate k Read) y = Some (outs', y'') \<and>
    items_read (ops @ Flush # replicate k Read) outs' = completed ops []"
proof -
  let ?s = "pipe_spec_new :: 'a pipe_spec" and ?ops = "ops @ Flush # replicate k Read"
  obtain y where y: "ypipe_new (Suc n) = Some y" "yp_rel n y ?s" using yp_rel_new by blast
  obtain outs s1 where o1: "ps_run ops ?s = (outs, s1)" by fastforce
  obtain outs' s2 where o2: "ps_run ?ops ?s = (outs', s2)" by fastforce
  obtain y' y'' where run: "yp_run (Suc n) ops y = Some (outs, y')" "yp_run (Suc n) ?ops y = Some (outs', y'')"
    using yp_run_rel [OF y(2), of ops] yp_run_rel [OF y(2), of ?ops] o1 o2 by auto
  have i1: "items_read ops outs @ ps_readable s1 @ ps_complete s1 = completed ops []"
    using ps_run_items [OF o1] by (simp add: pipe_spec_new_def)
  have i2: "items_read ?ops outs' @ ps_readable s2 @ ps_complete s2 = completed ops []"
    using ps_run_items [OF o2] by (simp add: pipe_spec_new_def completed_append_reads)
  let ?f = "snd (ps_exec Flush s1)"
  have f: "ps_readable ?f = ps_readable s1 @ ps_complete s1" "ps_complete ?f = []" by auto
  then have "length (ps_readable ?f) \<le> k" using arg_cong [OF i1, of length] assms by simp
  from ps_run_reads [OF this] have "ps_readable s2 = [] \<and> ps_complete s2 = []"
    using o2 o1 f(2) by (simp add: ps_run_append del: ps_exec.simps)
  with i1 i2 y(1) run show ?thesis by (metis append_Nil2)
qed

theorem ypipe_fifo_witness:
  "\<exists>y y' outs y'' outs'. ypipe_new (Suc 1) = Some y \<and>
    yp_run (Suc 1) [Write (1 :: nat) True, Write 2 False, Write 3 False, Flush, Read] y = Some (outs, y') \<and>
    (\<exists>unread. [1, 2, 3] = items_read [Write 1 True, Write 2 False, Write 3 False, Flush, Read] outs @ unread) \<and>
    yp_run (Suc 1) ([Write 1 True, Write 2 False, Write 3 False, Flush, Read] @ Flush # replicate 3 Read) y =
      Some (outs', y'') \<and>
    items_read ([Write 1 True, Write 2 False, Write 3 False, Flush, Read] @ Flush # replicate 3 Read) outs' = [1, 2, 3]"
proof -
  have c: "completed [Write (1 :: nat) True, Write 2 False, Write 3 False, Flush, Read] [] = [1, 2, 3]" by simp
  show ?thesis
    using ypipe_fifo [of "[Write (1 :: nat) True, Write 2 False, Write 3 False, Flush, Read]" 3 1] unfolding c by simp
qed

text \<open>
  C16. No wake-up is lost and none is spurious: after any run, if the reader then finds the pipe
  empty, the next flush of a new item reports that the reader sleeps, and otherwise it reports
  that the reader is awake.
\<close>

theorem ypipe_wakeup:
  "\<exists>y y' outs b. ypipe_new (Suc n) = Some y \<and>
    yp_run (Suc n) (ops @ [Check_read, Write x False, Flush]) y =
      Some (outs @ [Out_bool b, Out_none, Out_bool b], y')"
proof -
  let ?s = "pipe_spec_new :: 'a pipe_spec" and ?ops = "ops @ [Check_read, Write x False, Flush]"
  obtain y where y: "ypipe_new (Suc n) = Some y" "yp_rel n y ?s" using yp_rel_new by blast
  obtain outs s1 where o1: "ps_run ops ?s = (outs, s1)" by fastforce
  have "ps_asleep s1 \<longrightarrow> ps_readable s1 = []" using ps_run_asleep [of ?s ops] o1 by (simp add: pipe_spec_new_def)
  then have "fst (ps_run ?ops ?s) = outs @ [Out_bool (ps_readable s1 \<noteq> []), Out_none, Out_bool (ps_readable s1 \<noteq> [])]"
    using o1 by (auto simp: ps_run_append)
  with yp_run_rel [OF y(2), of ?ops] y(1) show ?thesis by metis
qed

end
