(* ===== verification/Conflate.thy ===== *)
theory Conflate
  imports Prelude
begin

text \<open>
  The pipe that keeps only the last message: the double buffer of \<open>src/dbuffer.hpp\<close> and its
  adapter \<open>src/ypipe_conflate.hpp\<close>.  The writer gives up its swap when the reader holds the
  lock; \<open>locked\<close> tells whether it does.  \<open>e\<close> is the empty message that \<open>init\<close> makes.
\<close>

record 'a dbuffer =
  db_back :: 'a
  db_front :: 'a
  db_has_msg :: bool

definition dbuffer_new :: "'a \<Rightarrow> 'a dbuffer" where
  "dbuffer_new e = \<lparr>db_back = e, db_front = e, db_has_msg = False\<rparr>"

definition db_write :: "'a \<Rightarrow> bool \<Rightarrow> 'a dbuffer \<Rightarrow> 'a dbuffer" where
  "db_write x locked d =
     (let d1 = d\<lparr>db_back := x\<rparr> in
      if locked then d1
      else d1\<lparr>db_back := db_front d1, db_front := db_back d1, db_has_msg := True\<rparr>)"

definition db_read :: "'a \<Rightarrow> 'a dbuffer \<Rightarrow> 'a option \<times> 'a dbuffer" where
  "db_read e d =
     (if \<not> db_has_msg d then (None, d)
      else (Some (db_front d), d\<lparr>db_front := e, db_has_msg := False\<rparr>))"

definition db_check_read :: "'a dbuffer \<Rightarrow> bool" where
  "db_check_read d = db_has_msg d"

definition db_probe :: "('a \<Rightarrow> bool) \<Rightarrow> 'a dbuffer \<Rightarrow> bool" where
  "db_probe fn d = fn (db_front d)"

record 'a conflate =
  cf_dbuffer :: "'a dbuffer"
  cf_reader_awake :: bool

definition conflate_new :: "'a \<Rightarrow> 'a conflate" where
  "conflate_new e = \<lparr>cf_dbuffer = dbuffer_new e, cf_reader_awake = False\<rparr>"

definition cf_write :: "'a \<Rightarrow> bool \<Rightarrow> 'a conflate \<Rightarrow> 'a conflate" where
  "cf_write x locked c = c\<lparr>cf_dbuffer := db_write x locked (cf_dbuffer c)\<rparr>"

definition cf_unwrite :: "'a conflate \<Rightarrow> 'a option" where
  "cf_unwrite c = None"

definition cf_flush :: "'a conflate \<Rightarrow> bool" where
  "cf_flush c = cf_reader_awake c"

definition cf_check_read :: "'a conflate \<Rightarrow> bool \<times> 'a conflate" where
  "cf_check_read c =
     (let res = db_check_read (cf_dbuffer c) in
      (res, if res then c else c\<lparr>cf_reader_awake := False\<rparr>))"

definition cf_read :: "'a \<Rightarrow> 'a conflate \<Rightarrow> 'a option \<times> 'a conflate" where
  "cf_read e c =
     (case cf_check_read c of
        (False, c') \<Rightarrow> (None, c')
      | (True, c') \<Rightarrow> (case db_read e (cf_dbuffer c') of (r, d) \<Rightarrow> (r, c'\<lparr>cf_dbuffer := d\<rparr>)))"

definition cf_probe :: "('a \<Rightarrow> bool) \<Rightarrow> 'a conflate \<Rightarrow> bool" where
  "cf_probe fn c = db_probe fn (cf_dbuffer c)"

section \<open>Behaviour\<close>

datatype 'a cf_op = Cf_write 'a bool | Cf_unwrite | Cf_flush | Cf_check_read | Cf_read

datatype 'a cf_out = Cf_none | Cf_bool bool | Cf_item "'a option"

fun cf_exec :: "'a \<Rightarrow> 'a cf_op \<Rightarrow> 'a conflate \<Rightarrow> 'a cf_out \<times> 'a conflate" where
  "cf_exec e (Cf_write x locked) c = (Cf_none, cf_write x locked c)"
| "cf_exec e Cf_unwrite c = (Cf_item (cf_unwrite c), c)"
| "cf_exec e Cf_flush c = (Cf_bool (cf_flush c), c)"
| "cf_exec e Cf_check_read c = map_prod Cf_bool id (cf_check_read c)"
| "cf_exec e Cf_read c = map_prod Cf_item id (cf_read e c)"

fun cf_run :: "'a \<Rightarrow> 'a cf_op list \<Rightarrow> 'a conflate \<Rightarrow> 'a cf_out list" where
  "cf_run e [] c = []"
| "cf_run e (op # ops) c = (let (r, c') = cf_exec e op c in r # cf_run e ops c')"

text \<open>The specification: the last message that was published and not read yet.\<close>

fun latest_exec :: "'a cf_op \<Rightarrow> 'a option \<Rightarrow> 'a cf_out \<times> 'a option" where
  "latest_exec (Cf_write x locked) l = (Cf_none, if locked then l else Some x)"
| "latest_exec Cf_unwrite l = (Cf_item None, l)"
| "latest_exec Cf_flush l = (Cf_bool False, l)"
| "latest_exec Cf_check_read l = (Cf_bool (l \<noteq> None), l)"
| "latest_exec Cf_read l = (Cf_item l, None)"

fun latest_run :: "'a cf_op list \<Rightarrow> 'a option \<Rightarrow> 'a cf_out list" where
  "latest_run [] l = []"
| "latest_run (op # ops) l = (let (r, l') = latest_exec op l in r # latest_run ops l')"

definition cf_rel :: "'a conflate \<Rightarrow> 'a option \<Rightarrow> bool" where
  "cf_rel c l \<longleftrightarrow> \<not> cf_reader_awake c \<and>
     (if db_has_msg (cf_dbuffer c) then l = Some (db_front (cf_dbuffer c)) else l = None)"

lemmas cf_defs = cf_write_def cf_unwrite_def cf_flush_def cf_check_read_def cf_read_def db_write_def
  db_read_def db_check_read_def

lemma cf_exec_rel:
  "cf_rel c l \<Longrightarrow> fst (cf_exec e op c) = fst (latest_exec op l) \<and> cf_rel (snd (cf_exec e op c)) (snd (latest_exec op l))"
  by (cases op) (auto simp: cf_rel_def cf_defs Let_def split: if_splits)

lemma cf_run_rel: "cf_rel c l \<Longrightarrow> cf_run e ops c = latest_run ops l"
proof (induction ops arbitrary: c l)
  case (Cons op ops)
  obtain r c' where c: "cf_exec e op c = (r, c')" by fastforce
  obtain r' l' where l: "latest_exec op l = (r', l')" by fastforce
  have "r = r'" "cf_rel c' l'" using cf_exec_rel [OF Cons.prems, of e op] c l by simp_all
  with Cons.IH [of c' l'] c l show ?case by simp
qed simp

text \<open>
  C17. The conflating pipe delivers the last message that was published, once: all results of any
  run are those of a one-place buffer.  A message written while the reader holds the lock is not
  published.  \<open>flush\<close> answers in every state that the reader sleeps.
\<close>

theorem conflate_latest: "cf_run e ops (conflate_new e) = latest_run ops None"
  by (rule cf_run_rel) (simp add: cf_rel_def conflate_new_def dbuffer_new_def)

end
