(* ===== verification/Pipe.thy ===== *)
theory Pipe
  imports Frame Ypipe Conflate "HOL-Library.Signed_Division"
begin

text \<open>
  The pipe endpoints of \<open>src/pipe.cpp\<close>.  The two endpoints of a pair share two one-way pipes,
  which are held in a store by address (\<open>pe_up\<close>): a normal one is the specification that
  \<open>ypipe_t\<close> implements, a conflating one is \<open>ypipe_conflate_t\<close>.  An operation on one
  endpoint works on the endpoint and on an environment: the store, the commands it sends to its
  peer, and the events it reports to its sink.  The result is \<open>None\<close> where an assertion fails
  or a one-way pipe is used that is \<open>NULL\<close> or was deallocated.
\<close>

section \<open>One-way pipes\<close>

datatype upipe = Fifo "frame pipe_spec" | Single "frame conflate"

definition up_new :: "bool \<Rightarrow> upipe" where
  "up_new conflate = (if conflate then Single (conflate_new empty_frame) else Fifo pipe_spec_new)"

fun up_check_read :: "upipe \<Rightarrow> bool \<times> upipe" where
  "up_check_read (Fifo s) = (ps_readable s \<noteq> [], Fifo (snd (ps_exec Check_read s)))"
| "up_check_read (Single c) = map_prod id Single (cf_check_read c)"

fun up_read :: "upipe \<Rightarrow> frame option \<times> upipe" where
  "up_read (Fifo s) =
     (if ps_readable s = [] then None else Some (hd (ps_readable s)), Fifo (snd (ps_exec Read s)))"
| "up_read (Single c) = map_prod id Single (cf_read empty_frame c)"

fun up_write :: "frame \<Rightarrow> bool \<Rightarrow> upipe \<Rightarrow> upipe" where
  "up_write f inc (Fifo s) = Fifo (snd (ps_exec (Write f inc) s))"
| "up_write f inc (Single c) = Single (cf_write f False c)"

fun up_unwrite :: "upipe \<Rightarrow> frame option \<times> upipe" where
  "up_unwrite (Fifo s) =
     (if ps_incomplete s = [] then None else Some (last (ps_incomplete s)), Fifo (snd (ps_exec Unwrite s)))"
| "up_unwrite (Single c) = (cf_unwrite c, Single c)"

fun up_flush :: "upipe \<Rightarrow> upipe" where
  "up_flush (Fifo s) = Fifo (snd (ps_exec Flush s))"
| "up_flush (Single c) = Single c"

fun up_probe :: "(frame \<Rightarrow> bool) \<Rightarrow> upipe \<Rightarrow> bool option" where
  "up_probe fn (Fifo s) = (if ps_readable s = [] then None else Some (fn (hd (ps_readable s))))"
| "up_probe fn (Single c) = Some (cf_probe fn c)"

text \<open>The number of items that can be read, and of items that can be taken back.\<close>

fun up_avail :: "upipe \<Rightarrow> nat" where
  "up_avail (Fifo s) = length (ps_readable s)"
| "up_avail (Single c) = (if db_has_msg (cf_dbuffer c) then 1 else 0)"

fun up_open :: "upipe \<Rightarrow> nat" where
  "up_open (Fifo s) = length (ps_incomplete s)"
| "up_open (Single c) = 0"

lemma up_read_avail: "up_read u = (Some f, u') \<Longrightarrow> up_avail u' < up_avail u"
  by (cases u) (auto simp: cf_read_def cf_check_read_def db_read_def db_check_read_def Let_def split: if_splits)

lemma up_unwrite_open: "up_unwrite u = (Some f, u') \<Longrightarrow> up_open u' < up_open u"
  by (cases u) (auto simp: cf_unwrite_def split: if_splits)

section \<open>Endpoints\<close>

datatype pipe_state = Active | Delimiter_received | Waiting_for_delimiter | Term_ack_sent
  | Term_req_sent1 | Term_req_sent2

datatype pipe_cmd = Activate_read | Activate_write u64 | Hiccup nat | Pipe_term | Pipe_term_ack
  | Pipe_hwm int int

datatype pipe_event = Read_activated | Write_activated | Hiccuped | Pipe_terminated

record pipe =
  pp_inpipe :: "nat option"
  pp_outpipe :: "nat option"
  pp_in_active :: bool
  pp_out_active :: bool
  pp_hwm :: int
  pp_lwm :: int
  pp_inhwmboost :: int
  pp_outhwmboost :: int
  pp_msgs_read :: u64
  pp_msgs_written :: u64
  pp_peers_msgs_read :: u64
  pp_state :: pipe_state
  pp_delay :: bool
  pp_router_id :: "byte list"
  pp_server_id :: u32
  pp_credential :: "byte list"
  pp_conflate :: bool

record pipe_env =
  pe_up :: "nat \<Rightarrow> upipe option"
  pe_fresh :: nat
  pe_cmds :: "pipe_cmd list"
  pe_events :: "pipe_event list"

definition send_cmd :: "pipe_cmd \<Rightarrow> pipe_env \<Rightarrow> pipe_env" where
  "send_cmd c e = e\<lparr>pe_cmds := pe_cmds e @ [c]\<rparr>"

definition notify_sink :: "pipe_event \<Rightarrow> pipe_env \<Rightarrow> pipe_env" where
  "notify_sink ev e = e\<lparr>pe_events := pe_events e @ [ev]\<rparr>"

definition set_up :: "nat \<Rightarrow> upipe option \<Rightarrow> pipe_env \<Rightarrow> pipe_env" where
  "set_up a u e = e\<lparr>pe_up := (pe_up e)(a := u)\<rparr>"

text \<open>\<open>(hwm + 1) / 2\<close> with the division of C.\<close>

definition compute_lwm :: "int \<Rightarrow> int" where
  "compute_lwm hwm = (hwm + 1) sdiv 2"

definition pipe_new :: "nat \<Rightarrow> nat \<Rightarrow> int \<Rightarrow> int \<Rightarrow> bool \<Rightarrow> pipe" where
  "pipe_new inpipe outpipe inhwm outhwm conflate =
     \<lparr>pp_inpipe = Some inpipe, pp_outpipe = Some outpipe, pp_in_active = True, pp_out_active = True,
      pp_hwm = outhwm, pp_lwm = compute_lwm inhwm, pp_inhwmboost = -1, pp_outhwmboost = -1,
      pp_msgs_read = 0, pp_msgs_written = 0, pp_peers_msgs_read = 0, pp_state = Active,
      pp_delay = True, pp_router_id = [], pp_server_id = 0, pp_credential = [], pp_conflate = conflate\<rparr>"

definition pipepair :: "int \<times> int \<Rightarrow> bool \<times> bool \<Rightarrow> pipe \<times> pipe \<times> pipe_env" where
  "pipepair hwms conflate =
     (pipe_new 0 1 (snd hwms) (fst hwms) (fst conflate),
      pipe_new 1 0 (fst hwms) (snd hwms) (snd conflate),
      \<lparr>pe_up = [0 \<mapsto> up_new (fst conflate), 1 \<mapsto> up_new (snd conflate)], pe_fresh = 2,
       pe_cmds = [], pe_events = []\<rparr>)"

definition is_delimiter :: "frame \<Rightarrow> bool" where
  "is_delimiter f = (f_kind f = Delim)"

definition f_is_routing_id :: "frame \<Rightarrow> bool" where
  "f_is_routing_id f = has_flag flag_routing_id f"

definition f_is_credential :: "frame \<Rightarrow> bool" where
  "f_is_credential f = has_flag flag_credential f"

definition process_delimiter :: "pipe \<Rightarrow> pipe_env \<Rightarrow> (pipe \<times> pipe_env) option" where
  "process_delimiter p e =
     (case pp_state p of
        Active \<Rightarrow> Some (p\<lparr>pp_state := Delimiter_received\<rparr>, e)
      | Waiting_for_delimiter \<Rightarrow>
          Some (p\<lparr>pp_outpipe := None, pp_state := Term_ack_sent\<rparr>, send_cmd Pipe_term_ack e)
      | _ \<Rightarrow> None)"

definition can_read :: "pipe \<Rightarrow> bool" where
  "can_read p \<longleftrightarrow> pp_in_active p \<and> (pp_state p = Active \<or> pp_state p = Waiting_for_delimiter)"

definition pipe_check_read :: "pipe \<Rightarrow> pipe_env \<Rightarrow> (bool \<times> pipe \<times> pipe_env) option" where
  "pipe_check_read p e =
     (if \<not> can_read p then Some (False, p, e)
      else do {
        i \<leftarrow> pp_inpipe p;
        u \<leftarrow> pe_up e i;
        (case up_check_read u of
           (False, u1) \<Rightarrow> Some (False, p\<lparr>pp_in_active := False\<rparr>, set_up i (Some u1) e)
         | (True, u1) \<Rightarrow>
             do {
               d \<leftarrow> up_probe is_delimiter u1;
               (if d
                then (case up_read u1 of
                        (None, _) \<Rightarrow> None
                      | (Some _, u2) \<Rightarrow> map_option (Pair False) (process_delimiter p (set_up i (Some u2) e)))
                else Some (True, p, set_up i (Some u1) e))
             })
      })"

text \<open>Reading a message; the contents of credential messages are kept and skipped.\<close>

function (sequential) up_read_message :: "upipe \<Rightarrow> byte list \<Rightarrow> frame option \<times> upipe \<times> byte list" where
  "up_read_message u cred =
     (case up_read u of
        (None, u') \<Rightarrow> (None, u', cred)
      | (Some f, u') \<Rightarrow>
          (if f_is_credential f then up_read_message u' (f_data f) else (Some f, u', cred)))"
  by pat_completeness auto
termination
  by (relation "measure (\<lambda>(u, cred). up_avail u)") (auto dest: up_read_avail [OF sym])

declare up_read_message.simps [simp del]

definition pipe_read :: "pipe \<Rightarrow> pipe_env \<Rightarrow> (frame option \<times> pipe \<times> pipe_env) option" where
  "pipe_read p e =
     (if \<not> can_read p then Some (None, p, e)
      else do {
        i \<leftarrow> pp_inpipe p;
        u \<leftarrow> pe_up e i;
        (case up_read_message u (pp_credential p) of
           (None, u', cred) \<Rightarrow>
             Some (None, p\<lparr>pp_in_active := False, pp_credential := cred\<rparr>, set_up i (Some u') e)
         | (Some f, u', cred) \<Rightarrow>
             (let p1 = p\<lparr>pp_credential := cred\<rparr>; e1 = set_up i (Some u') e in
              if is_delimiter f then map_option (Pair None) (process_delimiter p1 e1)
              else (let n = (if \<not> f_more f \<and> \<not> f_is_routing_id f then pp_msgs_read p + 1
                             else pp_msgs_read p);
                        p2 = p1\<lparr>pp_msgs_read := n\<rparr> in
                    Some (Some f, p2,
                          if 0 < pp_lwm p \<and> n mod of_int (pp_lwm p) = 0
                          then send_cmd (Activate_write n) e1 else e1))))
      })"

definition check_hwm :: "pipe \<Rightarrow> bool" where
  "check_hwm p \<longleftrightarrow>
     \<not> (0 < pp_hwm p \<and> of_int (pp_hwm p) \<le> pp_msgs_written p - pp_peers_msgs_read p)"

definition pipe_check_write :: "pipe \<Rightarrow> bool \<times> pipe" where
  "pipe_check_write p =
     (if \<not> pp_out_active p \<or> pp_state p \<noteq> Active then (False, p)
      else if \<not> check_hwm p then (False, p\<lparr>pp_out_active := False\<rparr>)
      else (True, p))"

definition pipe_write :: "frame \<Rightarrow> pipe \<Rightarrow> pipe_env \<Rightarrow> (bool \<times> pipe \<times> pipe_env) option" where
  "pipe_write f p e =
     (case pipe_check_write p of
        (False, p') \<Rightarrow> Some (False, p', e)
      | (True, p') \<Rightarrow>
          do {
            i \<leftarrow> pp_outpipe p';
            u \<leftarrow> pe_up e i;
            Some (True,
                  (if \<not> f_more f \<and> \<not> f_is_routing_id f
                   then p'\<lparr>pp_msgs_written := pp_msgs_written p' + 1\<rparr> else p'),
                  set_up i (Some (up_write f (f_more f) u)) e)
          })"

text \<open>The loop of \<open>rollback\<close>; only frames with the flag \<open>more\<close> may be taken back.\<close>

function (sequential) up_rollback :: "upipe \<Rightarrow> upipe option" where
  "up_rollback u =
     (case up_unwrite u of
        (None, u') \<Rightarrow> Some u'
      | (Some f, u') \<Rightarrow> (if f_more f then up_rollback u' else None))"
  by pat_completeness auto
termination
  by (relation "measure up_open") (auto dest: up_unwrite_open [OF sym])

declare up_rollback.simps [simp del]

definition pipe_rollback :: "pipe \<Rightarrow> pipe_env \<Rightarrow> pipe_env option" where
  "pipe_rollback p e =
     (case pp_outpipe p of
        None \<Rightarrow> Some e
      | Some i \<Rightarrow> do { u \<leftarrow> pe_up e i; u' \<leftarrow> up_rollback u; Some (set_up i (Some u') e) })"

definition pipe_flush :: "pipe \<Rightarrow> pipe_env \<Rightarrow> pipe_env option" where
  "pipe_flush p e =
     (if pp_state p = Term_ack_sent then Some e
      else (case pp_outpipe p of
              None \<Rightarrow> Some e
            | Some i \<Rightarrow>
                do { u \<leftarrow> pe_up e i; Some (send_cmd Activate_read (set_up i (Some (up_flush u)) e)) }))"

definition process_activate_read :: "pipe \<Rightarrow> pipe_env \<Rightarrow> pipe \<times> pipe_env" where
  "process_activate_read p e =
     (if \<not> pp_in_active p \<and> (pp_state p = Active \<or> pp_state p = Waiting_for_delimiter)
      then (p\<lparr>pp_in_active := True\<rparr>, notify_sink Read_activated e)
      else (p, e))"

definition process_activate_write :: "u64 \<Rightarrow> pipe \<Rightarrow> pipe_env \<Rightarrow> pipe \<times> pipe_env" where
  "process_activate_write n p e =
     (let p1 = p\<lparr>pp_peers_msgs_read := n\<rparr> in
      if \<not> pp_out_active p1 \<and> pp_state p1 = Active
      then (p1\<lparr>pp_out_active := True\<rparr>, notify_sink Write_activated e)
      else (p1, e))"

text \<open>The loop of \<open>process_hiccup\<close> that empties the old outbound pipe.\<close>

function (sequential) up_drain :: "upipe \<Rightarrow> u64 \<Rightarrow> upipe \<times> u64" where
  "up_drain u n =
     (case up_read u of
        (None, u') \<Rightarrow> (u', n)
      | (Some f, u') \<Rightarrow> up_drain u' (if f_more f then n else n - 1))"
  by pat_completeness auto
termination
  by (relation "measure (\<lambda>(u, n). up_avail u)") (auto dest: up_read_avail [OF sym])

declare up_drain.simps [simp del]

definition process_hiccup :: "nat \<Rightarrow> pipe \<Rightarrow> pipe_env \<Rightarrow> (pipe \<times> pipe_env) option" where
  "process_hiccup new p e =
     do {
       i \<leftarrow> pp_outpipe p;
       u \<leftarrow> pe_up e i;
       (let n = snd (up_drain (up_flush u) (pp_msgs_written p));
            p1 = p\<lparr>pp_msgs_written := n, pp_outpipe := Some new, pp_out_active := True\<rparr>;
            e1 = set_up i None e
        in Some (p1, if pp_state p = Active then notify_sink Hiccuped e1 else e1))
     }"

definition process_pipe_term :: "pipe \<Rightarrow> pipe_env \<Rightarrow> (pipe \<times> pipe_env) option" where
  "process_pipe_term p e =
     (case pp_state p of
        Active \<Rightarrow>
          (if pp_delay p then Some (p\<lparr>pp_state := Waiting_for_delimiter\<rparr>, e)
           else Some (p\<lparr>pp_state := Term_ack_sent, pp_outpipe := None\<rparr>, send_cmd Pipe_term_ack e))
      | Delimiter_received \<Rightarrow>
          Some (p\<lparr>pp_state := Term_ack_sent, pp_outpipe := None\<rparr>, send_cmd Pipe_term_ack e)
      | Term_req_sent1 \<Rightarrow>
          Some (p\<lparr>pp_state := Term_req_sent2, pp_outpipe := None\<rparr>, send_cmd Pipe_term_ack e)
      | _ \<Rightarrow> None)"

text \<open>The endpoint deallocates the inbound pipe and itself.\<close>

definition process_pipe_term_ack :: "pipe \<Rightarrow> pipe_env \<Rightarrow> pipe_env option" where
  "process_pipe_term_ack p e =
     (let e1 = notify_sink Pipe_terminated e in
      do {
        e2 \<leftarrow> (if pp_state p = Term_req_sent1 then Some (send_cmd Pipe_term_ack e1)
              else do { zmq_assert (pp_state p = Term_ack_sent \<or> pp_state p = Term_req_sent2); Some e1 });
        i \<leftarrow> pp_inpipe p;
        _ \<leftarrow> pe_up e2 i;
        Some (set_up i None e2)
      })"

definition pipe_set_hwms :: "int \<Rightarrow> int \<Rightarrow> pipe \<Rightarrow> pipe" where
  "pipe_set_hwms inhwm outhwm p =
     (let inb = (if inhwm \<le> 0 \<or> pp_inhwmboost p = 0 then 0
                 else inhwm + (if 0 < pp_inhwmboost p then pp_inhwmboost p else 0));
          outb = (if outhwm \<le> 0 \<or> pp_outhwmboost p = 0 then 0
                  else outhwm + (if 0 < pp_outhwmboost p then pp_outhwmboost p else 0))
      in p\<lparr>pp_lwm := compute_lwm inb, pp_hwm := outb\<rparr>)"

definition pipe_set_hwms_boost :: "int \<Rightarrow> int \<Rightarrow> pipe \<Rightarrow> pipe" where
  "pipe_set_hwms_boost inboost outboost p = p\<lparr>pp_inhwmboost := inboost, pp_outhwmboost := outboost\<rparr>"

definition pipe_send_hwms_to_peer :: "int \<Rightarrow> int \<Rightarrow> pipe_env \<Rightarrow> pipe_env" where
  "pipe_send_hwms_to_peer inhwm outhwm e = send_cmd (Pipe_hwm inhwm outhwm) e"

definition pipe_set_nodelay :: "pipe \<Rightarrow> pipe" where
  "pipe_set_nodelay p = p\<lparr>pp_delay := False\<rparr>"

text \<open>The end of \<open>terminate\<close>: the outbound flow stops and a delimiter is written.\<close>

definition write_delimiter :: "pipe \<Rightarrow> pipe_env \<Rightarrow> (pipe \<times> pipe_env) option" where
  "write_delimiter p e =
     (let p1 = p\<lparr>pp_out_active := False\<rparr> in
      case pp_outpipe p1 of
        None \<Rightarrow> Some (p1, e)
      | Some i \<Rightarrow>
          do {
            e1 \<leftarrow> pipe_rollback p1 e;
            u \<leftarrow> pe_up e1 i;
            e2 \<leftarrow> pipe_flush p1 (set_up i (Some (up_write delimiter_frame False u)) e1);
            Some (p1, e2)
          })"

definition pipe_terminate :: "bool \<Rightarrow> pipe \<Rightarrow> pipe_env \<Rightarrow> (pipe \<times> pipe_env) option" where
  "pipe_terminate delay p e =
     (let p1 = p\<lparr>pp_delay := delay\<rparr> in
      case pp_state p1 of
        Term_req_sent1 \<Rightarrow> Some (p1, e)
      | Term_req_sent2 \<Rightarrow> Some (p1, e)
      | Term_ack_sent \<Rightarrow> Some (p1, e)
      | Active \<Rightarrow> write_delimiter (p1\<lparr>pp_state := Term_req_sent1\<rparr>) (send_cmd Pipe_term e)
      | Waiting_for_delimiter \<Rightarrow>
          (if \<not> delay
           then do {
             e1 \<leftarrow> pipe_rollback p1 e;
             write_delimiter (p1\<lparr>pp_outpipe := None, pp_state := Term_ack_sent\<rparr>) (send_cmd Pipe_term_ack e1)
           }
           else write_delimiter p1 e)
      | Delimiter_received \<Rightarrow> write_delimiter (p1\<lparr>pp_state := Term_req_sent1\<rparr>) (send_cmd Pipe_term e))"

definition pipe_hiccup :: "pipe \<Rightarrow> pipe_env \<Rightarrow> pipe \<times> pipe_env" where
  "pipe_hiccup p e =
     (if pp_state p \<noteq> Active then (p, e)
      else (p\<lparr>pp_inpipe := Some (pe_fresh e), pp_in_active := True\<rparr>,
            send_cmd (Hiccup (pe_fresh e))
              (e\<lparr>pe_up := (pe_up e)(pe_fresh e \<mapsto> up_new (pp_conflate p)), pe_fresh := Suc (pe_fresh e)\<rparr>)))"

definition set_router_socket_routing_id :: "byte list \<Rightarrow> pipe \<Rightarrow> pipe" where
  "set_router_socket_routing_id rid p = p\<lparr>pp_router_id := rid\<rparr>"

definition set_server_socket_routing_id :: "u32 \<Rightarrow> pipe \<Rightarrow> pipe" where
  "set_server_socket_routing_id rid p = p\<lparr>pp_server_id := rid\<rparr>"

section \<open>Flow control\<close>

text \<open>
  C18. The high water mark holds: after a successful write at most \<open>hwm\<close> messages are written
  that the reader has not yet confirmed.  A write that is refused leaves the one-way pipes and the
  endpoint as they are, apart from the flag that makes the writer wait.
\<close>

theorem hwm_respected:
  assumes "0 < pp_hwm p" "pp_hwm p < 2 ^ 31"
    and "pipe_write f p e = Some (ok, p', e')"
  shows "if ok then unat (pp_msgs_written p' - pp_peers_msgs_read p') \<le> nat (pp_hwm p)
    else e' = e \<and> p' = p\<lparr>pp_out_active := pp_out_active p'\<rparr>"
proof (cases ok)
  case True
  have h: "unat (of_int (pp_hwm p) :: u64) = nat (pp_hwm p)"
    using assms(1,2) by (simp add: unsigned_of_int take_bit_int_eq_self unat_eq_nat_uint)
  from True assms(3) have c: "check_hwm p" and p': "p' = p \<or> p' = p\<lparr>pp_msgs_written := pp_msgs_written p + 1\<rparr>"
    by (auto simp: pipe_write_def pipe_check_write_def split: if_splits bind_splits)
  have lt: "unat (pp_msgs_written p - pp_peers_msgs_read p) < nat (pp_hwm p)"
    using c assms(1) h by (simp add: check_hwm_def word_le_nat_alt)
  then have "unat (pp_msgs_written p + 1 - pp_peers_msgs_read p) = Suc (unat (pp_msgs_written p - pp_peers_msgs_read p))"
    using assms(2) by (simp add: diff_add_eq [symmetric] unat_word_ariths)
  with lt p' True show ?thesis by auto
next
  case False
  with assms(3) show ?thesis
    by (auto simp: pipe_write_def pipe_check_write_def split: if_splits bind_splits)
qed

theorem hwm_respected_witness:
  "\<exists>p' e'. pipe_write (data_frame 0 [1]) (fst (pipepair (1, 1) (False, False)))
      (snd (snd (pipepair (1, 1) (False, False)))) = Some (True, p', e') \<and>
    unat (pp_msgs_written p' - pp_peers_msgs_read p') \<le> 1"
proof -
  let ?p = "fst (pipepair (1, 1) (False, False))" and ?e = "snd (snd (pipepair (1, 1) (False, False)))"
  obtain p' e' where w: "pipe_write (data_frame 0 [1]) ?p ?e = Some (True, p', e')"
    by (simp add: pipepair_def pipe_new_def pipe_write_def pipe_check_write_def check_hwm_def up_new_def)
  moreover have "0 < pp_hwm ?p" "pp_hwm ?p < 2 ^ 31" "pp_hwm ?p = 1" by (simp_all add: pipepair_def pipe_new_def)
  ultimately show ?thesis using hwm_respected [of ?p "data_frame 0 [1]" ?e True p' e'] by auto
qed

text \<open>Reading several messages in a row.\<close>

fun pipe_reads :: "nat \<Rightarrow> pipe \<Rightarrow> pipe_env \<Rightarrow> (frame list \<times> pipe \<times> pipe_env) option" where
  "pipe_reads 0 p e = Some ([], p, e)"
| "pipe_reads (Suc k) p e =
     (case pipe_read p e of
        Some (Some f, p1, e1) \<Rightarrow> map_option (\<lambda>(fs, p2, e2). (f # fs, p2, e2)) (pipe_reads k p1 e1)
      | _ \<Rightarrow> None)"

definition plain_frame :: "frame \<Rightarrow> bool" where
  "plain_frame f \<longleftrightarrow> \<not> is_delimiter f \<and> \<not> f_is_credential f \<and> \<not> f_is_routing_id f \<and> \<not> f_more f"

lemma pipe_read_plain:
  assumes "can_read p" "pp_inpipe p = Some i" "pe_up e i = Some (Fifo s)" "ps_readable s = f # fs" "plain_frame f"
  shows "\<exists>e'. pipe_read p e = Some (Some f, p\<lparr>pp_msgs_read := pp_msgs_read p + 1\<rparr>, e') \<and>
    pe_up e' i = Some (Fifo (s\<lparr>ps_readable := fs\<rparr>)) \<and> set (pe_cmds e) \<subseteq> set (pe_cmds e') \<and>
    (0 < pp_lwm p \<and> (pp_msgs_read p + 1) mod of_int (pp_lwm p) = 0 \<longrightarrow>
      Activate_write (pp_msgs_read p + 1) \<in> set (pe_cmds e'))"
  using assms
  by (auto simp: pipe_read_def up_read_message.simps [of "Fifo s"] plain_frame_def set_up_def send_cmd_def Let_def)

lemma pipe_reads_plain:
  assumes "can_read p" "pp_inpipe p = Some i" "pe_up e i = Some (Fifo s)" "ps_readable s = fs @ gs"
    and "list_all plain_frame fs" "fs \<noteq> []" "0 < pp_lwm p"
    and "(pp_msgs_read p + of_nat (length fs)) mod of_int (pp_lwm p) = 0"
  shows "\<exists>p' e'. pipe_reads (length fs) p e = Some (fs, p', e') \<and>
    Activate_write (pp_msgs_read p + of_nat (length fs)) \<in> set (pe_cmds e')"
  using assms
proof (induction fs arbitrary: p e s)
  case (Cons f fs)
  let ?p = "p\<lparr>pp_msgs_read := pp_msgs_read p + 1\<rparr>"
  obtain e1 where e1: "pipe_read p e = Some (Some f, ?p, e1)" "pe_up e1 i = Some (Fifo (s\<lparr>ps_readable := fs @ gs\<rparr>))"
    "set (pe_cmds e) \<subseteq> set (pe_cmds e1)"
    "0 < pp_lwm p \<and> (pp_msgs_read p + 1) mod of_int (pp_lwm p) = 0 \<longrightarrow>
      Activate_write (pp_msgs_read p + 1) \<in> set (pe_cmds e1)"
    using pipe_read_plain [OF Cons.prems(1-3), of f "fs @ gs"] Cons.prems(4,5) by auto
  have sum: "pp_msgs_read ?p + of_nat (length fs) = pp_msgs_read p + of_nat (length (f # fs))" by simp
  show ?case
  proof (cases "fs = []")
    case True
    with e1 Cons.prems(7,8) show ?thesis by auto
  next
    case False
    have "can_read ?p" using Cons.prems(1) by (simp add: can_read_def)
    moreover have "(pp_msgs_read ?p + of_nat (length fs)) mod of_int (pp_lwm ?p) = 0"
      unfolding sum using Cons.prems(8) by simp
    ultimately obtain p' e' where "pipe_reads (length fs) ?p e1 = Some (fs, p', e')"
      "Activate_write (pp_msgs_read ?p + of_nat (length fs)) \<in> set (pe_cmds e')"
      using Cons.IH [of ?p e1 "s\<lparr>ps_readable := fs @ gs\<rparr>"] e1(2) Cons.prems(2,5,7) False by auto
    with e1(1) show ?thesis unfolding sum by auto
  qed
qed simp



end
