(* ===== verification/Pipe_Term.thy ===== *)
theory Pipe_Term
  imports Pipe
begin

text \<open>
  The two endpoints of a pipe together, with the commands in flight between them: every interleaving
  of user calls and of command processing on both sides.  An operation that fails an assertion, uses
  a deallocated one-way pipe, sends to a deallocated peer or delivers a command to a deallocated
  endpoint gives \<open>None\<close>.
\<close>

section \<open>The pair of endpoints\<close>

datatype pipe_action = Do_check_read | Do_read | Do_check_write | Do_write frame | Do_rollback
  | Do_flush | Do_hiccup | Do_set_nodelay | Do_terminate bool | Do_set_hwms int int
  | Do_set_hwms_boost int int | Do_send_hwms int int

text \<open>The processing of a command by an endpoint, after \<open>object_t::process_command\<close>.\<close>

fun pipe_process :: "pipe_cmd \<Rightarrow> pipe \<Rightarrow> pipe_env \<Rightarrow> (pipe option \<times> pipe_env) option" where
  "pipe_process Activate_read p e = Some (map_prod Some id (process_activate_read p e))"
| "pipe_process (Activate_write n) p e = Some (map_prod Some id (process_activate_write n p e))"
| "pipe_process (Hiccup i) p e = map_option (map_prod Some id) (process_hiccup i p e)"
| "pipe_process Pipe_term p e = map_option (map_prod Some id) (process_pipe_term p e)"
| "pipe_process Pipe_term_ack p e = map_option (Pair None) (process_pipe_term_ack p e)"
| "pipe_process (Pipe_hwm i j) p e = Some (Some (pipe_set_hwms i j p), e)"

fun pipe_call :: "pipe_action \<Rightarrow> pipe \<Rightarrow> pipe_env \<Rightarrow> (pipe \<times> pipe_env) option" where
  "pipe_call Do_check_read p e = map_option snd (pipe_check_read p e)"
| "pipe_call Do_read p e = map_option snd (pipe_read p e)"
| "pipe_call Do_check_write p e = Some (snd (pipe_check_write p), e)"
| "pipe_call (Do_write f) p e = map_option snd (pipe_write f p e)"
| "pipe_call Do_rollback p e = map_option (Pair p) (pipe_rollback p e)"
| "pipe_call Do_flush p e = map_option (Pair p) (pipe_flush p e)"
| "pipe_call Do_hiccup p e = Some (pipe_hiccup p e)"
| "pipe_call Do_set_nodelay p e = Some (pipe_set_nodelay p, e)"
| "pipe_call (Do_terminate d) p e = pipe_terminate d p e"
| "pipe_call (Do_set_hwms i j) p e = Some (pipe_set_hwms i j p, e)"
| "pipe_call (Do_set_hwms_boost i j) p e = Some (pipe_set_hwms_boost i j p, e)"
| "pipe_call (Do_send_hwms i j) p e = Some (p, pipe_send_hwms_to_peer i j e)"

text \<open>
  A pair: an endpoint, its peer, the commands in flight to the peer and from the peer, and the store
  of one-way pipes.  \<open>None\<close> in place of an endpoint says that it was deallocated.
\<close>

record pipe_pair =
  pr_own :: "pipe option"
  pr_peer :: "pipe option"
  pr_out :: "pipe_cmd list"
  pr_in :: "pipe_cmd list"
  pr_up :: "nat \<Rightarrow> upipe option"
  pr_fresh :: nat

definition pair_new :: "int \<times> int \<Rightarrow> bool \<times> bool \<Rightarrow> pipe_pair" where
  "pair_new hwms conflate =
     (case pipepair hwms conflate of (p, q, e) \<Rightarrow>
        \<lparr>pr_own = Some p, pr_peer = Some q, pr_out = [], pr_in = [], pr_up = pe_up e, pr_fresh = pe_fresh e\<rparr>)"

definition pair_env :: "pipe_pair \<Rightarrow> pipe_env" where
  "pair_env s = \<lparr>pe_up = pr_up s, pe_fresh = pr_fresh s, pe_cmds = [], pe_events = []\<rparr>"

definition pair_put :: "pipe_pair \<Rightarrow> pipe option \<times> pipe_env \<Rightarrow> pipe_pair option" where
  "pair_put s r =
     (if pe_cmds (snd r) \<noteq> [] \<and> pr_peer s = None then None
      else Some (s\<lparr>pr_own := fst r, pr_out := pr_out s @ pe_cmds (snd r), pr_up := pe_up (snd r),
                   pr_fresh := pe_fresh (snd r)\<rparr>))"

definition pair_swap :: "pipe_pair \<Rightarrow> pipe_pair" where
  "pair_swap s = s\<lparr>pr_own := pr_peer s, pr_peer := pr_own s, pr_out := pr_in s, pr_in := pr_out s\<rparr>"

text \<open>A call by the user of the endpoint, who drops the endpoint when it is terminated.\<close>

definition own_call :: "pipe_action \<Rightarrow> pipe_pair \<Rightarrow> pipe_pair option" where
  "own_call a s =
     (case pr_own s of
        None \<Rightarrow> Some s
      | Some p \<Rightarrow> do { (p', e') \<leftarrow> pipe_call a p (pair_env s); pair_put s (Some p', e') })"

definition own_process :: "pipe_pair \<Rightarrow> pipe_pair option" where
  "own_process s =
     (case pr_in s of
        [] \<Rightarrow> Some s
      | c # cs \<Rightarrow> do { p \<leftarrow> pr_own s; r \<leftarrow> pipe_process c p (pair_env s); pair_put (s\<lparr>pr_in := cs\<rparr>) r })"

datatype pair_step = Own_call pipe_action | Own_process | Peer_call pipe_action | Peer_process

fun pair_exec :: "pair_step \<Rightarrow> pipe_pair \<Rightarrow> pipe_pair option" where
  "pair_exec (Own_call a) s = own_call a s"
| "pair_exec Own_process s = own_process s"
| "pair_exec (Peer_call a) s = map_option pair_swap (own_call a (pair_swap s))"
| "pair_exec Peer_process s = map_option pair_swap (own_process (pair_swap s))"

fun pair_run :: "pair_step list \<Rightarrow> pipe_pair \<Rightarrow> pipe_pair option" where
  "pair_run [] s = Some s"
| "pair_run (a # as) s = Option.bind (pair_exec a s) (pair_run as)"

text \<open>
  What the users may do: they do not write delimiters, which are not visible outside of the pipe, and
  they announce new water marks only on an active endpoint.
\<close>

fun call_allowed :: "pipe_action \<Rightarrow> pipe option \<Rightarrow> bool" where
  "call_allowed (Do_write f) p \<longleftrightarrow> \<not> is_delimiter f"
| "call_allowed (Do_send_hwms i j) p \<longleftrightarrow> (case p of None \<Rightarrow> True | Some p \<Rightarrow> pp_state p = Active)"
| "call_allowed a p \<longleftrightarrow> True"

fun step_allowed :: "pair_step \<Rightarrow> pipe_pair \<Rightarrow> bool" where
  "step_allowed (Own_call a) s \<longleftrightarrow> call_allowed a (pr_own s)"
| "step_allowed (Peer_call a) s \<longleftrightarrow> call_allowed a (pr_peer s)"
| "step_allowed _ s \<longleftrightarrow> True"

fun run_allowed :: "pair_step list \<Rightarrow> pipe_pair \<Rightarrow> bool" where
  "run_allowed [] s \<longleftrightarrow> True"
| "run_allowed (a # as) s \<longleftrightarrow>
     step_allowed a s \<and> (case pair_exec a s of None \<Rightarrow> True | Some s' \<Rightarrow> run_allowed as s')"

text \<open>
  Orderly shutdown: both users terminate their endpoint without waiting for pending messages, and
  then the commands in flight are processed, in three rounds.
\<close>

fun process_n :: "nat \<Rightarrow> pipe_pair \<Rightarrow> pipe_pair option" where
  "process_n 0 s = Some s"
| "process_n (Suc n) s = Option.bind (own_process s) (process_n n)"

definition process_all :: "pipe_pair \<Rightarrow> pipe_pair option" where
  "process_all s = process_n (length (pr_in s)) s"

definition pair_shutdown :: "pipe_pair \<Rightarrow> pipe_pair option" where
  "pair_shutdown s =
     do {
       s \<leftarrow> own_call (Do_terminate False) s;
       s \<leftarrow> own_call (Do_terminate False) (pair_swap s);
       s \<leftarrow> process_all (pair_swap s);
       s \<leftarrow> process_all (pair_swap s);
       process_all (pair_swap s)
     }"

section \<open>The invariant\<close>

text \<open>
  The control state of the pair: the states of the two endpoints (\<open>None\<close> for a deallocated
  one) and the termination commands in flight from the first to the second and back.
\<close>

type_synonym pair_ctl = "pipe_state option \<times> pipe_state option \<times> pipe_cmd list \<times> pipe_cmd list"

definition ctl_table :: "pair_ctl list" where
  "ctl_table =
     [(Some Active, Some Active, [], []),
      (Some Active, Some Term_req_sent1, [], [Pipe_term]),
      (Some Term_req_sent1, Some Active, [Pipe_term], []),
      (Some Delimiter_received, Some Term_req_sent1, [], [Pipe_term]),
      (Some Term_req_sent1, Some Delimiter_received, [Pipe_term], []),
      (Some Waiting_for_delimiter, Some Term_req_sent1, [], []),
      (Some Term_req_sent1, Some Waiting_for_delimiter, [], []),
      (Some Term_ack_sent, Some Term_req_sent1, [Pipe_term_ack], []),
      (Some Term_req_sent1, Some Term_ack_sent, [], [Pipe_term_ack]),
      (Some Term_req_sent1, Some Term_req_sent1, [Pipe_term], [Pipe_term]),
      (Some Term_req_sent2, Some Term_req_sent1, [Pipe_term, Pipe_term_ack], []),
      (Some Term_req_sent1, Some Term_req_sent2, [], [Pipe_term, Pipe_term_ack]),
      (Some Term_req_sent2, Some Term_req_sent2, [Pipe_term_ack], [Pipe_term_ack]),
      (None, Some Term_ack_sent, [Pipe_term_ack], []),
      (Some Term_ack_sent, None, [], [Pipe_term_ack]),
      (None, Some Term_req_sent2, [Pipe_term_ack], []),
      (Some Term_req_sent2, None, [], [Pipe_term_ack]),
      (None, None, [], [])]"

text \<open>The commands that matter: hiccups, and the termination commands, which follow the hiccups.\<close>

fun is_hiccup :: "pipe_cmd \<Rightarrow> bool" where
  "is_hiccup (Hiccup i) = True"
| "is_hiccup _ = False"

fun is_term :: "pipe_cmd \<Rightarrow> bool" where
  "is_term Pipe_term = True"
| "is_term Pipe_term_ack = True"
| "is_term _ = False"

fun hiccups :: "pipe_cmd list \<Rightarrow> nat list" where
  "hiccups [] = []"
| "hiccups (Hiccup i # cs) = i # hiccups cs"
| "hiccups (_ # cs) = hiccups cs"

definition terms :: "pipe_cmd list \<Rightarrow> pipe_cmd list" where
  "terms cs = filter is_term cs"

fun cmds_ordered :: "pipe_cmd list \<Rightarrow> bool" where
  "cmds_ordered [] = True"
| "cmds_ordered (c # cs) \<longleftrightarrow>
     (is_term c \<longrightarrow> hiccups cs = []) \<and> (c = Pipe_term_ack \<longrightarrow> cs = []) \<and> cmds_ordered cs"

text \<open>
  The one-way pipes from a writer to a reader: the one the writer writes to, and those the reader has
  announced by hiccups that are still in flight.
\<close>

definition dir_pipes :: "pipe option \<Rightarrow> pipe option \<Rightarrow> nat list \<Rightarrow> nat list" where
  "dir_pipes w r hs =
     (case r of
        None \<Rightarrow> []
      | Some q \<Rightarrow> (case Option.bind w pp_outpipe of Some i \<Rightarrow> i # hs | None \<Rightarrow> [the (pp_inpipe q)]))"

fun up_ok :: "upipe \<Rightarrow> bool" where
  "up_ok (Fifo s) \<longleftrightarrow> list_all f_more (ps_incomplete s)"
| "up_ok (Single c) \<longleftrightarrow> True"

fun up_clean :: "upipe \<Rightarrow> bool" where
  "up_clean (Fifo s) \<longleftrightarrow>
     list_all (\<lambda>f. \<not> is_delimiter f) (ps_readable s @ ps_complete s @ ps_incomplete s)"
| "up_clean (Single c) \<longleftrightarrow>
     \<not> is_delimiter (db_front (cf_dbuffer c)) \<and> \<not> is_delimiter (db_back (cf_dbuffer c))"

definition dir_ok :: "pipe option \<Rightarrow> pipe option \<Rightarrow> nat list \<Rightarrow> (nat \<Rightarrow> upipe option) \<Rightarrow> bool" where
  "dir_ok w r hs up \<longleftrightarrow>
     (\<forall>q. r = Some q \<longrightarrow> pp_inpipe q = Some (last (dir_pipes w r hs))) \<and>
     (\<forall>p. w = Some p \<longrightarrow>
        (pp_outpipe p = None \<longleftrightarrow> pp_state p \<in> {Term_ack_sent, Term_req_sent2}) \<and>
        (hs \<noteq> [] \<longrightarrow> pp_state p \<in> {Active, Delimiter_received, Term_req_sent1}) \<and>
        (pp_state p \<in> {Active, Delimiter_received} \<longrightarrow>
           (\<forall>i\<in>set (dir_pipes w r hs). \<forall>u. up i = Some u \<longrightarrow> up_clean u)))"

definition pipes_ok :: "nat list \<Rightarrow> (nat \<Rightarrow> upipe option) \<Rightarrow> nat \<Rightarrow> bool" where
  "pipes_ok is up fresh \<longleftrightarrow>
     distinct is \<and> dom up = set is \<and> (\<forall>i\<in>set is. i < fresh) \<and> (\<forall>i u. up i = Some u \<longrightarrow> up_ok u)"

definition pair_ok :: "pipe option \<Rightarrow> pipe option \<Rightarrow> pipe_cmd list \<Rightarrow> pipe_cmd list \<Rightarrow>
    (nat \<Rightarrow> upipe option) \<Rightarrow> nat \<Rightarrow> bool" where
  "pair_ok p q out inn up fresh \<longleftrightarrow>
     (map_option pp_state p, map_option pp_state q, terms out, terms inn) \<in> set ctl_table \<and>
     cmds_ordered out \<and> cmds_ordered inn \<and> (q = None \<longrightarrow> out = []) \<and> (p = None \<longrightarrow> inn = []) \<and>
     dir_ok p q (hiccups inn) up \<and> dir_ok q p (hiccups out) up \<and>
     pipes_ok (dir_pipes p q (hiccups inn) @ dir_pipes q p (hiccups out)) up fresh"

definition pair_inv :: "pipe_pair \<Rightarrow> bool" where
  "pair_inv s \<longleftrightarrow> pair_ok (pr_own s) (pr_peer s) (pr_out s) (pr_in s) (pr_up s) (pr_fresh s)"

lemma ctl_table_swap: "(a, b, x, y) \<in> set ctl_table \<longleftrightarrow> (b, a, y, x) \<in> set ctl_table"
proof -
  have "list_all (\<lambda>(a, b, x, y). (b, a, y, x) \<in> set ctl_table) ctl_table"
    by (simp add: ctl_table_def)
  thus ?thesis by (auto simp: list_all_iff)
qed

lemma pipes_ok_swap: "pipes_ok (is @ js) up fresh \<longleftrightarrow> pipes_ok (js @ is) up fresh"
  by (auto simp: pipes_ok_def)

lemma pair_ok_swap: "pair_ok p q x y up fresh \<longleftrightarrow> pair_ok q p y x up fresh"
  unfolding pair_ok_def using ctl_table_swap pipes_ok_swap by blast

lemma pair_inv_swap [simp]: "pair_inv (pair_swap s) \<longleftrightarrow> pair_inv s"
proof -
  have "pair_inv (pair_swap s) \<longleftrightarrow>
      pair_ok (pr_peer s) (pr_own s) (pr_in s) (pr_out s) (pr_up s) (pr_fresh s)"
    by (simp add: pair_inv_def pair_swap_def)
  thus ?thesis using pair_ok_swap unfolding pair_inv_def by blast
qed

lemma pair_swap_swap [simp]: "pair_swap (pair_swap s) = s"
  by (simp add: pair_swap_def)

lemma pair_swap_ends [simp]: "pr_own (pair_swap s) = pr_peer s" "pr_peer (pair_swap s) = pr_own s"
  by (simp_all add: pair_swap_def)

lemma pair_inv_new: "pair_inv (pair_new hwms conflate)"
  by (auto simp: pair_inv_def pair_ok_def pair_new_def pipepair_def pipe_new_def ctl_table_def terms_def dir_ok_def
      dir_pipes_def pipes_ok_def up_new_def pipe_spec_new_def conflate_new_def dbuffer_new_def is_delimiter_def
      empty_frame_def data_frame_def split: if_splits)

subsection \<open>Command queues\<close>

lemma terms_append [simp]: "terms (cs @ ds) = terms cs @ terms ds"
  by (simp add: terms_def)

lemma terms_Cons: "terms (c # cs) = (if is_term c then c # terms cs else terms cs)"
  by (simp add: terms_def)

lemma terms_Nil [simp]: "terms [] = []"
  by (simp add: terms_def)

lemma hiccups_append [simp]: "hiccups (cs @ ds) = hiccups cs @ hiccups ds"
  by (induction cs rule: hiccups.induct) simp_all

lemma ack_in_terms: "Pipe_term_ack \<in> set cs \<longleftrightarrow> Pipe_term_ack \<in> set (terms cs)"
  by (simp add: terms_def)

lemma cmds_ordered_append:
  "cmds_ordered (cs @ ds) \<longleftrightarrow> cmds_ordered cs \<and> cmds_ordered ds \<and>
     (terms cs \<noteq> [] \<longrightarrow> hiccups ds = []) \<and> (Pipe_term_ack \<in> set cs \<longrightarrow> ds = [])"
  by (induction cs) (auto simp: terms_Cons)

subsection \<open>Operations that keep the control state\<close>

text \<open>
  Most operations move messages and flags only: they keep the state of the endpoint and its one-way
  pipes, and send no command that matters.
\<close>

definition up_le :: "(nat \<Rightarrow> upipe option) \<Rightarrow> (nat \<Rightarrow> upipe option) \<Rightarrow> bool" where
  "up_le up up' \<longleftrightarrow>
     dom up' = dom up \<and>
     (\<forall>i u u'. up i = Some u \<longrightarrow> up' i = Some u' \<longrightarrow> (up_ok u \<longrightarrow> up_ok u') \<and> (up_clean u \<longrightarrow> up_clean u'))"

definition quiet_cmds :: "pipe_cmd list \<Rightarrow> bool" where
  "quiet_cmds cs \<longleftrightarrow> list_all (\<lambda>c. \<not> is_term c \<and> \<not> is_hiccup c) cs"

definition quiet :: "pipe \<Rightarrow> pipe_env \<Rightarrow> pipe \<Rightarrow> pipe_env \<Rightarrow> bool" where
  "quiet p e p' e' \<longleftrightarrow>
     pp_state p' = pp_state p \<and> pp_inpipe p' = pp_inpipe p \<and> pp_outpipe p' = pp_outpipe p \<and>
     pe_fresh e' = pe_fresh e \<and> up_le (pe_up e) (pe_up e') \<and>
     (\<exists>cs. pe_cmds e' = pe_cmds e @ cs \<and> quiet_cmds cs \<and>
        (cs \<noteq> [] \<longrightarrow> pp_state p \<notin> {Term_ack_sent, Term_req_sent2}))"

lemma up_leD:
  assumes "up_le up up'" "up' i = Some u'"
  shows "\<exists>u. up i = Some u \<and> (up_ok u \<longrightarrow> up_ok u') \<and> (up_clean u \<longrightarrow> up_clean u')"
proof -
  have "i \<in> dom up" using assms by (auto simp: up_le_def)
  thus ?thesis using assms by (auto simp: up_le_def)
qed

lemma up_le_refl [simp]: "up_le up up"
  by (simp add: up_le_def)

lemma up_le_update:
  "up i = Some u \<Longrightarrow> (up_ok u \<Longrightarrow> up_ok u') \<Longrightarrow> (up_clean u \<Longrightarrow> up_clean u') \<Longrightarrow> up_le up (up(i \<mapsto> u'))"
  by (auto simp: up_le_def)

lemma quiet_refl [simp]: "quiet p e p e"
  by (simp add: quiet_def quiet_cmds_def)

lemma quiet_cmds_effect:
  "quiet_cmds cs \<Longrightarrow> terms cs = [] \<and> hiccups cs = [] \<and> cmds_ordered cs"
proof (induction cs)
  case (Cons c cs)
  thus ?case by (cases c) (auto simp: quiet_cmds_def terms_Cons)
qed (simp add: quiet_cmds_def)

lemma dir_ok_mono:
  assumes "dir_ok w r hs up" "up_le up up'"
    "map_option (\<lambda>p. (pp_state p, pp_outpipe p)) w' = map_option (\<lambda>p. (pp_state p, pp_outpipe p)) w"
    "map_option pp_inpipe r' = map_option pp_inpipe r"
  shows "dir_ok w' r' hs up' \<and> dir_pipes w' r' hs = dir_pipes w r hs"
proof -
  have d: "dir_pipes w' r' hs = dir_pipes w r hs"
    using assms(3,4) by (cases w; cases w'; cases r; cases r') (auto simp: dir_pipes_def split: option.split)
  have c: "up' i = Some u' \<Longrightarrow> \<forall>u. up i = Some u \<longrightarrow> up_clean u \<Longrightarrow> up_clean u'" for i u'
    using up_leD [OF assms(2)] by blast
  have "dir_ok w' r' hs up'"
    unfolding dir_ok_def d
  proof (intro conjI allI impI)
    fix q assume "r' = Some q"
    thus "pp_inpipe q = Some (last (dir_pipes w r hs))"
      using assms(1,4) by (cases r) (auto simp: dir_ok_def)
  next
    fix p assume "w' = Some p"
    then obtain p0 where p0: "w = Some p0" "pp_state p = pp_state p0" "pp_outpipe p = pp_outpipe p0"
      using assms(3) by (cases w) auto
    show "pp_outpipe p = None \<longleftrightarrow> pp_state p \<in> {Term_ack_sent, Term_req_sent2}"
      "hs \<noteq> [] \<Longrightarrow> pp_state p \<in> {Active, Delimiter_received, Term_req_sent1}"
      using assms(1) p0 by (auto simp: dir_ok_def)
    show "\<forall>i\<in>set (dir_pipes w r hs). \<forall>u. up' i = Some u \<longrightarrow> up_clean u"
      if "pp_state p \<in> {Active, Delimiter_received}"
    proof -
      have "\<forall>i\<in>set (dir_pipes w r hs). \<forall>u. up i = Some u \<longrightarrow> up_clean u"
        using assms(1) that p0 by (auto simp: dir_ok_def)
      thus ?thesis using c by blast
    qed
  qed
  thus ?thesis using d by blast
qed

lemma dir_ok_Some:
  "dir_ok (Some p) r hs up \<longleftrightarrow>
     (\<forall>q. r = Some q \<longrightarrow> pp_inpipe q = Some (last (dir_pipes (Some p) r hs))) \<and>
     (pp_outpipe p = None \<longleftrightarrow> pp_state p \<in> {Term_ack_sent, Term_req_sent2}) \<and>
     (hs \<noteq> [] \<longrightarrow> pp_state p \<in> {Active, Delimiter_received, Term_req_sent1}) \<and>
     (pp_state p \<in> {Active, Delimiter_received} \<longrightarrow>
        (\<forall>i\<in>set (dir_pipes (Some p) r hs). \<forall>u. up i = Some u \<longrightarrow> up_clean u))"
  by (simp add: dir_ok_def)

lemma dir_ok_update:
  "j \<notin> set (dir_pipes w r hs) \<Longrightarrow> dir_ok w r hs (up(j := x)) = dir_ok w r hs up"
proof -
  assume "j \<notin> set (dir_pipes w r hs)"
  hence "(up(j := x)) i = up i" if "i \<in> set (dir_pipes w r hs)" for i using that by auto
  thus ?thesis by (cases w) (simp_all add: dir_ok_Some dir_ok_def [of None])
qed

lemma pipes_ok_mono: "pipes_ok is up fresh \<Longrightarrow> up_le up up' \<Longrightarrow> pipes_ok is up' fresh"
  unfolding pipes_ok_def using up_leD by (metis up_le_def)

lemma ctl_facts:
  assumes "(a, b, x, y) \<in> set ctl_table"
  shows "Pipe_term_ack \<in> set x \<Longrightarrow> a = None \<or> a = Some Term_ack_sent \<or> a = Some Term_req_sent2"
    and "b = None \<Longrightarrow> a = None \<or> a = Some Term_ack_sent \<or> a = Some Term_req_sent2"
    and "x \<noteq> [] \<Longrightarrow> a \<noteq> Some Active \<and> a \<noteq> Some Delimiter_received \<and> a \<noteq> Some Waiting_for_delimiter"
proof -
  have "list_all (\<lambda>(a, b, x, y).
      (Pipe_term_ack \<in> set x \<longrightarrow> a = None \<or> a = Some Term_ack_sent \<or> a = Some Term_req_sent2) \<and>
      (b = None \<longrightarrow> a = None \<or> a = Some Term_ack_sent \<or> a = Some Term_req_sent2) \<and>
      (x \<noteq> [] \<longrightarrow> a \<noteq> Some Active \<and> a \<noteq> Some Delimiter_received \<and> a \<noteq> Some Waiting_for_delimiter)) ctl_table"
    by (simp add: ctl_table_def)
  hence *: "(Pipe_term_ack \<in> set x \<longrightarrow> a = None \<or> a = Some Term_ack_sent \<or> a = Some Term_req_sent2) \<and>
      (b = None \<longrightarrow> a = None \<or> a = Some Term_ack_sent \<or> a = Some Term_req_sent2) \<and>
      (x \<noteq> [] \<longrightarrow> a \<noteq> Some Active \<and> a \<noteq> Some Delimiter_received \<and> a \<noteq> Some Waiting_for_delimiter)"
    using assms by (auto simp: list_all_iff)
  show "Pipe_term_ack \<in> set x \<Longrightarrow> a = None \<or> a = Some Term_ack_sent \<or> a = Some Term_req_sent2"
    and "b = None \<Longrightarrow> a = None \<or> a = Some Term_ack_sent \<or> a = Some Term_req_sent2"
    and "x \<noteq> [] \<Longrightarrow> a \<noteq> Some Active \<and> a \<noteq> Some Delimiter_received \<and> a \<noteq> Some Waiting_for_delimiter"
    using * by blast+
qed

lemma ctl_terminate:
  assumes "(Some a, b, x, y) \<in> set ctl_table" "a \<in> {Active, Delimiter_received}"
  shows "(Some Term_req_sent1, b, x @ [Pipe_term], y) \<in> set ctl_table"
proof -
  have "list_all (\<lambda>(a, b, x, y). a = Some Active \<or> a = Some Delimiter_received \<longrightarrow>
      (Some Term_req_sent1, b, x @ [Pipe_term], y) \<in> set ctl_table) ctl_table"
    by (simp add: ctl_table_def)
  thus ?thesis using assms by (auto simp: list_all_iff)
qed

text \<open>The invariant from the point of view of one endpoint, its environment and what it is given.\<close>

definition end_ok :: "pipe option \<Rightarrow> pipe_cmd list \<Rightarrow> pipe_cmd list \<Rightarrow> pipe option \<Rightarrow> pipe_env \<Rightarrow> bool" where
  "end_ok q out inn p e \<longleftrightarrow> pair_ok p q (out @ pe_cmds e) inn (pe_up e) (pe_fresh e)"

lemma quiet_ok:
  assumes ok: "end_ok q out inn (Some p) e" and qu: "quiet p e p' e'"
  shows "end_ok q out inn (Some p') e' \<and> (pe_cmds e' \<noteq> pe_cmds e \<longrightarrow> q \<noteq> None)"
proof -
  obtain cs where cs: "pe_cmds e' = pe_cmds e @ cs" "quiet_cmds cs"
      "cs \<noteq> [] \<Longrightarrow> pp_state p \<notin> {Term_ack_sent, Term_req_sent2}"
    and le: "up_le (pe_up e) (pe_up e')" and st: "pp_state p' = pp_state p" "pp_inpipe p' = pp_inpipe p"
      "pp_outpipe p' = pp_outpipe p" "pe_fresh e' = pe_fresh e"
    using qu by (auto simp: quiet_def)
  note eff = quiet_cmds_effect [OF cs(2)]
  have tab: "(Some (pp_state p), map_option pp_state q, terms (out @ pe_cmds e), terms inn) \<in> set ctl_table"
    and ord: "cmds_ordered (out @ pe_cmds e)" "cmds_ordered inn" "q = None \<longrightarrow> out @ pe_cmds e = []"
    and d1: "dir_ok (Some p) q (hiccups inn) (pe_up e)" and d2: "dir_ok q (Some p) (hiccups (out @ pe_cmds e)) (pe_up e)"
    and po: "pipes_ok (dir_pipes (Some p) q (hiccups inn) @ dir_pipes q (Some p) (hiccups (out @ pe_cmds e)))
        (pe_up e) (pe_fresh e)"
    using ok by (simp_all add: end_ok_def pair_ok_def)
  have nack: "Pipe_term_ack \<notin> set (out @ pe_cmds e)" "q \<noteq> None" if "cs \<noteq> []"
    using ctl_facts [OF tab] cs(3) [OF that] ack_in_terms [of "out @ pe_cmds e"] by auto
  have ord': "cmds_ordered (out @ pe_cmds e')"
    using ord(1) nack(1) eff by (cases "cs = []") (auto simp: cs(1) cmds_ordered_append)
  have hq: "hiccups (out @ pe_cmds e') = hiccups (out @ pe_cmds e)" "terms (out @ pe_cmds e') = terms (out @ pe_cmds e)"
    using eff by (simp_all add: cs(1))
  note m1 = dir_ok_mono [OF d1 le, of "Some p'" q] and m2 = dir_ok_mono [OF d2 le, of q "Some p'"]
  have dn: "q = None \<longrightarrow> out @ pe_cmds e' = []" using ord(3) nack(2) cs(1) by (cases "cs = []") auto
  have "end_ok q out inn (Some p') e'"
    unfolding end_ok_def pair_ok_def hq using tab ord(2) ord' dn m1 m2 pipes_ok_mono [OF po le] st by simp
  thus ?thesis using nack(2) cs(1) by auto
qed

subsubsection \<open>One-way pipes\<close>

lemma up_check_read_keeps:
  "up_ok (snd (up_check_read u)) = up_ok u" "up_clean (snd (up_check_read u)) = up_clean u"
  by (cases u; simp add: cf_check_read_def Let_def)+

lemma up_read_keeps:
  assumes "up_read u = (r, u')"
  shows "up_ok u \<Longrightarrow> up_ok u'" and "up_clean u \<Longrightarrow> up_clean u'" and "up_clean u \<Longrightarrow> r = Some f \<Longrightarrow> \<not> is_delimiter f"
proof -
  show "up_ok u \<Longrightarrow> up_ok u'" using assms by (cases u) (auto simp: map_prod_def split: if_splits prod.splits)
  show "up_clean u \<Longrightarrow> up_clean u'" using assms
    by (cases u) (auto simp: list_all_iff cf_read_def cf_check_read_def db_read_def Let_def is_delimiter_def
        empty_frame_def data_frame_def split: if_splits bool.splits dest!: in_set_tlD)
  show "up_clean u \<Longrightarrow> r = Some f \<Longrightarrow> \<not> is_delimiter f" using assms
    by (cases u) (auto simp: list_all_iff cf_read_def cf_check_read_def db_read_def Let_def split: if_splits bool.splits)
qed

lemma up_read_message_keeps:
  "up_read_message u cred = (r, u', cred') \<Longrightarrow>
     (up_ok u \<longrightarrow> up_ok u') \<and> (up_clean u \<longrightarrow> up_clean u' \<and> (\<forall>f. r = Some f \<longrightarrow> \<not> is_delimiter f))"
proof (induction u cred arbitrary: u' rule: up_read_message.induct)
  case (1 u cred)
  obtain x v where x: "up_read u = (x, v)" by fastforce
  note k = up_read_keeps [OF x]
  show ?case
  proof (cases x)
    case None
    thus ?thesis using 1(2) k(1,2) x by (simp add: up_read_message.simps [of u])
  next
    case (Some f)
    thus ?thesis using 1 k x by (cases "f_is_credential f") (auto simp: up_read_message.simps [of u])
  qed
qed

lemma up_write_keeps:
  "up_ok u \<Longrightarrow> (b \<Longrightarrow> f_more f) \<Longrightarrow> up_ok (up_write f b u)" "up_clean u \<Longrightarrow> \<not> is_delimiter f \<Longrightarrow> up_clean (up_write f b u)"
  by (cases u; auto simp: cf_write_def db_write_def Let_def)+

lemma up_flush_keeps: "up_ok u \<Longrightarrow> up_ok (up_flush u)" "up_clean u \<Longrightarrow> up_clean (up_flush u)"
  by (cases u; auto)+

lemma up_rollback_keeps:
  "up_ok u \<Longrightarrow> \<exists>u'. up_rollback u = Some u' \<and> up_ok u' \<and> (up_clean u \<longrightarrow> up_clean u') \<and> up_open u' = 0"
proof (induction u rule: up_rollback.induct)
  case (1 u)
  show ?case
  proof (cases u)
    case (Single c)
    thus ?thesis by (simp add: up_rollback.simps [of "Single c"] cf_unwrite_def)
  next
    case (Fifo s)
    show ?thesis
    proof (cases "ps_incomplete s" rule: rev_cases)
      case Nil
      thus ?thesis using 1(2) Fifo by (simp add: up_rollback.simps [of "Fifo s"])
    next
      case (snoc fs f)
      let ?u = "Fifo (s\<lparr>ps_incomplete := fs\<rparr>)"
      have un: "up_unwrite u = (Some f, ?u)" using Fifo snoc by simp
      have "f_more f" "up_ok ?u" using 1(2) Fifo snoc by simp_all
      then obtain u' where "up_rollback ?u = Some u'" "up_ok u'" "up_clean ?u \<longrightarrow> up_clean u'" "up_open u' = 0"
        using 1(1) [OF un [symmetric] refl] by blast
      thus ?thesis using un Fifo snoc \<open>f_more f\<close> by (simp add: up_rollback.simps [of "Fifo s"])
    qed
  qed
qed

subsubsection \<open>Endpoints\<close>

lemma end_live:
  assumes "end_ok q out inn (Some p) e"
  shows "\<exists>i u. pp_inpipe p = Some i \<and> pe_up e i = Some u \<and> up_ok u"
    and "pp_outpipe p = Some j \<Longrightarrow> \<exists>u. pe_up e j = Some u \<and> up_ok u"
    and "pp_outpipe p = Some j \<Longrightarrow> q \<noteq> None"
proof -
  let ?d1 = "dir_pipes (Some p) q (hiccups inn)" and ?d2 = "dir_pipes q (Some p) (hiccups (out @ pe_cmds e))"
  have po: "dom (pe_up e) = set (?d1 @ ?d2)" "\<forall>i u. pe_up e i = Some u \<longrightarrow> up_ok u"
    and d: "dir_ok (Some p) q (hiccups inn) (pe_up e)" "dir_ok q (Some p) (hiccups (out @ pe_cmds e)) (pe_up e)"
    and tab: "(Some (pp_state p), map_option pp_state q, terms (out @ pe_cmds e), terms inn) \<in> set ctl_table"
    using assms by (simp_all add: end_ok_def pair_ok_def pipes_ok_def)
  have "?d2 \<noteq> []" by (simp add: dir_pipes_def split: option.split)
  hence "last ?d2 \<in> dom (pe_up e)" using po(1) by simp
  thus "\<exists>i u. pp_inpipe p = Some i \<and> pe_up e i = Some u \<and> up_ok u" using d(2) po(2) by (auto simp: dir_ok_def)
  assume j: "pp_outpipe p = Some j"
  hence "pp_state p \<notin> {Term_ack_sent, Term_req_sent2}" using d(1) by (auto simp: dir_ok_def)
  thus q: "q \<noteq> None" using ctl_facts(2) [OF tab] by auto
  hence "j \<in> set ?d1" using j by (auto simp: dir_pipes_def)
  thus "\<exists>u. pe_up e j = Some u \<and> up_ok u" using po by (metis UnI1 domD set_append)
qed

lemma end_state:
  assumes "end_ok q out inn (Some p) e"
  shows "pp_outpipe p = None \<longleftrightarrow> pp_state p \<in> {Term_ack_sent, Term_req_sent2}"
  using assms by (simp add: end_ok_def pair_ok_def dir_ok_def)

lemma rollback_quiet:
  assumes "end_ok q out inn (Some p) e"
  shows "\<exists>e'. pipe_rollback p e = Some e' \<and> quiet p e p e'"
proof (cases "pp_outpipe p")
  case (Some j)
  then obtain u where u: "pe_up e j = Some u" "up_ok u" using end_live(2) [OF assms] by blast
  obtain u' where "up_rollback u = Some u'" "up_ok u'" "up_clean u \<longrightarrow> up_clean u'"
    using up_rollback_keeps [OF u(2)] by blast
  thus ?thesis using Some u by (auto simp: pipe_rollback_def quiet_def quiet_cmds_def set_up_def intro!: up_le_update)
qed (simp add: pipe_rollback_def)

lemma flush_quiet:
  assumes "end_ok q out inn (Some p) e"
  shows "\<exists>e'. pipe_flush p e = Some e' \<and> quiet p e p e'"
proof (cases "pp_outpipe p")
  case (Some j)
  then obtain u where u: "pe_up e j = Some u" "up_ok u" using end_live(2) [OF assms] by blast
  have "pp_state p \<notin> {Term_ack_sent, Term_req_sent2}" using end_state [OF assms] Some by simp
  thus ?thesis using Some u
    by (auto simp: pipe_flush_def quiet_def quiet_cmds_def set_up_def send_cmd_def up_flush_keeps intro!: up_le_update)
qed (simp add: pipe_flush_def)

lemma write_quiet:
  assumes "end_ok q out inn (Some p) e" "\<not> is_delimiter f"
  shows "\<exists>r p' e'. pipe_write f p e = Some (r, p', e') \<and> quiet p e p' e'"
proof (cases "pipe_check_write p")
  case (Pair ok p')
  have p': "pp_state p' = pp_state p" "pp_inpipe p' = pp_inpipe p" "pp_outpipe p' = pp_outpipe p"
    using Pair by (auto simp: pipe_check_write_def split: if_splits)
  show ?thesis
  proof (cases ok)
    case True
    hence "pp_state p = Active" using Pair by (auto simp: pipe_check_write_def split: if_splits)
    then obtain j where j: "pp_outpipe p = Some j" using end_state [OF assms(1)] by (cases "pp_outpipe p") auto
    then obtain u where u: "pe_up e j = Some u" "up_ok u" using end_live(2) [OF assms(1)] by blast
    thus ?thesis using True Pair j p' assms(2)
      by (auto simp: pipe_write_def quiet_def quiet_cmds_def set_up_def up_write_keeps intro!: up_le_update)
  qed (use Pair p' in \<open>auto simp: pipe_write_def quiet_def quiet_cmds_def\<close>)
qed

text \<open>A read is quiet unless it meets the delimiter.\<close>

definition meets_delimiter :: "pipe \<Rightarrow> pipe_env \<Rightarrow> (pipe \<times> pipe_env) option \<Rightarrow> bool" where
  "meets_delimiter p e r \<longleftrightarrow>
     can_read p \<and> (\<exists>i u. pp_inpipe p = Some i \<and> pe_up e i = Some u \<and> \<not> up_clean u) \<and>
     (\<exists>p1 e1. quiet p e p1 e1 \<and> pe_cmds e1 = pe_cmds e \<and> r = process_delimiter p1 e1)"

lemma meets_delimiterI:
  "can_read p \<Longrightarrow> pp_inpipe p = Some i \<Longrightarrow> pe_up e i = Some u \<Longrightarrow> \<not> up_clean u \<Longrightarrow>
    r = process_delimiter p1 e1 \<Longrightarrow> quiet p e p1 e1 \<Longrightarrow> pe_cmds e1 = pe_cmds e \<Longrightarrow> meets_delimiter p e r"
  unfolding meets_delimiter_def by blast

lemma check_read_cases:
  assumes "end_ok q out inn (Some p) e"
  shows "(\<exists>p' e'. pipe_call Do_check_read p e = Some (p', e') \<and> quiet p e p' e') \<or>
    meets_delimiter p e (pipe_call Do_check_read p e)"
proof (cases "can_read p")
  case True
  obtain i u where u: "pp_inpipe p = Some i" "pe_up e i = Some u" "up_ok u" using end_live(1) [OF assms] by blast
  obtain b u1 where b: "up_check_read u = (b, u1)" by fastforce
  have keep: "up_ok u1 = up_ok u" "up_clean u1 = up_clean u" using up_check_read_keeps [of u] b by simp_all
  have q1: "quiet p e p (set_up i (Some u1) e)" "quiet p e (p\<lparr>pp_in_active := False\<rparr>) (set_up i (Some u1) e)"
    using u keep by (auto simp: quiet_def quiet_cmds_def set_up_def intro!: up_le_update)
  show ?thesis
  proof (cases b)
    case False
    thus ?thesis using True u b q1(2) by (simp add: pipe_check_read_def)
  next
    case B: True
    obtain f u2 where f: "up_read u1 = (Some f, u2)" "up_probe is_delimiter u1 = Some (is_delimiter f)"
      using b B by (cases u)
        (auto simp: cf_check_read_def db_check_read_def cf_read_def db_read_def cf_probe_def db_probe_def Let_def
          split: if_splits)
    show ?thesis
    proof (cases "is_delimiter f")
      case False
      thus ?thesis using True u b B f q1(1) by (simp add: pipe_check_read_def)
    next
      case D: True
      have nc: "\<not> up_clean u" using up_read_keeps(3) [OF f(1), of f] D keep by auto
      have "quiet p e p (set_up i (Some u2) e)"
        using u up_read_keeps(1,2) [OF f(1)] keep
        by (auto simp: quiet_def quiet_cmds_def set_up_def intro!: up_le_update)
      moreover have "pipe_call Do_check_read p e = process_delimiter p (set_up i (Some u2) e)"
        using True u b B f D by (simp add: pipe_check_read_def option.map_comp o_def option.map_ident)
      ultimately show ?thesis
        using meets_delimiterI [OF True u(1,2) nc, of _ p "set_up i (Some u2) e"] by (simp add: set_up_def)
    qed
  qed
qed (simp add: pipe_check_read_def)

lemma read_cases:
  assumes "end_ok q out inn (Some p) e"
  shows "(\<exists>p' e'. pipe_call Do_read p e = Some (p', e') \<and> quiet p e p' e') \<or>
    meets_delimiter p e (pipe_call Do_read p e)"
proof (cases "can_read p")
  case True
  obtain i u where u: "pp_inpipe p = Some i" "pe_up e i = Some u" "up_ok u" using end_live(1) [OF assms] by blast
  obtain x u1 cred where x: "up_read_message u (pp_credential p) = (x, u1, cred)" by (metis prod_cases3)
  note keep = up_read_message_keeps [OF x]
  have le: "up_le (pe_up e) ((pe_up e)(i \<mapsto> u1))" using keep u(2,3) up_le_update [of "pe_up e" i u u1] by auto
  show ?thesis
  proof (cases x)
    case None
    thus ?thesis using True u x le by (simp add: pipe_read_def quiet_def quiet_cmds_def set_up_def)
  next
    case (Some f)
    show ?thesis
    proof (cases "is_delimiter f")
      case False
      thus ?thesis using True u x Some le
        by (auto simp: pipe_read_def quiet_def quiet_cmds_def set_up_def send_cmd_def Let_def can_read_def)
    next
      case D: True
      have "pipe_call Do_read p e = process_delimiter (p\<lparr>pp_credential := cred\<rparr>) (set_up i (Some u1) e)"
        using True u x Some D by (simp add: pipe_read_def Let_def option.map_comp o_def option.map_ident)
      moreover have "quiet p e (p\<lparr>pp_credential := cred\<rparr>) (set_up i (Some u1) e)"
        using le by (simp add: quiet_def quiet_cmds_def set_up_def)
      moreover have nc: "\<not> up_clean u" using keep Some D by blast
      ultimately show ?thesis
        using meets_delimiterI [OF True u(1,2) nc, of _ "p\<lparr>pp_credential := cred\<rparr>" "set_up i (Some u1) e"]
        by (simp add: set_up_def)
    qed
  qed
qed (simp add: pipe_read_def)

subsection \<open>Operations of the termination protocol\<close>

lemma pair_okD:
  assumes "pair_ok (Some p) q out inn up fresh"
  shows "(Some (pp_state p), map_option pp_state q, terms out, terms inn) \<in> set ctl_table"
    and "cmds_ordered out" and "cmds_ordered inn" and "q = None \<Longrightarrow> out = []"
    and "dir_ok (Some p) q (hiccups inn) up" and "dir_ok q (Some p) (hiccups out) up"
    and "pipes_ok (dir_pipes (Some p) q (hiccups inn) @ dir_pipes q (Some p) (hiccups out)) up fresh"
  using assms by (simp_all add: pair_ok_def)

lemma pair_ok_alive:
  assumes "pair_ok (Some p) q out inn up fresh" "pp_state p \<notin> {Term_ack_sent, Term_req_sent2}"
  shows "q \<noteq> None" and "Pipe_term_ack \<notin> set out" and "\<exists>j. pp_outpipe p = Some j"
  using ctl_facts [OF pair_okD(1) [OF assms(1)]] assms(2) ack_in_terms [of out] pair_okD(5) [OF assms(1)]
  by (auto simp: dir_ok_def)

text \<open>An endpoint acknowledges the termination and gives up its outbound pipe.\<close>

lemma close_out:
  assumes ok: "pair_ok (Some p) q out inn up fresh" and st: "pp_state p \<notin> {Term_ack_sent, Term_req_sent2}"
    and hs: "hiccups inn = []" "hiccups inn' = []" "cmds_ordered inn'"
    and p': "pp_state p' \<in> {Term_ack_sent, Term_req_sent2}" "pp_outpipe p' = None" "pp_inpipe p' = pp_inpipe p"
    and tab: "(Some (pp_state p'), map_option pp_state q, terms out @ [Pipe_term_ack], terms inn') \<in> set ctl_table"
  shows "pair_ok (Some p') q (out @ [Pipe_term_ack]) inn' up fresh"
proof -
  note D = pair_okD [OF ok] and A = pair_ok_alive [OF ok st]
  obtain j r where j: "pp_outpipe p = Some j" and r: "q = Some r" using A by blast
  have d1: "dir_pipes (Some p') q [] = dir_pipes (Some p) q []"
    using D(5) j hs(1) p'(2) by (auto simp: dir_pipes_def dir_ok_def r)
  have d2: "dir_pipes q (Some p') hs = dir_pipes q (Some p) hs" for hs
    using p'(3) by (auto simp: dir_pipes_def split: option.splits)
  have "dir_ok (Some p') q [] up" using D(5) p' d1 hs(1) by (auto simp: dir_ok_def)
  moreover have "dir_ok q (Some p') (hiccups out) up"
    using dir_ok_mono [OF D(6) up_le_refl, of q "Some p'"] p'(3) by simp
  moreover have "cmds_ordered (out @ [Pipe_term_ack])" using D(2) A(2) by (simp add: cmds_ordered_append)
  ultimately show ?thesis using tab D(7) hs r by (simp add: pair_ok_def terms_Cons d1 [unfolded r] d2 [unfolded r])
qed

text \<open>An endpoint writes its delimiter.\<close>

lemma write_out:
  assumes ok: "pair_ok (Some p) q out inn up fresh" and j: "pp_outpipe p = Some j" "up_ok u'"
    and p': "pp_state p' \<in> {Waiting_for_delimiter, Term_req_sent1}" "pp_outpipe p' = Some j" "pp_inpipe p' = pp_inpipe p"
    and st: "hiccups inn \<noteq> [] \<Longrightarrow> pp_state p' = Term_req_sent1"
    and cs: "cmds_ordered cs" "hiccups cs = []"
    and tab: "(Some (pp_state p'), map_option pp_state q, terms out @ terms cs, terms inn) \<in> set ctl_table"
  shows "pair_ok (Some p') q (out @ cs) inn (up(j \<mapsto> u')) fresh"
proof -
  note D = pair_okD [OF ok]
  have stp: "pp_state p \<notin> {Term_ack_sent, Term_req_sent2}" using D(5) j(1) by (auto simp: dir_ok_def)
  note A = pair_ok_alive [OF ok stp]
  obtain r where r: "q = Some r" using A by blast
  have d1: "dir_pipes (Some p') q hs = dir_pipes (Some p) q hs" "j \<in> set (dir_pipes (Some p) q hs)" for hs
    using j(1) p'(2) by (simp_all add: dir_pipes_def r)
  have d2: "dir_pipes q (Some p') hs = dir_pipes q (Some p) hs" for hs
    using p'(3) by (auto simp: dir_pipes_def split: option.splits)
  have nj: "j \<notin> set (dir_pipes q (Some p) (hiccups out))" using D(7) d1(2) by (auto simp: pipes_ok_def)
  have "pp_inpipe r = Some (last (dir_pipes (Some p) q (hiccups inn)))" using D(5) by (simp add: dir_ok_def r)
  hence "dir_ok (Some p') q (hiccups inn) (up(j \<mapsto> u'))"
    using p'(1,2) st unfolding dir_ok_def d1(1) by (auto simp: r)
  moreover have "dir_ok q (Some p') (hiccups out) (up(j \<mapsto> u'))"
    using dir_ok_mono [OF D(6) up_le_refl, of q "Some p'"] p'(3) nj by (simp add: dir_ok_update d2)
  moreover have "pipes_ok (dir_pipes (Some p) q (hiccups inn) @ dir_pipes q (Some p) (hiccups out)) (up(j \<mapsto> u')) fresh"
    using D(7) j(2) d1(2) by (auto simp: pipes_ok_def)
  moreover have "cmds_ordered (out @ cs)" using D(2) A(2) cs by (simp add: cmds_ordered_append)
  ultimately show ?thesis using tab cs r D(3)
    by (simp add: pair_ok_def d1(1) [unfolded r] d2 [unfolded r])
qed

text \<open>An endpoint changes its state and keeps its pipes.\<close>

lemma restate:
  assumes ok: "pair_ok (Some p) q out inn up fresh"
    and p': "pp_outpipe p' = pp_outpipe p" "pp_inpipe p' = pp_inpipe p"
      "pp_state p' \<in> {Term_ack_sent, Term_req_sent2} \<longleftrightarrow> pp_state p \<in> {Term_ack_sent, Term_req_sent2}"
      "pp_state p' \<in> {Active, Delimiter_received} \<Longrightarrow> pp_state p \<in> {Active, Delimiter_received}"
      "pp_state p' = Waiting_for_delimiter \<Longrightarrow> hiccups inn = []"
    and inn': "hiccups inn' = hiccups inn" "cmds_ordered inn'"
    and tab: "(Some (pp_state p'), map_option pp_state q, terms out, terms inn') \<in> set ctl_table"
  shows "pair_ok (Some p') q out inn' up fresh"
proof -
  note D = pair_okD [OF ok]
  have d: "dir_pipes (Some p') q hs = dir_pipes (Some p) q hs" "dir_pipes q (Some p') hs = dir_pipes q (Some p) hs" for hs
    using p'(1,2) by (auto simp: dir_pipes_def split: option.splits)
  have "pp_outpipe p' = None \<longleftrightarrow> pp_state p' \<in> {Term_ack_sent, Term_req_sent2}"
    using D(5) p'(1,3) by (simp add: dir_ok_def)
  moreover have "hiccups inn \<noteq> [] \<longrightarrow> pp_state p' \<in> {Active, Delimiter_received, Term_req_sent1}"
    using D(5) p'(3,5) by (cases "pp_state p'") (auto simp: dir_ok_def)
  moreover have "\<forall>i\<in>set (dir_pipes (Some p) q (hiccups inn)). \<forall>u. up i = Some u \<longrightarrow> up_clean u"
    if "pp_state p' \<in> {Active, Delimiter_received}"
    using D(5) p'(4) [OF that] unfolding dir_ok_def by auto
  moreover have "\<forall>r. q = Some r \<longrightarrow> pp_inpipe r = Some (last (dir_pipes (Some p) q (hiccups inn)))"
    using D(5) unfolding dir_ok_def by blast
  ultimately have "dir_ok (Some p') q (hiccups inn) up"
    unfolding dir_ok_Some d by blast
  moreover have "dir_ok q (Some p') (hiccups out) up"
    using dir_ok_mono [OF D(6) up_le_refl, of q "Some p'"] p'(2) by simp
  ultimately show ?thesis using D(2,4,7) inn' tab by (simp add: pair_ok_def d)
qed

lemma delimiter_ok:
  assumes ok: "end_ok q out inn (Some p) e"
    and st: "pp_state p = Waiting_for_delimiter \<or> pp_state p = Active \<and> map_option pp_state q = Some Term_req_sent1"
  shows "\<exists>p' e'. process_delimiter p e = Some (p', e') \<and> end_ok q out inn (Some p') e' \<and> q \<noteq> None"
proof -
  note ok' = ok [unfolded end_ok_def]
  note D = pair_okD [OF ok']
  have q: "q \<noteq> None" using pair_ok_alive(1) [OF ok'] st by auto
  show ?thesis
  proof (cases "pp_state p = Active")
    case True
    let ?p = "p\<lparr>pp_state := Delimiter_received\<rparr>"
    have "map_option pp_state q = Some Term_req_sent1" using st True by simp
    hence "(Some Delimiter_received, map_option pp_state q, terms (out @ pe_cmds e), terms inn) \<in> set ctl_table"
      using D(1) True by (auto simp: ctl_table_def)
    hence "pair_ok (Some ?p) q (out @ pe_cmds e) inn (pe_up e) (pe_fresh e)"
      using True D(3) by (intro restate [OF ok']) auto
    thus ?thesis using True q by (simp add: process_delimiter_def end_ok_def)
  next
    case False
    hence w: "pp_state p = Waiting_for_delimiter" using st by blast
    let ?p = "p\<lparr>pp_outpipe := None, pp_state := Term_ack_sent\<rparr>"
    have "(Some Term_ack_sent, map_option pp_state q, terms (out @ pe_cmds e) @ [Pipe_term_ack], terms inn) \<in> set ctl_table"
      using D(1) w by (auto simp: ctl_table_def)
    moreover have "hiccups inn = []" using D(5) w by (auto simp: dir_ok_def)
    ultimately have "pair_ok (Some ?p) q ((out @ pe_cmds e) @ [Pipe_term_ack]) inn (pe_up e) (pe_fresh e)"
      using w D(3) by (intro close_out [OF ok']) simp_all
    thus ?thesis using w q by (simp add: process_delimiter_def end_ok_def send_cmd_def)
  qed
qed

lemma meets_delimiter_ok:
  assumes ok: "end_ok q out inn (Some p) e" and m: "meets_delimiter p e r"
  shows "\<exists>p' e'. r = Some (p', e') \<and> end_ok q out inn (Some p') e' \<and> q \<noteq> None"
proof -
  obtain i u p1 e1 where i: "can_read p" "pp_inpipe p = Some i" "pe_up e i = Some u" "\<not> up_clean u"
    and q1: "quiet p e p1 e1" and r: "r = process_delimiter p1 e1" using m by (auto simp: meets_delimiter_def)
  note ok' = ok [unfolded end_ok_def]
  note D = pair_okD [OF ok']
  have st: "pp_state p = Active \<or> pp_state p = Waiting_for_delimiter" using i(1) by (simp add: can_read_def)
  have q: "q \<noteq> None" using pair_ok_alive(1) [OF ok'] st by auto
  have "i \<in> set (dir_pipes q (Some p) (hiccups (out @ pe_cmds e)))"
  proof -
    have "i = last (dir_pipes q (Some p) (hiccups (out @ pe_cmds e)))" using D(6) i(2) by (auto simp: dir_ok_def)
    moreover have "dir_pipes q (Some p) (hiccups (out @ pe_cmds e)) \<noteq> []" by (simp add: dir_pipes_def split: option.split)
    ultimately show ?thesis by simp
  qed
  hence "\<not> (\<exists>r. q = Some r \<and> pp_state r \<in> {Active, Delimiter_received})"
    using D(6) i(3,4) unfolding dir_ok_def by blast
  hence "pp_state p = Active \<longrightarrow> map_option pp_state q = Some Term_req_sent1"
    using D(1) q by (auto simp: ctl_table_def)
  hence "pp_state p1 = Waiting_for_delimiter \<or> pp_state p1 = Active \<and> map_option pp_state q = Some Term_req_sent1"
    using st q1 by (auto simp: quiet_def)
  thus ?thesis unfolding r using delimiter_ok quiet_ok [OF ok q1] by blast
qed

lemma pipe_term_ok:
  assumes ok: "end_ok q out (Pipe_term # inn) (Some p) e"
  shows "\<exists>p' e'. process_pipe_term p e = Some (p', e') \<and> end_ok q out inn (Some p') e' \<and> q \<noteq> None"
proof -
  note ok' = ok [unfolded end_ok_def]
  note D = pair_okD [OF ok']
  let ?o = "out @ pe_cmds e"
  have hs: "hiccups inn = []" "cmds_ordered inn" using D(3) by simp_all
  have st: "pp_state p \<in> {Active, Delimiter_received, Term_req_sent1}" using D(1) by (auto simp: ctl_table_def terms_Cons)
  have q: "q \<noteq> None" using pair_ok_alive(1) [OF ok'] st by auto
  have cl: "end_ok q out inn (Some p') (send_cmd Pipe_term_ack e)"
    if "pp_state p' \<in> {Term_ack_sent, Term_req_sent2}" "pp_outpipe p' = None" "pp_inpipe p' = pp_inpipe p"
      "(Some (pp_state p'), map_option pp_state q, terms ?o @ [Pipe_term_ack], terms inn) \<in> set ctl_table" for p'
  proof -
    have "pair_ok (Some p') q (?o @ [Pipe_term_ack]) inn (pe_up e) (pe_fresh e)"
      by (rule close_out [OF ok']) (use that st hs in \<open>auto\<close>)
    thus ?thesis by (simp add: end_ok_def send_cmd_def)
  qed
  consider "pp_state p = Active" "pp_delay p" | "pp_state p = Active" "\<not> pp_delay p"
    | "pp_state p = Delimiter_received" | "pp_state p = Term_req_sent1" using st by blast
  thus ?thesis
  proof cases
    case 1
    have "(Some Waiting_for_delimiter, map_option pp_state q, terms ?o, terms inn) \<in> set ctl_table"
      using D(1) 1 by (auto simp: ctl_table_def terms_Cons)
    hence "pair_ok (Some (p\<lparr>pp_state := Waiting_for_delimiter\<rparr>)) q ?o inn (pe_up e) (pe_fresh e)"
      by (intro restate [OF ok']) (use 1 hs in auto)
    thus ?thesis using 1 q by (simp add: process_pipe_term_def end_ok_def)
  next
    case 2
    have "(Some Term_ack_sent, map_option pp_state q, terms ?o @ [Pipe_term_ack], terms inn) \<in> set ctl_table"
      using D(1) 2 by (auto simp: ctl_table_def terms_Cons)
    thus ?thesis using 2 q cl by (simp add: process_pipe_term_def)
  next
    case 3
    have "(Some Term_ack_sent, map_option pp_state q, terms ?o @ [Pipe_term_ack], terms inn) \<in> set ctl_table"
      using D(1) 3 by (auto simp: ctl_table_def terms_Cons)
    thus ?thesis using 3 q cl by (simp add: process_pipe_term_def)
  next
    case 4
    have "(Some Term_req_sent2, map_option pp_state q, terms ?o @ [Pipe_term_ack], terms inn) \<in> set ctl_table"
      using D(1) 4 by (auto simp: ctl_table_def terms_Cons)
    thus ?thesis using 4 q cl by (simp add: process_pipe_term_def)
  qed
qed

lemma write_delimiter_effect:
  assumes "pp_outpipe p = Some j" "pe_up e j = Some u" "up_ok u" "pp_state p \<noteq> Term_ack_sent"
  shows "\<exists>u'. up_ok u' \<and> write_delimiter p e =
    Some (p\<lparr>pp_out_active := False\<rparr>, e\<lparr>pe_up := (pe_up e)(j \<mapsto> u'), pe_cmds := pe_cmds e @ [Activate_read]\<rparr>)"
proof -
  obtain v where v: "up_rollback u = Some v" "up_ok v" "up_open v = 0" using up_rollback_keeps [OF assms(3)] by blast
  have "up_ok (up_flush (up_write delimiter_frame False v))" using v by (intro up_flush_keeps up_write_keeps) auto
  thus ?thesis using assms v
    by (auto simp: write_delimiter_def pipe_rollback_def pipe_flush_def set_up_def send_cmd_def Let_def
        intro!: exI [of _ "up_flush (up_write delimiter_frame False v)"])
qed

lemma terminate_ok:
  assumes ok: "end_ok q out inn (Some p) e"
  shows "\<exists>p' e'. pipe_terminate d p e = Some (p', e') \<and> end_ok q out inn (Some p') e' \<and>
    (pe_cmds e' \<noteq> pe_cmds e \<longrightarrow> q \<noteq> None) \<and> (pp_state p' \<in> {Active, Delimiter_received, Waiting_for_delimiter} \<longrightarrow> d)"
proof (cases "pp_state p \<in> {Term_req_sent1, Term_req_sent2, Term_ack_sent}")
  case True
  have "quiet p e (p\<lparr>pp_delay := d\<rparr>) e" by (simp add: quiet_def quiet_cmds_def)
  thus ?thesis using True quiet_ok [OF ok] by (auto simp: pipe_terminate_def Let_def)
next
  case False
  note ok' = ok [unfolded end_ok_def]
  note D = pair_okD [OF ok']
  have st: "pp_state p \<notin> {Term_ack_sent, Term_req_sent2}" using False by blast
  note A = pair_ok_alive [OF ok' st]
  let ?o = "out @ pe_cmds e"
  obtain j u where j: "pp_outpipe p = Some j" "pe_up e j = Some u" "up_ok u" using A(3) end_live(2) [OF ok] by blast
  consider "pp_state p \<in> {Active, Delimiter_received}" | "pp_state p = Waiting_for_delimiter" d
    | "pp_state p = Waiting_for_delimiter" "\<not> d" using False by (cases "pp_state p") auto
  thus ?thesis
  proof cases
    case 1
    let ?p = "p\<lparr>pp_delay := d, pp_state := Term_req_sent1\<rparr>"
    obtain u' where u': "up_ok u'" "write_delimiter ?p (send_cmd Pipe_term e) = Some (?p\<lparr>pp_out_active := False\<rparr>,
        e\<lparr>pe_up := (pe_up e)(j \<mapsto> u'), pe_cmds := pe_cmds e @ [Pipe_term, Activate_read]\<rparr>)"
      using write_delimiter_effect [of ?p j "send_cmd Pipe_term e" u] j by (auto simp: send_cmd_def)
    have "(Some Term_req_sent1, map_option pp_state q, terms ?o @ terms [Pipe_term, Activate_read], terms inn) \<in> set ctl_table"
      using ctl_terminate [OF D(1) 1] by (simp add: terms_Cons)
    hence "pair_ok (Some (?p\<lparr>pp_out_active := False\<rparr>)) q (?o @ [Pipe_term, Activate_read]) inn
        ((pe_up e)(j \<mapsto> u')) (pe_fresh e)"
      by (intro write_out [OF ok' j(1) u'(1)]) (use 1 j in auto)
    thus ?thesis using 1 u'(2) A(1) by (auto simp: pipe_terminate_def Let_def end_ok_def)
  next
    case 2
    obtain u' where u': "up_ok u'" "write_delimiter (p\<lparr>pp_delay := d\<rparr>) e = Some (p\<lparr>pp_delay := d, pp_out_active := False\<rparr>,
        e\<lparr>pe_up := (pe_up e)(j \<mapsto> u'), pe_cmds := pe_cmds e @ [Activate_read]\<rparr>)"
      using write_delimiter_effect [of "p\<lparr>pp_delay := d\<rparr>" j e u] j 2 by auto
    have "hiccups inn = []" using D(5) 2 by (auto simp: dir_ok_def)
    hence "pair_ok (Some (p\<lparr>pp_delay := d, pp_out_active := False\<rparr>)) q (?o @ [Activate_read]) inn
        ((pe_up e)(j \<mapsto> u')) (pe_fresh e)"
      by (intro write_out [OF ok' j(1) u'(1)]) (use 2 j D(1) in \<open>auto simp: terms_Cons\<close>)
    thus ?thesis using 2 u'(2) A(1) by (auto simp: pipe_terminate_def Let_def end_ok_def)
  next
    case 3
    let ?p = "p\<lparr>pp_delay := d\<rparr>"
    let ?p' = "?p\<lparr>pp_outpipe := None, pp_state := Term_ack_sent\<rparr>"
    have "quiet p e ?p e" by (simp add: quiet_def quiet_cmds_def)
    note ok1 = conjunct1 [OF quiet_ok [OF ok this]]
    obtain e1 where e1: "pipe_rollback ?p e = Some e1" "quiet ?p e ?p e1" using rollback_quiet [OF ok1] by blast
    have cm: "pe_cmds e1 = pe_cmds e" using e1(1) by (auto simp: pipe_rollback_def set_up_def split: option.splits bind_splits)
    note ok2 = conjunct1 [OF quiet_ok [OF ok1 e1(2)], unfolded end_ok_def]
    have "(Some Term_ack_sent, map_option pp_state q, terms (out @ pe_cmds e1) @ [Pipe_term_ack], terms inn) \<in> set ctl_table"
      using D(1) 3 cm by (auto simp: ctl_table_def)
    moreover have "hiccups inn = []" using D(5) 3 by (auto simp: dir_ok_def)
    ultimately have "pair_ok (Some (?p'\<lparr>pp_out_active := False\<rparr>)) q ((out @ pe_cmds e1) @ [Pipe_term_ack]) inn (pe_up e1) (pe_fresh e1)"
      by (intro close_out [OF ok2]) (use 3 D(3) in auto)
    thus ?thesis using 3 e1(1) A(1) by (auto simp: pipe_terminate_def Let_def end_ok_def write_delimiter_def send_cmd_def)
  qed
qed

lemma hiccup_ok:
  assumes ok: "end_ok q out inn (Some p) e"
  shows "\<exists>p' e'. pipe_hiccup p e = (p', e') \<and> end_ok q out inn (Some p') e' \<and>
    (pe_cmds e' \<noteq> pe_cmds e \<longrightarrow> q \<noteq> None)"
proof (cases "pp_state p = Active")
  case True
  note ok' = ok [unfolded end_ok_def]
  note D = pair_okD [OF ok'] and A = pair_ok_alive [OF ok'] 
  let ?o = "out @ pe_cmds e" and ?n = "pe_fresh e"
  let ?p = "p\<lparr>pp_inpipe := Some ?n, pp_in_active := True\<rparr>" and ?o' = "(out @ pe_cmds e) @ [Hiccup ?n]"
  obtain r where r: "q = Some r" "pp_state r \<in> {Active, Term_req_sent1}"
    using D(1) True by (cases q) (auto simp: ctl_table_def)
  obtain j where j: "pp_outpipe r = Some j" using D(6) r by (cases "pp_outpipe r") (auto simp: dir_ok_def)
  have d1: "dir_pipes (Some ?p) q hs = dir_pipes (Some p) q hs" for hs
    by (simp add: dir_pipes_def split: option.split)
  have d2: "dir_pipes q (Some ?p) (hs @ [?n]) = dir_pipes q (Some p) hs @ [?n]" for hs
    using j r(1) by (simp add: dir_pipes_def)
  have fr: "?n \<notin> set (dir_pipes (Some p) q (hiccups inn))" "?n \<notin> set (dir_pipes q (Some p) (hiccups ?o))"
    using D(7) by (auto simp: pipes_ok_def)
  have new: "up_ok (up_new c)" "up_clean (up_new c)" for c
    by (simp_all add: up_new_def pipe_spec_new_def conflate_new_def dbuffer_new_def is_delimiter_def empty_frame_def data_frame_def)
  let ?up = "(pe_up e)(?n \<mapsto> up_new (pp_conflate p))"
  have "dir_ok (Some ?p) q (hiccups inn) ?up"
    using dir_ok_mono [OF D(5) up_le_refl, of "Some ?p" q] fr(1) by (simp add: dir_ok_update d1)
  moreover have "dir_ok q (Some ?p) (hiccups ?o') ?up"
  proof -
    have "dir_ok q (Some p) (hiccups ?o) ?up" using D(6) fr(2) by (simp add: dir_ok_update)
    thus ?thesis using r new(2) d2 [of "hiccups ?o"] by (auto simp: dir_ok_Some)
  qed
  moreover have "pipes_ok (dir_pipes (Some ?p) q (hiccups inn) @ dir_pipes q (Some ?p) (hiccups ?o')) ?up (Suc ?n)"
    using D(7) fr new(1) d2 [of "hiccups ?o"] d1 unfolding pipes_ok_def by (auto simp: less_Suc_eq)
  moreover have "terms ?o = []" using D(1) True by (auto simp: ctl_table_def)
  moreover have "cmds_ordered ?o'"
    using D(2) A(2) True \<open>terms ?o = []\<close> by (auto simp: cmds_ordered_append)
  ultimately have "pair_ok (Some ?p) q ?o' inn ?up (Suc ?n)"
    using D(1,3) r(1) by (simp add: pair_ok_def terms_Cons)
  thus ?thesis using True r(1) by (simp add: pipe_hiccup_def end_ok_def send_cmd_def)
qed (use ok in \<open>simp add: pipe_hiccup_def\<close>)

lemma process_hiccup_ok:
  assumes ok: "end_ok q out (Hiccup i # inn) (Some p) e"
  shows "\<exists>p' e'. process_hiccup i p e = Some (p', e') \<and> end_ok q out inn (Some p') e' \<and> pe_cmds e' = pe_cmds e"
proof -
  note ok' = ok [unfolded end_ok_def]
  note D = pair_okD [OF ok']
  have st: "pp_state p \<in> {Active, Delimiter_received, Term_req_sent1}" using D(5) by (simp add: dir_ok_Some)
  hence st': "pp_state p \<notin> {Term_ack_sent, Term_req_sent2}" by auto
  note A = pair_ok_alive [OF ok' st']
  obtain j u where j: "pp_outpipe p = Some j" "pe_up e j = Some u" using A(3) end_live(2) [OF ok] by blast
  obtain r where r: "q = Some r" using A(1) by blast
  define n where "n = snd (up_drain (up_flush u) (pp_msgs_written p))"
  let ?p = "p\<lparr>pp_msgs_written := n, pp_outpipe := Some i, pp_out_active := True\<rparr>" and ?up = "(pe_up e)(j := None)"
  have d: "dir_pipes (Some p) q (i # hs) = j # i # hs" "dir_pipes (Some ?p) q hs = i # hs"
    "dir_pipes q (Some ?p) hs = dir_pipes q (Some p) hs" for hs
    using j(1) by (simp_all add: dir_pipes_def r split: option.split)
  have nj: "j \<notin> set (i # hiccups inn)" "j \<notin> set (dir_pipes q (Some p) (hiccups (out @ pe_cmds e)))"
    using D(7) d by (auto simp: pipes_ok_def)
  have "dir_ok (Some ?p) q (hiccups inn) (pe_up e)"
    using D(5) st d unfolding dir_ok_Some by auto
  hence "dir_ok (Some ?p) q (hiccups inn) ?up" using nj(1) d by (simp add: dir_ok_update)
  moreover have "dir_ok q (Some ?p) (hiccups (out @ pe_cmds e)) (pe_up e)"
    using dir_ok_mono [OF D(6) up_le_refl, of q "Some ?p"] by simp
  hence "dir_ok q (Some ?p) (hiccups (out @ pe_cmds e)) ?up" using nj(2) d by (simp add: dir_ok_update)
  moreover have "pipes_ok (dir_pipes (Some ?p) q (hiccups inn) @ dir_pipes q (Some ?p) (hiccups (out @ pe_cmds e))) ?up (pe_fresh e)"
    using D(7) nj unfolding d by (auto simp: pipes_ok_def d)
  ultimately have "pair_ok (Some ?p) q (out @ pe_cmds e) inn ?up (pe_fresh e)"
    using D(1,2,3) r by (simp add: pair_ok_def terms_Cons)
  thus ?thesis using j by (simp add: process_hiccup_def end_ok_def n_def set_up_def notify_sink_def Let_def)
qed

lemma ctl_die:
  assumes "(Some a, b, x, Pipe_term_ack # y) \<in> set ctl_table"
  shows "y = []" "(None, b, x @ (if a = Term_req_sent1 then [Pipe_term_ack] else []), []) \<in> set ctl_table"
    and "a \<in> {Term_req_sent1, Term_ack_sent, Term_req_sent2}"
    and "b = None \<or> b = Some Term_ack_sent \<or> b = Some Term_req_sent2" "b = None \<Longrightarrow> a \<noteq> Term_req_sent1"
  using assms by (auto simp: ctl_table_def)

lemma pipe_term_ack_ok:
  assumes ok: "end_ok q out (Pipe_term_ack # inn) (Some p) e"
  shows "\<exists>e'. process_pipe_term_ack p e = Some e' \<and> end_ok q out inn None e' \<and> inn = [] \<and>
    (pe_cmds e' \<noteq> pe_cmds e \<longrightarrow> q \<noteq> None)"
proof -
  note ok' = ok [unfolded end_ok_def]
  note D = pair_okD [OF ok']
  let ?o = "out @ pe_cmds e" and ?cs = "if pp_state p = Term_req_sent1 then [Pipe_term_ack] else []"
  note T = ctl_die [OF D(1) [unfolded terms_Cons, simplified]]
  have inn: "inn = []" using D(3) by simp
  obtain i u where i: "pp_inpipe p = Some i" "pe_up e i = Some u" using end_live(1) [OF ok] by blast
  have ho: "hiccups ?o = []" "Option.bind q pp_outpipe = None"
    using D(4,6) T(4) by (cases q; auto simp: dir_ok_Some)+
  have dq: "dir_pipes q (Some p) (hiccups ?o) = [i]" using ho i by (simp add: dir_pipes_def)
  have di: "i \<notin> set (dir_pipes (Some p) q (hiccups (Pipe_term_ack # inn)))" using D(7) dq by (auto simp: pipes_ok_def)
  have dp: "dir_pipes None q [] = dir_pipes (Some p) q (hiccups (Pipe_term_ack # inn))"
    using D(5) inn by (cases q; cases "pp_outpipe p") (auto simp: dir_pipes_def dir_ok_Some)
  let ?up = "(pe_up e)(i := None)"
  have "dir_ok None q [] ?up" using D(5) unfolding dir_ok_def dp by (metis option.distinct(1))
  moreover have "dir_ok q None (hiccups (?o @ ?cs)) ?up"
    using D(6) ho by (cases q) (auto simp: dir_ok_Some dir_ok_def [of None] dir_pipes_def)
  moreover have "pipes_ok (dir_pipes None q [] @ dir_pipes q None (hiccups (?o @ ?cs))) ?up (pe_fresh e)"
    using D(7) dq di unfolding dp pipes_ok_def by (auto simp: dir_pipes_def [of q None])
  moreover have "cmds_ordered (?o @ ?cs)" "q = None \<longrightarrow> ?o @ ?cs = []"
    using D(2,4) pair_ok_alive(2) [OF ok'] T(5) by (auto simp: cmds_ordered_append)
  moreover have "(None, map_option pp_state q, terms (?o @ ?cs), terms []) \<in> set ctl_table"
    using T(2) by (auto simp: terms_Cons)
  ultimately have "pair_ok None q (?o @ ?cs) inn ?up (pe_fresh e)" unfolding pair_ok_def inn by simp
  thus ?thesis using i T(3,5) inn
    by (auto simp: process_pipe_term_ack_def end_ok_def set_up_def send_cmd_def notify_sink_def zmq_assert_def Let_def)
qed

section \<open>Safety and shutdown\<close>

lemma call_ok:
  assumes ok: "end_ok q out inn (Some p) e" and al: "call_allowed a (Some p)"
  shows "\<exists>p' e'. pipe_call a p e = Some (p', e') \<and> end_ok q out inn (Some p') e' \<and> (pe_cmds e' \<noteq> pe_cmds e \<longrightarrow> q \<noteq> None)"
proof -
  have qu: ?thesis if "pipe_call a p e = Some (p', e')" "quiet p e p' e'" for p' e'
    using that quiet_ok [OF ok] by blast
  show ?thesis
  proof (cases a)
    case Do_check_read
    thus ?thesis using check_read_cases [OF ok] qu meets_delimiter_ok [OF ok] by blast
  next
    case Do_read
    thus ?thesis using read_cases [OF ok] qu meets_delimiter_ok [OF ok] by blast
  next
    case Do_check_write
    have "quiet p e (snd (pipe_check_write p)) e" by (simp add: pipe_check_write_def quiet_def quiet_cmds_def)
    thus ?thesis using qu Do_check_write by simp
  next
    case (Do_write f)
    thus ?thesis using write_quiet [OF ok, of f] al qu by auto
  next
    case Do_rollback
    thus ?thesis using rollback_quiet [OF ok] qu by auto
  next
    case Do_flush
    thus ?thesis using flush_quiet [OF ok] qu by auto
  next
    case Do_hiccup
    thus ?thesis using hiccup_ok [OF ok] by auto
  next
    case (Do_terminate d)
    thus ?thesis using terminate_ok [OF ok, of d] by auto
  qed (use qu al in \<open>simp_all add: pipe_set_nodelay_def pipe_set_hwms_def pipe_set_hwms_boost_def Let_def quiet_def
      quiet_cmds_def pipe_send_hwms_to_peer_def send_cmd_def\<close>)
qed

lemma pop_quiet:
  "end_ok q out (c # inn) (Some p) e \<Longrightarrow> \<not> is_term c \<Longrightarrow> \<not> is_hiccup c \<Longrightarrow> end_ok q out inn (Some p) e"
  by (cases c) (auto simp: end_ok_def pair_ok_def terms_Cons)

definition closing :: "pipe option \<Rightarrow> bool" where
  "closing p \<longleftrightarrow>
     (case p of None \<Rightarrow> True | Some p \<Rightarrow> pp_state p \<in> {Term_req_sent1, Term_req_sent2, Term_ack_sent})"

lemma process_ok:
  assumes ok: "end_ok q out (c # inn) (Some p) e"
  shows "\<exists>p' e'. pipe_process c p e = Some (p', e') \<and> end_ok q out inn p' e' \<and>
    (pe_cmds e' \<noteq> pe_cmds e \<longrightarrow> q \<noteq> None) \<and> (closing (Some p) \<longrightarrow> closing p')"
proof (cases c)
  case Activate_read
  have "quiet p e (fst (process_activate_read p e)) (snd (process_activate_read p e))"
    by (simp add: process_activate_read_def quiet_def quiet_cmds_def notify_sink_def)
  thus ?thesis using quiet_ok [OF pop_quiet [OF ok]] Activate_read
    by (auto simp: closing_def quiet_def map_prod_def split: prod.splits)
next
  case (Activate_write n)
  have "quiet p e (fst (process_activate_write n p e)) (snd (process_activate_write n p e))"
    by (simp add: process_activate_write_def quiet_def quiet_cmds_def notify_sink_def Let_def)
  thus ?thesis using quiet_ok [OF pop_quiet [OF ok]] Activate_write
    by (auto simp: closing_def quiet_def map_prod_def split: prod.splits)
next
  case (Hiccup i)
  thus ?thesis using process_hiccup_ok [of q out i inn p e] ok
    by (auto simp: closing_def process_hiccup_def Let_def split: bind_splits)
next
  case Pipe_term
  thus ?thesis using pipe_term_ok [of q out inn p e] ok
    by (auto simp: closing_def process_pipe_term_def split: if_splits pipe_state.splits)
next
  case Pipe_term_ack
  thus ?thesis using pipe_term_ack_ok [of q out inn p e] ok by (auto simp: closing_def)
next
  case (Pipe_hwm i j)
  have "quiet p e (pipe_set_hwms i j p) e" by (simp add: pipe_set_hwms_def Let_def quiet_def quiet_cmds_def)
  thus ?thesis using quiet_ok [OF pop_quiet [OF ok]] Pipe_hwm by (auto simp: closing_def quiet_def)
qed

lemma pair_inv_end:
  "pair_inv s \<longleftrightarrow> end_ok (pr_peer s) (pr_out s) (pr_in s) (pr_own s) (pair_env s)"
  by (simp add: pair_inv_def end_ok_def pair_env_def)

lemma pair_put_ok:
  assumes "end_ok (pr_peer s) (pr_out s) (pr_in s) p' e'" "pe_cmds e' \<noteq> [] \<longrightarrow> pr_peer s \<noteq> None"
  shows "\<exists>s'. pair_put s (p', e') = Some s' \<and> pair_inv s' \<and> pr_own s' = p' \<and> pr_peer s' = pr_peer s \<and> pr_in s' = pr_in s"
  using assms by (auto simp: pair_put_def pair_inv_def end_ok_def)

lemma own_call_ok:
  assumes "pair_inv s" "call_allowed a (pr_own s)"
  shows "\<exists>s'. own_call a s = Some s' \<and> pair_inv s' \<and> pr_peer s' = pr_peer s"
proof (cases "pr_own s")
  case (Some p)
  obtain p' e' where e': "pipe_call a p (pair_env s) = Some (p', e')"
      "end_ok (pr_peer s) (pr_out s) (pr_in s) (Some p') e'" "pe_cmds e' \<noteq> [] \<longrightarrow> pr_peer s \<noteq> None"
    using call_ok [of "pr_peer s" "pr_out s" "pr_in s" p "pair_env s" a] assms Some
    by (auto simp: pair_inv_end) (auto simp: pair_env_def)
  thus ?thesis using pair_put_ok [OF e'(2,3)] Some by (auto simp: own_call_def)
qed (use assms in \<open>simp add: own_call_def\<close>)

lemma own_process_ok:
  assumes "pair_inv s"
  shows "\<exists>s'. own_process s = Some s' \<and> pair_inv s' \<and> pr_peer s' = pr_peer s \<and> pr_in s' = tl (pr_in s) \<and>
    (closing (pr_own s) \<longrightarrow> closing (pr_own s'))"
proof (cases "pr_in s")
  case (Cons c cs)
  obtain p where p: "pr_own s = Some p" using assms Cons by (cases "pr_own s") (auto simp: pair_inv_def pair_ok_def)
  obtain p' e' where e': "pipe_process c p (pair_env s) = Some (p', e')"
      "end_ok (pr_peer s) (pr_out s) cs p' e'" "pe_cmds e' \<noteq> [] \<longrightarrow> pr_peer s \<noteq> None" "closing (Some p) \<longrightarrow> closing p'"
    using process_ok [of "pr_peer s" "pr_out s" c cs p "pair_env s"] assms Cons p
    by (auto simp: pair_inv_end) (auto simp: pair_env_def)
  have env: "pair_env (s\<lparr>pr_in := cs\<rparr>) = pair_env s" by (simp add: pair_env_def)
  show ?thesis using pair_put_ok [of "s\<lparr>pr_in := cs\<rparr>" p' e'] e' Cons p by (auto simp: own_process_def env)
qed (use assms in \<open>simp add: own_process_def\<close>)

lemma pair_exec_ok:
  assumes "pair_inv s" "step_allowed a s"
  shows "\<exists>s'. pair_exec a s = Some s' \<and> pair_inv s'"
proof -
  have sw: "pair_inv (pair_swap s)" "pr_own (pair_swap s) = pr_peer s" using assms(1) by simp_all
  show ?thesis
  proof (cases a)
    case (Own_call c)
    thus ?thesis using own_call_ok [OF assms(1), of c] assms(2) by auto
  next
    case (Peer_call c)
    thus ?thesis using own_call_ok [OF sw(1), of c] assms(2) sw(2) by auto
  next
    case Own_process
    thus ?thesis using own_process_ok [OF assms(1)] by auto
  next
    case Peer_process
    thus ?thesis using own_process_ok [OF sw(1)] by auto
  qed
qed

lemma pair_run_ok:
  "pair_inv s \<Longrightarrow> run_allowed as s \<Longrightarrow> \<exists>s'. pair_run as s = Some s' \<and> pair_inv s'"
proof (induction as arbitrary: s)
  case (Cons a as)
  obtain s1 where "pair_exec a s = Some s1" "pair_inv s1" using pair_exec_ok [of s a] Cons.prems by auto
  thus ?case using Cons by simp
qed simp

lemma process_all_ok:
  assumes "pair_inv s" "closing (pr_own s)"
  shows "\<exists>s'. process_all s = Some s' \<and> pair_inv s' \<and> pr_peer s' = pr_peer s \<and> pr_in s' = [] \<and> closing (pr_own s')"
proof -
  have "\<exists>s'. process_n n s = Some s' \<and> pair_inv s' \<and> pr_peer s' = pr_peer s \<and> pr_in s' = [] \<and> closing (pr_own s')"
    if "pair_inv s" "closing (pr_own s)" "length (pr_in s) = n" for n s
    using that
  proof (induction n arbitrary: s)
    case (Suc n)
    obtain s1 where s1: "own_process s = Some s1" "pair_inv s1" "pr_peer s1 = pr_peer s" "pr_in s1 = tl (pr_in s)"
        "closing (pr_own s1)" using own_process_ok [OF Suc.prems(1)] Suc.prems(2) by blast
    have "length (pr_in s1) = n" using s1(4) Suc.prems(3) by simp
    thus ?case using Suc.IH [OF s1(2,5)] s1(1,3) by simp
  qed simp
  thus ?thesis using assms by (simp add: process_all_def)
qed

lemma terminate_closing:
  assumes "pair_inv s"
  shows "\<exists>s'. own_call (Do_terminate False) s = Some s' \<and> pair_inv s' \<and> pr_peer s' = pr_peer s \<and> closing (pr_own s')"
proof (cases "pr_own s")
  case (Some p)
  have "end_ok (pr_peer s) (pr_out s) (pr_in s) (Some p) (pair_env s)" using assms Some by (simp add: pair_inv_end)
  then obtain p' e' where e': "pipe_terminate False p (pair_env s) = Some (p', e')"
      "end_ok (pr_peer s) (pr_out s) (pr_in s) (Some p') e'" "pe_cmds e' \<noteq> [] \<longrightarrow> pr_peer s \<noteq> None"
      "pp_state p' \<notin> {Active, Delimiter_received, Waiting_for_delimiter}"
    using terminate_ok [of "pr_peer s" "pr_out s" "pr_in s" p "pair_env s" False] by (auto simp: pair_env_def)
  have "closing (Some p')" using e'(4) by (cases "pp_state p'") (auto simp: closing_def)
  thus ?thesis using pair_put_ok [OF e'(2,3)] e'(1) Some by (auto simp: own_call_def)
qed (use assms in \<open>simp add: own_call_def closing_def\<close>)

lemma closed_ctl:
  assumes "pair_inv s" "closing (pr_own s)" "pr_in s = []"
  shows "pr_own s = None \<or> (\<exists>p. pr_own s = Some p \<and> pp_state p \<in> {Term_req_sent2, Term_ack_sent}) \<or>
    \<not> closing (pr_peer s)" and "pr_peer s = None \<Longrightarrow> pr_own s = None"
  using assms by (auto simp: pair_inv_def pair_ok_def ctl_table_def closing_def)

lemma all_closed:
  assumes "pair_inv s" "pr_own s = None" "pr_peer s = None"
  shows "pr_up s = Map.empty" "pr_in s = []" "pr_out s = []"
  using assms by (auto simp: pair_inv_def pair_ok_def pipes_ok_def dir_pipes_def)

lemma run_allowed_always: "list_all (\<lambda>a. \<forall>s. step_allowed a s) as \<Longrightarrow> run_allowed as s"
  by (induction as arbitrary: s) (auto split: option.split)





text \<open>
  The announcement of new water marks is not guarded by the state of the endpoint: after the peer is
  deallocated it is sent to freed memory.
\<close>

lemma send_hwms_after_peer_deallocated:
  "\<exists>s. pair_run [Peer_call Do_set_nodelay, Own_call (Do_terminate True), Peer_process, Own_process, Peer_process]
      (pair_new (0, 0) (False, False)) = Some s \<and>
    pr_own s = None \<and> pr_peer s \<noteq> None \<and> pair_exec (Peer_call (Do_send_hwms 1 1)) s = None"
  by (simp add: pair_new_def pipepair_def pipe_new_def up_new_def pipe_spec_new_def own_call_def own_process_def
      pair_env_def pair_put_def pair_swap_def pipe_set_nodelay_def pipe_terminate_def Let_def send_cmd_def
      write_delimiter_def pipe_rollback_def up_rollback.simps [of "Fifo s" for s] set_up_def pipe_flush_def
      process_pipe_term_def process_activate_read_def process_pipe_term_ack_def notify_sink_def
      pipe_send_hwms_to_peer_def)

end
