(* ===== verification/Array.thy ===== *)
theory Array
  imports Prelude
begin

text \<open>
  The array of \<open>src/array.hpp\<close>: every item stores its own position, so that an item is found and
  erased in constant time.  The positions are kept in \<open>ar_index\<close>; they are \<open>-1\<close> at first and
  are not reset when an item is erased.  An access out of range gives \<open>None\<close>.
\<close>

record 'a arr =
  ar_items :: "'a list"
  ar_index :: "'a \<Rightarrow> int"

definition arr_new :: "'a arr" where
  "arr_new = \<lparr>ar_items = [], ar_index = (\<lambda>_. -1)\<rparr>"

definition arr_size :: "'a arr \<Rightarrow> nat" where
  "arr_size a = length (ar_items a)"

definition arr_at :: "nat \<Rightarrow> 'a arr \<Rightarrow> 'a option" where
  "arr_at i a = (if i < arr_size a then Some (ar_items a ! i) else None)"

definition arr_push_back :: "'a \<Rightarrow> 'a arr \<Rightarrow> 'a arr" where
  "arr_push_back x a =
     a\<lparr>ar_items := ar_items a @ [x], ar_index := (ar_index a)(x := int (arr_size a))\<rparr>"

definition arr_erase_at :: "nat \<Rightarrow> 'a arr \<Rightarrow> 'a arr option" where
  "arr_erase_at i a =
     (if i < arr_size a
      then (let b = last (ar_items a) in
            Some (a\<lparr>ar_items := butlast ((ar_items a)[i := b]), ar_index := (ar_index a)(b := int i)\<rparr>))
      else None)"

definition arr_index :: "'a \<Rightarrow> 'a arr \<Rightarrow> nat option" where
  "arr_index x a = (if ar_index a x < 0 then None else Some (nat (ar_index a x)))"

definition arr_erase :: "'a \<Rightarrow> 'a arr \<Rightarrow> 'a arr option" where
  "arr_erase x a = do { i \<leftarrow> arr_index x a; arr_erase_at i a }"

definition arr_swap :: "nat \<Rightarrow> nat \<Rightarrow> 'a arr \<Rightarrow> 'a arr option" where
  "arr_swap i j a =
     (if i < arr_size a \<and> j < arr_size a
      then (let x = ar_items a ! i; y = ar_items a ! j in
            Some (a\<lparr>ar_items := (ar_items a)[i := y, j := x],
                    ar_index := (ar_index a)(x := int j, y := int i)\<rparr>))
      else None)"

section \<open>The stored positions\<close>

definition arr_ok :: "'a arr \<Rightarrow> bool" where
  "arr_ok a \<longleftrightarrow> distinct (ar_items a) \<and> (\<forall>i < arr_size a. ar_index a (ar_items a ! i) = int i)"

lemma arr_ok_new [simp]: "arr_ok arr_new" "ar_items arr_new = []" "arr_size arr_new = 0"
  by (simp_all add: arr_ok_def arr_new_def arr_size_def)

lemma arr_index_nth: "arr_ok a \<Longrightarrow> i < arr_size a \<Longrightarrow> arr_index (ar_items a ! i) a = Some i"
  by (simp add: arr_ok_def arr_index_def)

lemma arr_index_member:
  assumes "arr_ok a" "x \<in> set (ar_items a)"
  shows "\<exists>i. arr_index x a = Some i \<and> i < arr_size a \<and> ar_items a ! i = x"
  using assms arr_index_nth [OF assms(1)] by (metis arr_size_def in_set_conv_nth)

lemma arr_push_back_ok:
  "arr_ok a \<Longrightarrow> x \<notin> set (ar_items a) \<Longrightarrow> arr_ok (arr_push_back x a)"
  by (auto simp: arr_ok_def arr_push_back_def arr_size_def nth_append less_Suc_eq)

lemma arr_swap_Some:
  assumes "i < arr_size a" "j < arr_size a"
  shows "\<exists>b. arr_swap i j a = Some b \<and> ar_items b = (ar_items a)[i := ar_items a ! j, j := ar_items a ! i]"
  using assms by (simp add: arr_swap_def Let_def)

lemma swap_set [simp]:
  "i < length xs \<Longrightarrow> j < length xs \<Longrightarrow> set (xs[i := xs ! j, j := xs ! i]) = set xs"
  using set_swap by (metis (no_types))

lemma swap_distinct [simp]:
  "i < length xs \<Longrightarrow> j < length xs \<Longrightarrow> distinct (xs[i := xs ! j, j := xs ! i]) = distinct xs"
  using distinct_swap by metis

lemma swap_nth:
  "i < length xs \<Longrightarrow> j < length xs \<Longrightarrow> k < length xs \<Longrightarrow>
    xs[i := xs ! j, j := xs ! i] ! k = xs ! (if k = j then i else if k = i then j else k)"
  by (auto simp: nth_list_update)

lemma arr_swap_ok:
  assumes ok: "arr_ok a" and b: "arr_swap i j a = Some b"
  shows "arr_ok b \<and> arr_size b = arr_size a \<and> set (ar_items b) = set (ar_items a) \<and>
    ar_items b = (ar_items a)[i := ar_items a ! j, j := ar_items a ! i]"
proof -
  have ij: "i < length (ar_items a)" "j < length (ar_items a)"
    and items: "ar_items b = (ar_items a)[i := ar_items a ! j, j := ar_items a ! i]"
    and idx: "ar_index b = (ar_index a)(ar_items a ! i := int j, ar_items a ! j := int i)"
    using b by (auto simp: arr_swap_def Let_def arr_size_def split: if_splits)
  have d: "distinct (ar_items a)" using ok by (simp add: arr_ok_def)
  have "ar_index b (ar_items b ! k) = int k" if "k < arr_size b" for k
  proof -
    have k: "k < length (ar_items a)" using that items by (simp add: arr_size_def)
    have "ar_items b ! k = ar_items a ! (if k = j then i else if k = i then j else k)"
      unfolding items using swap_nth [OF ij k] .
    thus ?thesis using ok ij k d unfolding idx by (auto simp: arr_ok_def arr_size_def nth_eq_iff_index_eq)
  qed
  hence "arr_ok b" using d ij by (simp add: arr_ok_def items)
  thus ?thesis using ij items by (simp add: arr_size_def)
qed

text \<open>Moving an item to the end of a prefix, and to the end of its complement.\<close>

lemma swap_out:
  assumes d: "distinct xs" and n: "i < n" "n \<le> length xs" and ys: "ys = xs[i := xs ! (n - 1), n - 1 := xs ! i]"
  shows "j \<le> i \<Longrightarrow> take j ys = take j xs" and "n \<le> k \<Longrightarrow> set (take k ys) = set (take k xs)"
    and "set (take (n - 1) ys) = set (take n xs) - {xs ! i}" and "ys ! (n - 1) = xs ! i"
proof -
  let ?a = "n - 1"
  have len: "i < length xs" "?a < length xs" "i \<le> ?a" using n by auto
  show "j \<le> i \<Longrightarrow> take j ys = take j xs" using len by (simp add: ys)
  show last: "ys ! ?a = xs ! i" using len by (simp add: ys)
  show "set (take k ys) = set (take k xs)" if "n \<le> k"
  proof -
    have "take k ys = (take k xs)[i := take k xs ! ?a, ?a := take k xs ! i]"
      using that n by (simp add: ys take_update_swap)
    moreover have "i < length (take k xs)" "?a < length (take k xs)" using that n by auto
    ultimately show ?thesis by (simp only: swap_set)
  qed
  have t: "take n xs = take ?a xs @ [xs ! ?a]" using n take_Suc_conv_app_nth [of ?a xs] by simp
  have dn: "distinct (take ?a xs @ [xs ! ?a])" unfolding t [symmetric] using d by simp
  show "set (take ?a ys) = set (take n xs) - {xs ! i}"
  proof (cases "i = ?a")
    case True
    thus ?thesis using dn unfolding t by (auto simp: ys)
  next
    case False
    hence ia: "i < ?a" using len by simp
    have "take ?a ys = take ?a (xs[i := xs ! ?a])" by (simp add: ys)
    hence "take ?a ys = (take ?a xs)[i := xs ! ?a]" by (simp only: take_update_swap)
    moreover have "set ((take ?a xs)[i := xs ! ?a]) = insert (xs ! ?a) (set (take ?a xs) - {take ?a xs ! i})"
      using ia len(2) dn by (intro set_update_distinct) auto
    moreover have "xs ! i \<in> set (take ?a xs)" "take ?a xs ! i = xs ! i"
      using ia len(2) by (auto simp: in_set_conv_nth intro!: exI [of _ i])
    ultimately show ?thesis using dn unfolding t by auto
  qed
qed

lemma swap_in:
  assumes n: "n \<le> i" "i < length xs" and ys: "ys = xs[i := xs ! n, n := xs ! i]"
  shows "j \<le> n \<Longrightarrow> take j ys = take j xs" and "i < k \<Longrightarrow> set (take k ys) = set (take k xs)"
    and "take (Suc n) ys = take n xs @ [xs ! i]"
proof -
  have len: "n < length xs" using n by simp
  show "j \<le> n \<Longrightarrow> take j ys = take j xs" using n by (simp add: ys)
  show "set (take k ys) = set (take k xs)" if "i < k"
  proof -
    have "take k ys = (take k xs)[i := take k xs ! n, n := take k xs ! i]"
      using that n by (simp add: ys take_update_swap)
    moreover have "i < length (take k xs)" "n < length (take k xs)" using that n by auto
    ultimately show ?thesis by (simp only: swap_set)
  qed
  have "ys ! n = xs ! i" "take n ys = take n xs" "length ys = length xs" using n len by (simp_all add: ys)
  thus "take (Suc n) ys = take n xs @ [xs ! i]" using len by (simp add: take_Suc_conv_app_nth)
qed

lemma set_drop_take:
  assumes "distinct xs" "i \<le> n"
  shows "set (drop i (take n xs)) = set (take n xs) - set (take i xs)"
proof -
  let ?ys = "take n xs"
  have "take i xs = take i ?ys" using assms(2) by (simp add: min_absorb1)
  moreover have "set (take i ?ys) \<inter> set (drop i ?ys) = {}"
    using assms(1) by (intro set_take_disj_set_drop_if_distinct) simp_all
  moreover have "set ?ys = set (take i ?ys) \<union> set (drop i ?ys)" by (metis append_take_drop_id set_append)
  ultimately show ?thesis by auto
qed

lemma arr_erase_at_ok:
  assumes ok: "arr_ok a" and i: "i < arr_size a"
  shows "\<exists>b. arr_erase_at i a = Some b \<and> arr_ok b \<and> Suc (arr_size b) = arr_size a \<and>
    set (ar_items b) = set (ar_items a) - {ar_items a ! i} \<and> ar_items b = butlast ((ar_items a)[i := last (ar_items a)])"
proof -
  obtain xs y where xs: "ar_items a = xs @ [y]" using i by (cases "ar_items a" rule: rev_cases) (auto simp: arr_size_def)
  let ?b = "a\<lparr>ar_items := butlast ((ar_items a)[i := y]), ar_index := (ar_index a)(y := int i)\<rparr>"
  have d: "distinct (xs @ [y])" and ix: "\<And>k. k < length xs \<Longrightarrow> ar_index a (xs ! k) = int k"
    using ok xs by (auto simp: arr_ok_def arr_size_def nth_append less_Suc_eq)
  have items: "ar_items ?b = (if i < length xs then xs[i := y] else xs)"
    using i by (auto simp: xs arr_size_def butlast_append list_update_append less_Suc_eq split: nat.splits)
  have "arr_ok ?b"
  proof (cases "i < length xs")
    case True
    thus ?thesis using d ix unfolding arr_ok_def arr_size_def items
      by (auto simp: nth_list_update distinct_list_update nth_eq_iff_index_eq)
  next
    case False
    thus ?thesis using d ix unfolding arr_ok_def arr_size_def items by (auto simp: in_set_conv_nth)
  qed
  moreover have "set (ar_items ?b) = set (ar_items a) - {ar_items a ! i}"
  proof (cases "i < length xs")
    case True
    hence "set (xs[i := y]) = insert y (set xs - {xs ! i})" using d by (simp add: set_update_distinct)
    thus ?thesis using True d items xs by (auto simp: nth_append)
  next
    case False
    hence "i = length xs" using i xs by (simp add: arr_size_def)
    thus ?thesis using d items xs by auto
  qed
  moreover have "arr_erase_at i a = Some ?b" using i xs by (simp add: arr_erase_at_def Let_def)
  moreover have "Suc (arr_size ?b) = arr_size a" using i xs by (simp add: arr_size_def)
  ultimately show ?thesis using xs by auto
qed

text \<open>The two kinds of swap on arrays: out of the front part of length \<open>n\<close>, and into it.\<close>

lemma arr_swap_out:
  assumes ok: "arr_ok a" and n: "i < n" "n \<le> arr_size a"
  shows "\<exists>b. arr_swap i (n - 1) a = Some b \<and> arr_ok b \<and> arr_size b = arr_size a \<and>
    (\<forall>j \<le> i. take j (ar_items b) = take j (ar_items a)) \<and>
    (\<forall>k \<ge> n. set (take k (ar_items b)) = set (take k (ar_items a))) \<and>
    set (take (n - 1) (ar_items b)) = set (take n (ar_items a)) - {ar_items a ! i} \<and> ar_items b ! (n - 1) = ar_items a ! i"
proof -
  have len: "i < arr_size a" "n - 1 < arr_size a" using n by auto
  obtain b where b: "arr_swap i (n - 1) a = Some b" using arr_swap_Some [OF len] by blast
  have *: "arr_ok b" "arr_size b = arr_size a" and ys: "ar_items b = (ar_items a)[i := ar_items a ! (n - 1), n - 1 := ar_items a ! i]"
    using arr_swap_ok [OF ok b] by blast+
  have d: "distinct (ar_items a)" "n \<le> length (ar_items a)" using ok n by (simp_all add: arr_ok_def arr_size_def)
  show ?thesis using b * swap_out [OF d(1) n(1) d(2) ys] by blast
qed

lemma arr_swap_in:
  assumes ok: "arr_ok a" and n: "n \<le> i" "i < arr_size a"
  shows "\<exists>b. arr_swap i n a = Some b \<and> arr_ok b \<and> arr_size b = arr_size a \<and>
    (\<forall>j \<le> n. take j (ar_items b) = take j (ar_items a)) \<and>
    (\<forall>k > i. set (take k (ar_items b)) = set (take k (ar_items a))) \<and>
    take (Suc n) (ar_items b) = take n (ar_items a) @ [ar_items a ! i]"
proof -
  have len: "n < arr_size a" using n by simp
  obtain b where b: "arr_swap i n a = Some b" using arr_swap_Some [OF n(2) len] by blast
  have *: "arr_ok b" "arr_size b = arr_size a" and ys: "ar_items b = (ar_items a)[i := ar_items a ! n, n := ar_items a ! i]"
    using arr_swap_ok [OF ok b] by blast+
  have i: "i < length (ar_items a)" using n by (simp add: arr_size_def)
  show ?thesis using b * swap_in [OF n(1) i ys] by blast
qed

text \<open>Moving an item out of a front part, if it is in it, and erasing an item behind a front part.\<close>

lemma in_take_index:
  assumes "arr_ok a" "arr_index x a = Some i" "i < arr_size a" "ar_items a ! i = x" "j \<le> arr_size a"
  shows "x \<in> set (take j (ar_items a)) \<longleftrightarrow> i < j"
proof
  assume "x \<in> set (take j (ar_items a))"
  then obtain k where k: "k < j" "k < arr_size a" "ar_items a ! k = x"
    using assms(5) by (auto simp: in_set_conv_nth arr_size_def)
  thus "i < j" using assms(1-4) by (auto simp: arr_ok_def arr_size_def nth_eq_iff_index_eq)
next
  assume "i < j"
  thus "x \<in> set (take j (ar_items a))"
    using assms(3-5) by (auto simp: in_set_conv_nth arr_size_def intro!: exI [of _ i])
qed

lemma arr_move_out:
  assumes ok: "arr_ok a" and x: "x \<in> set (ar_items a)" and n: "n \<le> arr_size a"
  shows "\<exists>i b. arr_index x a = Some i \<and> (if i < n then arr_swap i (n - 1) a else Some a) = Some b \<and>
    arr_ok b \<and> arr_size b = arr_size a \<and> set (ar_items b) = set (ar_items a) \<and>
    (\<forall>j \<le> arr_size a. x \<notin> set (take j (ar_items a)) \<longrightarrow> take j (ar_items b) = take j (ar_items a)) \<and>
    (\<forall>k \<ge> n. set (take k (ar_items b)) = set (take k (ar_items a))) \<and>
    set (take (if i < n then n - 1 else n) (ar_items b)) = set (take n (ar_items a)) - {x}"
proof -
  obtain i where i: "arr_index x a = Some i" "i < arr_size a" "ar_items a ! i = x" using arr_index_member [OF ok x] by blast
  note tk = in_take_index [OF ok i]
  show ?thesis
  proof (cases "i < n")
    case False
    hence "x \<notin> set (take n (ar_items a))" using tk [OF n] by simp
    thus ?thesis using i False ok by auto
  next
    case True
    obtain b where b: "arr_swap i (n - 1) a = Some b" "arr_ok b" "arr_size b = arr_size a"
        "\<forall>j \<le> i. take j (ar_items b) = take j (ar_items a)" "\<forall>k \<ge> n. set (take k (ar_items b)) = set (take k (ar_items a))"
        "set (take (n - 1) (ar_items b)) = set (take n (ar_items a)) - {ar_items a ! i}"
      using arr_swap_out [OF ok True n] by blast
    have "\<forall>j \<le> arr_size a. x \<notin> set (take j (ar_items a)) \<longrightarrow> take j (ar_items b) = take j (ar_items a)"
      using b(4) tk by (auto simp: not_less)
    moreover have "set (ar_items b) = set (ar_items a)" using arr_swap_ok [OF ok b(1)] by blast
    ultimately show ?thesis using i b True by auto
  qed
qed

lemma arr_erase_ok:
  assumes ok: "arr_ok a" and x: "x \<in> set (ar_items a)" "x \<notin> set (take n (ar_items a))" and n: "n \<le> arr_size a"
  shows "\<exists>b. arr_erase x a = Some b \<and> arr_ok b \<and> Suc (arr_size b) = arr_size a \<and> n \<le> arr_size b \<and>
    set (ar_items b) = set (ar_items a) - {x} \<and> (\<forall>j \<le> n. take j (ar_items b) = take j (ar_items a))"
proof -
  obtain i where i: "arr_index x a = Some i" "i < arr_size a" "ar_items a ! i = x" using arr_index_member [OF ok x(1)] by blast
  have ni: "n \<le> i" using in_take_index [OF ok i n] x(2) by simp
  obtain b where b: "arr_erase_at i a = Some b" "arr_ok b" "Suc (arr_size b) = arr_size a"
      "set (ar_items b) = set (ar_items a) - {x}" "ar_items b = butlast ((ar_items a)[i := last (ar_items a)])"
    using arr_erase_at_ok [OF ok i(2)] i(3) by blast
  have "\<forall>j \<le> n. take j (ar_items b) = take j (ar_items a)"
    using ni i(2) by (auto simp: b(5) take_butlast arr_size_def)
  thus ?thesis using b(1-4) i(1,2) ni by (auto simp: arr_erase_def)
qed

lemma arr_swap_commute: "arr_ok a \<Longrightarrow> arr_swap i j a = arr_swap j i a"
  by (cases "i = j") (auto simp: arr_swap_def Let_def list_update_swap fun_upd_twist arr_ok_def arr_size_def nth_eq_iff_index_eq)

lemma arr_attach:
  assumes ok: "arr_ok a" and x: "x \<notin> set (ar_items a)" and n: "n \<le> arr_size a"
  shows "\<exists>b. arr_swap n (arr_size (arr_push_back x a) - 1) (arr_push_back x a) = Some b \<and> arr_ok b \<and>
    arr_size b = Suc (arr_size a) \<and> set (ar_items b) = insert x (set (ar_items a)) \<and>
    (\<forall>j \<le> n. take j (ar_items b) = take j (ar_items a)) \<and> take (Suc n) (ar_items b) = take n (ar_items a) @ [x]"
proof -
  let ?a = "arr_push_back x a"
  have a: "arr_ok ?a" "arr_size ?a = Suc (arr_size a)" "ar_items ?a = ar_items a @ [x]" "arr_size ?a - 1 = arr_size a"
    using arr_push_back_ok [OF ok x] by (simp_all add: arr_push_back_def arr_size_def)
  obtain b where b: "arr_swap (arr_size a) n ?a = Some b" "arr_ok b" "arr_size b = arr_size ?a"
      "\<forall>j \<le> n. take j (ar_items b) = take j (ar_items ?a)"
      "take (Suc n) (ar_items b) = take n (ar_items ?a) @ [ar_items ?a ! arr_size a]"
    using arr_swap_in [OF a(1) n] a(2) by auto
  have "set (ar_items b) = set (ar_items ?a)" using arr_swap_ok [OF a(1) b(1)] by blast
  moreover have "arr_swap n (arr_size ?a - 1) ?a = Some b" using b(1) arr_swap_commute [OF a(1)] a(4) by simp
  ultimately show ?thesis using a b n by (simp add: arr_size_def)
qed

end
