(* ===== verification/Sock_Pipes.thy ===== *)
theory Sock_Pipes
  imports Pipe Array
begin

text \<open>
  The pipes of a socket: every pipe has an identity, and a store gives its endpoint together with the
  environment of that endpoint.  An operation on a pipe that was deallocated gives \<open>None\<close>.  The
  second part is the ring of pipes that fair queueing (\<open>src/fq.cpp\<close>) and load balancing
  (\<open>src/lb.cpp\<close>) share: an array with its active pipes in front and a current position.
\<close>

type_synonym sock_pipes = "nat \<Rightarrow> (pipe \<times> pipe_env) option"

definition w_read :: "nat \<Rightarrow> sock_pipes \<Rightarrow> (frame option \<times> sock_pipes) option" where
  "w_read i w = do { (p, e) \<leftarrow> w i; (r, p', e') \<leftarrow> pipe_read p e; Some (r, w(i \<mapsto> (p', e'))) }"

definition w_check_read :: "nat \<Rightarrow> sock_pipes \<Rightarrow> (bool \<times> sock_pipes) option" where
  "w_check_read i w = do { (p, e) \<leftarrow> w i; (r, p', e') \<leftarrow> pipe_check_read p e; Some (r, w(i \<mapsto> (p', e'))) }"

definition w_write :: "nat \<Rightarrow> frame \<Rightarrow> sock_pipes \<Rightarrow> (bool \<times> sock_pipes) option" where
  "w_write i f w = do { (p, e) \<leftarrow> w i; (r, p', e') \<leftarrow> pipe_write f p e; Some (r, w(i \<mapsto> (p', e'))) }"

definition w_check_write :: "nat \<Rightarrow> sock_pipes \<Rightarrow> (bool \<times> sock_pipes) option" where
  "w_check_write i w =
     do { (p, e) \<leftarrow> w i; (case pipe_check_write p of (r, p') \<Rightarrow> Some (r, w(i \<mapsto> (p', e)))) }"

definition w_rollback :: "nat \<Rightarrow> sock_pipes \<Rightarrow> sock_pipes option" where
  "w_rollback i w = do { (p, e) \<leftarrow> w i; e' \<leftarrow> pipe_rollback p e; Some (w(i \<mapsto> (p, e'))) }"

definition w_flush :: "nat \<Rightarrow> sock_pipes \<Rightarrow> sock_pipes option" where
  "w_flush i w = do { (p, e) \<leftarrow> w i; e' \<leftarrow> pipe_flush p e; Some (w(i \<mapsto> (p, e'))) }"

definition w_check_hwm :: "nat \<Rightarrow> sock_pipes \<Rightarrow> bool option" where
  "w_check_hwm i w = map_option (\<lambda>(p, e). check_hwm p) (w i)"

definition w_terminate :: "nat \<Rightarrow> bool \<Rightarrow> sock_pipes \<Rightarrow> sock_pipes option" where
  "w_terminate i delay w =
     do { (p, e) \<leftarrow> w i; (p', e') \<leftarrow> pipe_terminate delay p e; Some (w(i \<mapsto> (p', e'))) }"

definition w_credential :: "nat \<Rightarrow> sock_pipes \<Rightarrow> byte list option" where
  "w_credential i w = map_option (\<lambda>(p, e). pp_credential p) (w i)"

lemma w_other:
  "w_read i w = Some (r, w') \<Longrightarrow> j \<noteq> i \<Longrightarrow> w' j = w j"
  "w_check_read i w = Some (b, w') \<Longrightarrow> j \<noteq> i \<Longrightarrow> w' j = w j"
  "w_write i f w = Some (b, w') \<Longrightarrow> j \<noteq> i \<Longrightarrow> w' j = w j"
  "w_check_write i w = Some (b, w') \<Longrightarrow> j \<noteq> i \<Longrightarrow> w' j = w j"
  "w_rollback i w = Some w' \<Longrightarrow> j \<noteq> i \<Longrightarrow> w' j = w j"
  "w_flush i w = Some w' \<Longrightarrow> j \<noteq> i \<Longrightarrow> w' j = w j"
  by (auto simp: w_read_def w_check_read_def w_write_def w_check_write_def w_rollback_def w_flush_def
      split: prod.splits bind_splits)

lemma w_read_cong: "w' i = w i \<Longrightarrow> map_option fst (w_read i w') = map_option fst (w_read i w)"
  by (cases "w i"; cases "pipe_read (fst (the (w i))) (snd (the (w i)))") (auto simp: w_read_def)

lemma w_check_write_cong: "w' i = w i \<Longrightarrow> map_option fst (w_check_write i w') = map_option fst (w_check_write i w)"
  by (cases "w i") (auto simp: w_check_write_def split: prod.splits)

lemma w_write_result:
  "w_write i f w = Some (b, w') \<Longrightarrow> map_option fst (w_check_write i w) = Some b"
  by (auto simp: w_write_def pipe_write_def w_check_write_def split: prod.splits bool.splits bind_splits)

definition writable :: "nat \<Rightarrow> sock_pipes \<Rightarrow> bool" where
  "writable x w \<longleftrightarrow> map_option fst (w_check_write x w) = Some True"

lemma writable_cong: "w' x = w x \<Longrightarrow> writable x w' = writable x w"
  using w_check_write_cong [of w' x w] by (simp add: writable_def)

text \<open>The number of frames that can be read from a pipe; every frame that is read makes it smaller.\<close>

definition pipe_avail :: "pipe \<Rightarrow> pipe_env \<Rightarrow> nat" where
  "pipe_avail p e = (case pp_inpipe p of None \<Rightarrow> 0 | Some i \<Rightarrow> (case pe_up e i of None \<Rightarrow> 0 | Some u \<Rightarrow> up_avail u))"

definition w_avail :: "nat \<Rightarrow> sock_pipes \<Rightarrow> nat" where
  "w_avail x w = (case w x of None \<Rightarrow> 0 | Some (p, e) \<Rightarrow> pipe_avail p e)"

lemma up_read_avail_le: "up_avail (snd (up_read u)) \<le> up_avail u"
  by (cases u) (auto simp: cf_read_def cf_check_read_def db_read_def db_check_read_def Let_def)

lemma up_read_message_avail:
  "up_read_message u c = (r, u', c') \<Longrightarrow> up_avail u' \<le> up_avail u \<and> (r \<noteq> None \<longrightarrow> up_avail u' < up_avail u)"
proof (induction u c rule: up_read_message.induct)
  case (1 u c)
  obtain q u1 where q: "up_read u = (q, u1)" by fastforce
  have le: "up_avail u1 \<le> up_avail u" using up_read_avail_le [of u] q by simp
  show ?case
  proof (cases q)
    case None
    thus ?thesis using 1(2) q le by (simp add: up_read_message.simps [of u])
  next
    case (Some f)
    hence lt: "up_avail u1 < up_avail u" using q up_read_avail by simp
    show ?thesis
    proof (cases "f_is_credential f")
      case True
      hence "up_read_message u1 (f_data f) = (r, u', c')" using 1(2) q Some by (simp add: up_read_message.simps [of u])
      thus ?thesis using 1(1) [of q u1 f] q Some True lt by auto
    next
      case False
      thus ?thesis using 1(2) q Some lt by (auto simp: up_read_message.simps [of u])
    qed
  qed
qed

lemma process_delimiter_avail: "process_delimiter p e = Some (p', e') \<Longrightarrow> pipe_avail p' e' = pipe_avail p e"
  by (auto simp: process_delimiter_def pipe_avail_def send_cmd_def split: pipe_state.splits option.splits)

lemma pipe_read_avail:
  assumes "pipe_read p e = Some (r, p', e')"
  shows "pipe_avail p' e' \<le> pipe_avail p e \<and> (r \<noteq> None \<longrightarrow> pipe_avail p' e' < pipe_avail p e)"
proof (cases "can_read p")
  case True
  obtain i u where u: "pp_inpipe p = Some i" "pe_up e i = Some u"
    using assms True by (auto simp: pipe_read_def split: bind_splits)
  obtain q u1 c where q: "up_read_message u (pp_credential p) = (q, u1, c)" by (metis prod_cases3)
  note le = up_read_message_avail [OF q]
  show ?thesis
  proof (cases q)
    case None
    thus ?thesis using assms True u q le by (auto simp: pipe_read_def pipe_avail_def set_up_def)
  next
    case (Some f)
    show ?thesis
    proof (cases "is_delimiter f")
      case True
      then obtain r' where "process_delimiter (p\<lparr>pp_credential := c\<rparr>) (set_up i (Some u1) e) = Some r'" "r = None" "r' = (p', e')"
        using assms \<open>can_read p\<close> u q Some by (auto simp: pipe_read_def Let_def)
      thus ?thesis using process_delimiter_avail u le Some by (auto simp: pipe_avail_def set_up_def)
    next
      case False
      thus ?thesis using assms \<open>can_read p\<close> u q Some le by (auto simp: pipe_read_def Let_def pipe_avail_def set_up_def send_cmd_def split: if_splits)
    qed
  qed
qed (use assms in \<open>simp add: pipe_read_def\<close>)

lemma w_read_avail:
  assumes "w_read x w = Some (r, w')"
  shows "w_avail y w' \<le> w_avail y w" "r \<noteq> None \<Longrightarrow> w_avail x w' < w_avail x w"
proof -
  obtain p e p' e' where w: "w x = Some (p, e)" "pipe_read p e = Some (r, p', e')" "w' = w(x \<mapsto> (p', e'))"
    using assms by (auto simp: w_read_def split: bind_splits)
  note A = pipe_read_avail [OF w(2)]
  show "w_avail y w' \<le> w_avail y w" using A w by (auto simp: w_avail_def)
  show "w_avail x w' < w_avail x w" if "r \<noteq> None" using A w that by (auto simp: w_avail_def)
qed

section \<open>The ring of active pipes\<close>

record ring =
  rg_pipes :: "nat arr"
  rg_active :: nat
  rg_current :: nat

text \<open>A pipe of the active part becomes passive.\<close>

definition ring_deactivate :: "nat \<Rightarrow> 'a ring_scheme \<Rightarrow> 'a ring_scheme option" where
  "ring_deactivate i r =
     (let a = rg_active r - 1 in
      do {
        ps \<leftarrow> arr_swap i a (rg_pipes r);
        Some (r\<lparr>rg_pipes := ps, rg_active := a, rg_current := if rg_current r = a then 0 else rg_current r\<rparr>)
      })"

text \<open>A passive pipe becomes active.\<close>

definition ring_activated :: "nat \<Rightarrow> 'a ring_scheme \<Rightarrow> 'a ring_scheme option" where
  "ring_activated x r =
     do {
       i \<leftarrow> arr_index x (rg_pipes r);
       ps \<leftarrow> arr_swap i (rg_active r) (rg_pipes r);
       Some (r\<lparr>rg_pipes := ps, rg_active := rg_active r + 1\<rparr>)
     }"

definition ring_remove :: "nat \<Rightarrow> 'a ring_scheme \<Rightarrow> 'a ring_scheme option" where
  "ring_remove x r =
     do {
       i \<leftarrow> arr_index x (rg_pipes r);
       r1 \<leftarrow> (if i < rg_active r then ring_deactivate i r else Some r);
       ps \<leftarrow> arr_erase x (rg_pipes r1);
       Some (r1\<lparr>rg_pipes := ps\<rparr>)
     }"

definition ring_ok :: "'a ring_scheme \<Rightarrow> bool" where
  "ring_ok r \<longleftrightarrow> arr_ok (rg_pipes r) \<and> rg_active r \<le> arr_size (rg_pipes r) \<and>
     (rg_current r < rg_active r \<or> rg_current r = 0)"

abbreviation ring_pipes :: "'a ring_scheme \<Rightarrow> nat list" where
  "ring_pipes r \<equiv> ar_items (rg_pipes r)"

definition active_pipes :: "'a ring_scheme \<Rightarrow> nat list" where
  "active_pipes r = take (rg_active r) (ring_pipes r)"

text \<open>The number of pipes that are served before the pipe at position \<open>k\<close>.\<close>

definition cyc :: "nat \<Rightarrow> nat \<Rightarrow> nat \<Rightarrow> nat" where
  "cyc n c k = (if c \<le> k then k - c else k + n - c)"

definition waits :: "nat \<Rightarrow> 'a ring_scheme \<Rightarrow> nat \<Rightarrow> bool" where
  "waits x r d \<longleftrightarrow>
     (\<exists>k < rg_active r. ring_pipes r ! k = x \<and> d = cyc (rg_active r) (rg_current r) k)"

lemma waits_bound: "ring_ok r \<Longrightarrow> waits x r d \<Longrightarrow> d < rg_active r"
  by (auto simp: waits_def cyc_def ring_ok_def)

lemma active_nth: "k < rg_active r \<Longrightarrow> k < length (ring_pipes r) \<Longrightarrow> ring_pipes r ! k \<in> set (active_pipes r)"
  by (metis active_pipes_def in_set_conv_nth length_take min_less_iff_conj nth_take)

lemma active_waits: "x \<in> set (active_pipes r) \<Longrightarrow> ring_ok r \<Longrightarrow> \<exists>d. waits x r d"
  by (auto simp: active_pipes_def waits_def ring_ok_def in_set_conv_nth arr_size_def)

lemma ring_current_at:
  "ring_ok r \<Longrightarrow> 0 < rg_active r \<Longrightarrow> arr_at (rg_current r) (rg_pipes r) = Some (ring_pipes r ! rg_current r)"
  by (auto simp: ring_ok_def arr_at_def)

lemma ring_deactivate_less: "ring_deactivate i r = Some r' \<Longrightarrow> 0 < rg_active r \<Longrightarrow> rg_active r' < rg_active r"
  by (auto simp: ring_deactivate_def Let_def split: bind_splits)

lemma ring_deactivate_ok:
  assumes ok: "ring_ok r" and i: "i < rg_active r"
  shows "\<exists>r'. ring_deactivate i r = Some r' \<and> ring_ok r' \<and> rg_active r = Suc (rg_active r') \<and>
    set (ring_pipes r') = set (ring_pipes r) \<and> set (active_pipes r') = set (active_pipes r) - {ring_pipes r ! i}"
proof -
  let ?a = "rg_active r - 1" and ?xs = "ring_pipes r"
  have len: "i < length ?xs" "?a < length ?xs" using ok i by (auto simp: ring_ok_def arr_size_def)
  obtain ps where ps: "arr_swap i ?a (rg_pipes r) = Some ps"
    using arr_swap_Some [of i "rg_pipes r" ?a] len by (auto simp: arr_size_def)
  have ok': "arr_ok ps" "arr_size ps = arr_size (rg_pipes r)" "set (ar_items ps) = set ?xs"
    and items: "ar_items ps = ?xs[i := ?xs ! ?a, ?a := ?xs ! i]"
    using arr_swap_ok [OF _ ps] ok unfolding ring_ok_def by blast+
  let ?r = "r\<lparr>rg_pipes := ps, rg_active := ?a, rg_current := if rg_current r = ?a then 0 else rg_current r\<rparr>"
  have "set (take ?a (ar_items ps)) = set (take (rg_active r) ?xs) - {?xs ! i}"
    using swap_out(3) [OF _ i _ items] ok by (auto simp: ring_ok_def arr_ok_def arr_size_def)
  moreover have "ring_deactivate i r = Some ?r" unfolding ring_deactivate_def Let_def ps by simp
  moreover have "ring_ok ?r" using ok i ok' by (auto simp: ring_ok_def)
  ultimately show ?thesis using i ok' by (auto simp: active_pipes_def)
qed

text \<open>Passing over the current pipe brings every other active pipe nearer, or leaves it where it is.\<close>

lemma ring_deactivate_waits:
  assumes ok: "ring_ok r" and d: "ring_deactivate (rg_current r) r = Some r'"
    and w: "waits x r n" "ring_pipes r ! rg_current r \<noteq> x"
  shows "\<exists>m \<le> n. waits x r' m"
proof -
  obtain k where k: "k < rg_active r" "ring_pipes r ! k = x" "n = cyc (rg_active r) (rg_current r) k"
    using w(1) by (auto simp: waits_def)
  let ?a = "rg_active r - 1" and ?c = "rg_current r" and ?xs = "ring_pipes r"
  obtain ps where ps: "arr_swap ?c ?a (rg_pipes r) = Some ps"
    and r': "r' = r\<lparr>rg_pipes := ps, rg_active := ?a, rg_current := if ?c = ?a then 0 else ?c\<rparr>"
    using d by (auto simp: ring_deactivate_def Let_def split: bind_splits)
  have len: "?c < length ?xs" "?a < length ?xs" "k < length ?xs" "?c < rg_active r" "k \<noteq> ?c"
    using ok k w(2) by (auto simp: ring_ok_def arr_size_def)
  have items: "ar_items ps ! j = ?xs ! (if j = ?a then ?c else if j = ?c then ?a else j)" if "j < length ?xs" for j
    using arr_swap_ok [OF _ ps] ok swap_nth [OF len(1,2) that] by (simp add: ring_ok_def)
  show ?thesis
  proof (cases "k = ?a")
    case True
    hence "?c < ?a" using len by simp
    moreover have "ar_items ps ! ?c = x" using items [OF len(1)] True k(2) \<open>?c < ?a\<close> by simp
    ultimately have "waits x r' 0" by (auto simp: waits_def r' cyc_def intro!: exI [of _ ?c])
    thus ?thesis by blast
  next
    case False
    hence "k < ?a" using k(1) by simp
    moreover have "ar_items ps ! k = x" using items [OF len(3)] False k(2) len(5) by simp
    ultimately have "waits x r' (cyc ?a (if ?c = ?a then 0 else ?c) k)" by (auto simp: waits_def r')
    moreover have "cyc ?a (if ?c = ?a then 0 else ?c) k \<le> n" using k(1,3) len(4) \<open>k < ?a\<close> by (auto simp: cyc_def)
    ultimately show ?thesis by blast
  qed
qed

text \<open>Moving on after a complete message brings every other active pipe nearer by one.\<close>

lemma ring_next_waits:
  assumes ok: "ring_ok r" and w: "waits x r n" "ring_pipes r ! rg_current r \<noteq> x"
    and c: "c = (if Suc (rg_current r) < rg_active r then Suc (rg_current r) else 0)"
  shows "\<exists>m < n. waits x (r\<lparr>rg_current := c\<rparr>) m"
proof -
  obtain k where k: "k < rg_active r" "ring_pipes r ! k = x" "n = cyc (rg_active r) (rg_current r) k"
    using w(1) by (auto simp: waits_def)
  have "k \<noteq> rg_current r" using k w(2) by auto
  hence "cyc (rg_active r) c k < n" using k(1,3) ok by (auto simp: cyc_def c ring_ok_def)
  thus ?thesis using k by (auto simp: waits_def)
qed

lemma ring_activated_ok:
  assumes ok: "ring_ok r" and x: "x \<in> set (ring_pipes r)" "x \<notin> set (active_pipes r)"
  shows "\<exists>r'. ring_activated x r = Some r' \<and> ring_ok r' \<and> set (ring_pipes r') = set (ring_pipes r) \<and>
    set (active_pipes r') = insert x (set (active_pipes r))"
proof -
  let ?xs = "ring_pipes r" and ?a = "rg_active r"
  have aok: "arr_ok (rg_pipes r)" using ok by (simp add: ring_ok_def)
  obtain i where i: "arr_index x (rg_pipes r) = Some i" "i < length ?xs" "?xs ! i = x"
    using arr_index_member [OF aok x(1)] by (auto simp: arr_size_def)
  have ia: "?a \<le> i" using x(2) i active_nth [of i r] by (auto simp: not_less [symmetric])
  have len: "?a < length ?xs" using ia i(2) by simp
  obtain ps where ps: "arr_swap i ?a (rg_pipes r) = Some ps"
    using arr_swap_Some [of i "rg_pipes r" ?a] len i(2) by (auto simp: arr_size_def)
  have ok': "arr_ok ps" "arr_size ps = arr_size (rg_pipes r)" "set (ar_items ps) = set ?xs"
    and items: "ar_items ps = ?xs[i := ?xs ! ?a, ?a := ?xs ! i]"
    using arr_swap_ok [OF aok ps] by blast+
  have "take (Suc ?a) (ar_items ps) = take ?a ?xs @ [x]"
    using swap_in(3) [OF ia i(2) items] i(3) by simp
  hence "set (take (Suc ?a) (ar_items ps)) = insert x (set (take ?a ?xs))" by simp
  moreover have "ring_ok (r\<lparr>rg_pipes := ps, rg_active := Suc ?a\<rparr>)" using ok ok' len by (auto simp: ring_ok_def arr_size_def)
  ultimately show ?thesis using ps i(1) ok'(3) by (auto simp: ring_activated_def active_pipes_def)
qed

lemma ring_remove_ok:
  assumes ok: "ring_ok r" and x: "x \<in> set (ring_pipes r)"
  shows "\<exists>r'. ring_remove x r = Some r' \<and> ring_ok r' \<and> set (ring_pipes r') = set (ring_pipes r) - {x} \<and>
    set (active_pipes r') = set (active_pipes r) - {x}"
proof -
  have aok: "arr_ok (rg_pipes r)" using ok by (simp add: ring_ok_def)
  obtain i where i: "arr_index x (rg_pipes r) = Some i" "i < arr_size (rg_pipes r)" "ring_pipes r ! i = x"
    using arr_index_member [OF aok x(1)] by auto
  obtain r1 where r1: "(if i < rg_active r then ring_deactivate i r else Some r) = Some r1" "ring_ok r1"
      "set (ring_pipes r1) = set (ring_pipes r)" "set (active_pipes r1) = set (active_pipes r) - {x}"
  proof (cases "i < rg_active r")
    case True
    thus ?thesis using ring_deactivate_ok [OF ok True] i(3) that by auto
  next
    case False
    have "x \<notin> set (active_pipes r)"
      using False i aok ok by (auto simp: active_pipes_def in_set_conv_nth arr_ok_def arr_size_def nth_eq_iff_index_eq ring_ok_def)
    thus ?thesis using False ok that [of r] by simp
  qed
  have aok1: "arr_ok (rg_pipes r1)" using r1(2) by (simp add: ring_ok_def)
  obtain j where j: "arr_index x (rg_pipes r1) = Some j" "j < arr_size (rg_pipes r1)" "ring_pipes r1 ! j = x"
    using arr_index_member [OF aok1] x r1(3) by auto
  have ja: "rg_active r1 \<le> j"
    using r1(4) j active_nth [of j r1] by (auto simp: arr_size_def not_less [symmetric])
  obtain ps where ps: "arr_erase_at j (rg_pipes r1) = Some ps" "arr_ok ps" "Suc (arr_size ps) = arr_size (rg_pipes r1)"
      "set (ar_items ps) = set (ring_pipes r1) - {x}"
      "ar_items ps = butlast ((ring_pipes r1)[j := last (ring_pipes r1)])"
    using arr_erase_at_ok [OF aok1 j(2)] j(3) by auto
  have "take (rg_active r1) (ar_items ps) = take (rg_active r1) (ring_pipes r1)"
    using ja j(2) by (simp add: ps(5) take_butlast arr_size_def)
  moreover have "ring_ok (r1\<lparr>rg_pipes := ps\<rparr>)" using r1(2) ps(2,3) ja j(2) by (auto simp: ring_ok_def)
  moreover have "ring_remove x r = Some (r1\<lparr>rg_pipes := ps\<rparr>)"
    using i(1) r1(1) j(1) ps(1) by (simp add: ring_remove_def arr_erase_def)
  ultimately show ?thesis using r1(3,4) ps(4) by (auto simp: active_pipes_def)
qed

text \<open>
  When another pipe is removed while the current position is the last of the active part, the current
  position moves to the front of the ring.
\<close>

lemma ring_remove_current:
  assumes ok: "ring_ok r" and c: "Suc (rg_current r) = rg_active r" and k: "0 < k" "k < rg_current r"
    and r': "ring_remove (ring_pipes r ! k) r = Some r'"
  shows "arr_at (rg_current r') (rg_pipes r') = Some (ring_pipes r ! 0)"
    and "ring_pipes r ! 0 \<noteq> ring_pipes r ! rg_current r"
proof -
  have aok: "arr_ok (rg_pipes r)" and len: "rg_current r < length (ring_pipes r)"
    using ok c by (auto simp: ring_ok_def arr_size_def)
  have i: "arr_index (ring_pipes r ! k) (rg_pipes r) = Some k"
    using arr_index_nth [OF aok, of k] k(2) len by (simp add: arr_size_def)
  obtain r1 ps where r1: "ring_deactivate k r = Some r1" and ps: "arr_erase (ring_pipes r ! k) (rg_pipes r1) = Some ps"
    and eq: "r' = r1\<lparr>rg_pipes := ps\<rparr>"
    using r' i k(2) c by (auto simp: ring_remove_def split: bind_splits)
  obtain qs where qs: "arr_swap k (rg_active r - 1) (rg_pipes r) = Some qs"
    and r1': "r1 = r\<lparr>rg_pipes := qs, rg_active := rg_active r - 1, rg_current := 0\<rparr>"
    using r1 c by (auto simp: ring_deactivate_def Let_def split: bind_splits)
  have a1: "rg_active r - 1 = rg_current r" using c by simp
  have qok: "arr_ok qs" and sz: "arr_size qs = arr_size (rg_pipes r)"
    and items: "ar_items qs = (ring_pipes r)[k := ring_pipes r ! rg_current r, rg_current r := ring_pipes r ! k]"
    using arr_swap_ok [OF aok qs] unfolding a1 by blast+
  have idx: "arr_index (ring_pipes r ! k) qs = Some (rg_current r)"
    using arr_index_nth [OF qok, of "rg_current r"] sz len by (simp add: items arr_size_def)
  have "ar_items ps = butlast ((ar_items qs)[rg_current r := last (ar_items qs)])"
    using ps idx qok arr_erase_at_ok [OF qok, of "rg_current r"] len sz by (auto simp: r1' arr_erase_def arr_size_def)
  hence "ar_items ps ! 0 = ring_pipes r ! 0" "0 < length (ar_items ps)"
    using k len by (auto simp: items nth_butlast)
  thus "arr_at (rg_current r') (rg_pipes r') = Some (ring_pipes r ! 0)" by (simp add: eq r1' arr_at_def arr_size_def)
  show "ring_pipes r ! 0 \<noteq> ring_pipes r ! rg_current r"
    using aok k len nth_eq_iff_index_eq [of "ring_pipes r" 0 "rg_current r"] by (cases "ring_pipes r") (auto simp: arr_ok_def)
qed

text \<open>A pipe with one empty message to read.\<close>

definition ready_pipe :: "pipe \<times> pipe_env" where
  "ready_pipe =
     (pipe_new 0 1 0 0 False,
      \<lparr>pe_up = [0 \<mapsto> Fifo \<lparr>ps_readable = [empty_frame], ps_complete = [], ps_incomplete = [], ps_asleep = False\<rparr>,
                1 \<mapsto> Fifo pipe_spec_new],
       pe_fresh = 2, pe_cmds = [], pe_events = []\<rparr>)"

end
