(* ===== verification/Lb.thy ===== *)
theory Lb
  imports Sock_Pipes
begin

text \<open>Load balancing of outbound messages (\<open>src/lb.cpp\<close>).\<close>

record lb = ring +
  lb_more :: bool
  lb_dropping :: bool

definition lb_new :: lb where
  "lb_new = \<lparr>rg_pipes = arr_new, rg_active = 0, rg_current = 0, lb_more = False, lb_dropping = False\<rparr>"

definition lb_activated :: "nat \<Rightarrow> lb \<Rightarrow> lb option" where
  "lb_activated x l = ring_activated x l"

definition lb_attach :: "nat \<Rightarrow> lb \<Rightarrow> lb option" where
  "lb_attach x l = lb_activated x (l\<lparr>rg_pipes := arr_push_back x (rg_pipes l)\<rparr>)"

definition lb_pipe_terminated :: "nat \<Rightarrow> lb \<Rightarrow> lb option" where
  "lb_pipe_terminated x l =
     do {
       i \<leftarrow> arr_index x (rg_pipes l);
       ring_remove x (if i = rg_current l \<and> lb_more l then l\<lparr>lb_dropping := True\<rparr> else l)
     }"

text \<open>In the loop of \<open>sendpipe\<close>: the current pipe takes no message and becomes passive.\<close>

definition lb_pass :: "lb \<Rightarrow> lb option" where
  "lb_pass l =
     (let a = rg_active l - 1 in
      if rg_current l < a
      then do { ps \<leftarrow> arr_swap (rg_current l) a (rg_pipes l); Some (l\<lparr>rg_pipes := ps, rg_active := a\<rparr>) }
      else Some (l\<lparr>rg_active := a, rg_current := 0\<rparr>))"

lemma lb_pass_less: "lb_pass l = Some l' \<Longrightarrow> 0 < rg_active l \<Longrightarrow> rg_active l' < rg_active l"
  by (auto simp: lb_pass_def Let_def split: bind_splits if_splits)

text \<open>How the loop ends: the message was written to a pipe, or it fails, or no active pipe is left.\<close>

datatype lb_exit = Lb_written nat | Lb_failed | Lb_none

function lb_loop :: "frame \<Rightarrow> lb \<Rightarrow> sock_pipes \<Rightarrow> (lb_exit \<times> lb \<times> sock_pipes) option" where
  "lb_loop m l w =
     (if rg_active l = 0 then Some (Lb_none, l, w)
      else do {
        x \<leftarrow> arr_at (rg_current l) (rg_pipes l);
        (ok, w1) \<leftarrow> w_write x m w;
        (if ok then Some (Lb_written x, l, w1)
         else if lb_more l then do { w2 \<leftarrow> w_rollback x w1; Some (Lb_failed, l\<lparr>lb_more := False\<rparr>, w2) }
         else do { l1 \<leftarrow> lb_pass l; lb_loop m l1 w1 })
      })"
  by pat_completeness auto
termination
  by (relation "measure (\<lambda>(m, l, w). rg_active l)") (auto dest: lb_pass_less)

declare lb_loop.simps [simp del]

text \<open>The pipe in the result is the one the message was written to; a dropped message has none.\<close>

definition lb_sendpipe :: "frame \<Rightarrow> lb \<Rightarrow> sock_pipes \<Rightarrow> (nat option result \<times> lb \<times> sock_pipes) option" where
  "lb_sendpipe m l w =
     (if lb_dropping l then Some (Inr None, l\<lparr>lb_more := f_more m, lb_dropping := f_more m\<rparr>, w)
      else do {
        (r, l1, w1) \<leftarrow> lb_loop m l w;
        (case r of
           Lb_failed \<Rightarrow> Some (Inl EAGAIN, l1, w1)
         | Lb_none \<Rightarrow> Some (Inl EAGAIN, l1, w1)
         | Lb_written x \<Rightarrow>
             (let l2 = l1\<lparr>lb_more := f_more m\<rparr> in
              if f_more m then Some (Inr (Some x), l2, w1)
              else do {
                w2 \<leftarrow> w_flush x w1;
                Some (Inr (Some x),
                      l2\<lparr>rg_current := if rg_active l2 \<le> rg_current l2 + 1 then 0 else rg_current l2 + 1\<rparr>, w2)
              }))
      })"

definition lb_send :: "frame \<Rightarrow> lb \<Rightarrow> sock_pipes \<Rightarrow> (unit result \<times> lb \<times> sock_pipes) option" where
  "lb_send m l w = map_option (map_prod (map_sum id (\<lambda>_. ())) id) (lb_sendpipe m l w)"

function lb_poll :: "lb \<Rightarrow> sock_pipes \<Rightarrow> (bool \<times> lb \<times> sock_pipes) option" where
  "lb_poll l w =
     (if rg_active l = 0 then Some (False, l, w)
      else do {
        x \<leftarrow> arr_at (rg_current l) (rg_pipes l);
        (ok, w1) \<leftarrow> w_check_write x w;
        (if ok then Some (True, l, w1)
         else do { l1 \<leftarrow> ring_deactivate (rg_current l) l; lb_poll l1 w1 })
      })"
  by pat_completeness auto
termination
  by (relation "measure (\<lambda>(l, w). rg_active l)") (auto dest: ring_deactivate_less)

declare lb_poll.simps [simp del]

definition lb_has_out :: "lb \<Rightarrow> sock_pipes \<Rightarrow> (bool \<times> lb \<times> sock_pipes) option" where
  "lb_has_out l w = (if lb_more l then Some (True, l, w) else lb_poll l w)"

section \<open>Balance\<close>

lemma arr_swap_self: "arr_ok a \<Longrightarrow> i < arr_size a \<Longrightarrow> arr_swap i i a = Some a"
  by (simp add: arr_swap_def arr_ok_def fun_upd_idem)

lemma lb_pass_deactivate:
  assumes "ring_ok l" "0 < rg_active l"
  shows "lb_pass l = ring_deactivate (rg_current l) l"
proof (cases "rg_current l < rg_active l - 1")
  case True
  thus ?thesis by (simp add: lb_pass_def ring_deactivate_def Let_def)
next
  case False
  hence "rg_current l = rg_active l - 1" "rg_current l < arr_size (rg_pipes l)" using assms by (auto simp: ring_ok_def)
  thus ?thesis using assms arr_swap_self [of "rg_pipes l" "rg_active l - 1"]
    by (simp add: lb_pass_def ring_deactivate_def Let_def ring_ok_def)
qed

lemma lb_ring [simp]:
  "ring_ok (l\<lparr>lb_more := b\<rparr>) = ring_ok l" "waits x (l\<lparr>lb_more := b\<rparr>) n = waits x l n"
  "ring_ok (l\<lparr>lb_dropping := b\<rparr>) = ring_ok l" "waits x (l\<lparr>lb_dropping := b\<rparr>) n = waits x l n"
  by (simp_all add: ring_ok_def waits_def)

lemma lb_loop_step:
  assumes "lb_loop m l w = Some (r, l', w')" "ring_ok l" "waits x l n" "writable x w"
  shows "(r = Lb_failed \<and> lb_more l \<and> w' x = w x \<and> ring_ok l' \<and> waits x l' n) \<or>
    (\<exists>y. r = Lb_written y \<and> ring_ok l' \<and> 0 < rg_active l' \<and> ring_pipes l' ! rg_current l' = y \<and>
       (y \<noteq> x \<longrightarrow> w' x = w x \<and> (\<exists>k \<le> n. waits x l' k)))"
  using assms
proof (induction m l w arbitrary: n rule: lb_loop.induct)
  case (1 m l w)
  have act: "rg_active l \<noteq> 0" using 1(4) by (auto simp: waits_def)
  let ?y = "ring_pipes l ! rg_current l"
  have at: "arr_at (rg_current l) (rg_pipes l) = Some ?y" using ring_current_at [OF 1(3)] act by simp
  have cur: "rg_current l < rg_active l" using 1(3) act by (auto simp: ring_ok_def)
  obtain ok w1 where q: "w_write ?y m w = Some (ok, w1)" using 1(2) act at
    by (auto simp: lb_loop.simps [of m l] split: bind_splits)
  show ?case
  proof (cases ok)
    case True
    have "w1 x = w x" if "?y \<noteq> x" using w_other(3) [OF q, of x] that by auto
    thus ?thesis using True 1(2,3,4) act at q by (auto simp: lb_loop.simps [of m l])
  next
    case False
    have ne: "?y \<noteq> x" using w_write_result [OF q] 1(5) False by (auto simp: writable_def)
    have keep: "w1 x = w x" using w_other(3) [OF q, of x] ne by auto
    show ?thesis
    proof (cases "lb_more l")
      case True
      then obtain w2 where w2: "w_rollback ?y w1 = Some w2" using 1(2) act at q False
        by (auto simp: lb_loop.simps [of m l] split: bind_splits)
      moreover have "w2 x = w1 x" using w_other(5) [OF w2, of x] ne by auto
      ultimately show ?thesis using True False 1(2,3,4) act at q keep by (auto simp: lb_loop.simps [of m l])
    next
      case nm: False
      obtain l1 where l1: "lb_pass l = Some l1" "lb_loop m l1 w1 = Some (r, l', w')"
        using 1(2) act at q False nm by (auto simp: lb_loop.simps [of m l] split: bind_splits)
      have de: "ring_deactivate (rg_current l) l = Some l1" using l1(1) lb_pass_deactivate [OF 1(3)] act by simp
      obtain k where k: "k \<le> n" "waits x l1 k" using ring_deactivate_waits [OF 1(3) de 1(4) ne] by blast
      have ok1: "ring_ok l1" using ring_deactivate_ok [OF 1(3) cur] de by auto
      have mo: "lb_more l1 = lb_more l" using de by (auto simp: ring_deactivate_def Let_def split: bind_splits)
      have "writable x w1" using writable_cong [of w1 x w, OF keep] 1(5) by simp
      note ih = 1(1) [OF act at q refl False nm l1(1) l1(2) ok1 k(2) this]
      from ih show ?thesis
      proof
        assume "r = Lb_failed \<and> lb_more l1 \<and> w' x = w1 x \<and> ring_ok l' \<and> waits x l' k"
        thus ?thesis using nm mo by simp
      next
        assume "\<exists>y. r = Lb_written y \<and> ring_ok l' \<and> 0 < rg_active l' \<and> ring_pipes l' ! rg_current l' = y \<and>
          (y \<noteq> x \<longrightarrow> w' x = w1 x \<and> (\<exists>j \<le> k. waits x l' j))"
        then obtain y where y: "r = Lb_written y" "ring_ok l'" "0 < rg_active l'" "ring_pipes l' ! rg_current l' = y"
          "y \<noteq> x \<longrightarrow> w' x = w1 x \<and> (\<exists>j \<le> k. waits x l' j)" by blast
        hence "y \<noteq> x \<longrightarrow> w' x = w x \<and> (\<exists>j \<le> n. waits x l' j)" using keep k(1) by (auto intro: order_trans)
        thus ?thesis using y by blast
      qed
    qed
  qed
qed

lemma lb_loop_dropping: "lb_loop m l w = Some (r, l', w') \<Longrightarrow> lb_dropping l' = lb_dropping l"
proof (induction m l w rule: lb_loop.induct)
  case (1 m l w)
  have "lb_pass l = Some l1 \<Longrightarrow> lb_dropping l1 = lb_dropping l" for l1
    by (auto simp: lb_pass_def Let_def split: bind_splits if_splits)
  thus ?case using 1 by (auto simp: lb_loop.simps [of m l w] split: bind_splits if_splits)
qed

lemma lb_sendpipe_step:
  assumes s: "lb_sendpipe m l w = Some (r, l', w')" and nd: "\<not> lb_dropping l" and ok: "ring_ok l" and wt: "waits x l n" "writable x w"
  shows "(r = Inl EAGAIN \<and> lb_more l \<and> w' x = w x \<and> ring_ok l' \<and> waits x l' n \<and> \<not> lb_dropping l') \<or>
    (\<exists>y. r = Inr (Some y) \<and> (y \<noteq> x \<longrightarrow> w' x = w x \<and> ring_ok l' \<and> \<not> lb_dropping l' \<and>
       (\<exists>k. waits x l' k \<and> k \<le> n \<and> (\<not> f_more m \<longrightarrow> k < n))))"
proof -
  obtain q l1 w1 where q: "lb_loop m l w = Some (q, l1, w1)" using s nd by (auto simp: lb_sendpipe_def split: bind_splits)
  have nd1: "\<not> lb_dropping l1" using lb_loop_dropping [OF q] nd by simp
  from lb_loop_step [OF q ok wt] show ?thesis
  proof
    assume "q = Lb_failed \<and> lb_more l \<and> w1 x = w x \<and> ring_ok l1 \<and> waits x l1 n"
    thus ?thesis using s q nd nd1 by (auto simp: lb_sendpipe_def)
  next
    assume "\<exists>y. q = Lb_written y \<and> ring_ok l1 \<and> 0 < rg_active l1 \<and> ring_pipes l1 ! rg_current l1 = y \<and>
       (y \<noteq> x \<longrightarrow> w1 x = w x \<and> (\<exists>k \<le> n. waits x l1 k))"
    then obtain y where y: "q = Lb_written y" "ring_ok l1" "0 < rg_active l1" "ring_pipes l1 ! rg_current l1 = y"
      "y \<noteq> x \<Longrightarrow> w1 x = w x" "y \<noteq> x \<Longrightarrow> \<exists>k \<le> n. waits x l1 k" by blast
    show ?thesis
    proof (cases "f_more m")
      case True
      thus ?thesis using s q nd nd1 y by (auto simp: lb_sendpipe_def Let_def)
    next
      case False
      let ?c = "if Suc (rg_current l1) < rg_active l1 then Suc (rg_current l1) else 0"
      obtain w2 where w2: "w_flush y w1 = Some w2"
        using s q nd y(1) False by (auto simp: lb_sendpipe_def Let_def split: bind_splits)
      have "l1\<lparr>lb_more := False, rg_current := if rg_active l1 \<le> rg_current l1 + 1 then 0 else rg_current l1 + 1\<rparr> =
          l1\<lparr>rg_current := ?c, lb_more := False\<rparr>" by auto
      hence r: "r = Inr (Some y)" "w' = w2" "l' = l1\<lparr>rg_current := ?c, lb_more := False\<rparr>"
        using s q nd y(1) False w2 by (auto simp: lb_sendpipe_def Let_def)
      have "w' x = w x \<and> ring_ok l' \<and> \<not> lb_dropping l' \<and> (\<exists>k. waits x l' k \<and> k \<le> n \<and> k < n)" if ne: "y \<noteq> x"
      proof -
        obtain k where k: "k \<le> n" "waits x l1 k" using y(6) [OF ne] by blast
        obtain j where j: "j < k" "waits x (l1\<lparr>rg_current := ?c\<rparr>) j"
          using ring_next_waits [OF y(2) k(2) _ refl] y(4) ne by auto
        have "w2 x = w1 x" using w_other(6) [OF w2, of x] ne by auto
        moreover have "ring_ok (l1\<lparr>rg_current := ?c\<rparr>)" using y(2) by (auto simp: ring_ok_def)
        ultimately show ?thesis using r(2,3) y(5) [OF ne] j k(1) nd1 by (auto intro!: exI [of _ j])
      qed
      thus ?thesis using r(1) by blast
    qed
  qed
qed

text \<open>Several messages in a row; the flag tells whether the part continues a message.\<close>

fun lb_sends :: "frame list \<Rightarrow> lb \<Rightarrow> sock_pipes \<Rightarrow>
    ((bool \<times> frame \<times> nat option result) list \<times> lb \<times> sock_pipes) option" where
  "lb_sends [] l w = Some ([], l, w)"
| "lb_sends (m # ms) l w =
     do {
       (r, l1, w1) \<leftarrow> lb_sendpipe m l w;
       (rs, l2, w2) \<leftarrow> lb_sends ms l1 w1;
       Some ((lb_more l, m, r) # rs, l2, w2)
     }"

definition messages_sent :: "(bool \<times> frame \<times> nat option result) list \<Rightarrow> nat" where
  "messages_sent rs = length (filter (\<lambda>(b, m, r). \<not> f_more m \<and> r \<noteq> Inl EAGAIN) rs)"

lemma lb_sends_waits:
  assumes "lb_sends ms l w = Some (rs, l', w')" "ring_ok l" "\<not> lb_dropping l" "waits x l d" "writable x w"
    and "others = takeWhile (\<lambda>(b, m, r). r \<noteq> Inr (Some x)) rs"
  shows "list_all (\<lambda>(b, m, r). r = Inl EAGAIN \<longrightarrow> b) others \<and> messages_sent others \<le> d"
  using assms
proof (induction ms arbitrary: l w rs d others)
  case (Cons m ms)
  obtain r l1 w1 rs1 where r: "lb_sendpipe m l w = Some (r, l1, w1)" "lb_sends ms l1 w1 = Some (rs1, l', w')"
      "rs = (lb_more l, m, r) # rs1"
    using Cons.prems(1) by (auto split: bind_splits)
  let ?others = "takeWhile (\<lambda>(b, m, r). r \<noteq> Inr (Some x)) rs1"
  from lb_sendpipe_step [OF r(1) Cons.prems(3,2,4,5)] show ?case
  proof
    assume f: "r = Inl EAGAIN \<and> lb_more l \<and> w1 x = w x \<and> ring_ok l1 \<and> waits x l1 d \<and> \<not> lb_dropping l1"
    hence "list_all (\<lambda>(b, m, r). r = Inl EAGAIN \<longrightarrow> b) ?others \<and> messages_sent ?others \<le> d"
      using Cons.IH [OF r(2) _ _ _ _ refl] Cons.prems(5) writable_cong [of w1 x w] by blast
    thus ?thesis using f r(3) Cons.prems(6) by (simp add: messages_sent_def)
  next
    assume "\<exists>y. r = Inr (Some y) \<and> (y \<noteq> x \<longrightarrow> w1 x = w x \<and> ring_ok l1 \<and> \<not> lb_dropping l1 \<and>
       (\<exists>k. waits x l1 k \<and> k \<le> d \<and> (\<not> f_more m \<longrightarrow> k < d)))"
    then obtain y where y: "r = Inr (Some y)" and *: "y \<noteq> x \<longrightarrow> w1 x = w x \<and> ring_ok l1 \<and> \<not> lb_dropping l1 \<and>
       (\<exists>k. waits x l1 k \<and> k \<le> d \<and> (\<not> f_more m \<longrightarrow> k < d))" by blast
    show ?thesis
    proof (cases "y = x")
      case True
      thus ?thesis using y r(3) Cons.prems(6) by (simp add: messages_sent_def)
    next
      case False
      then obtain k where k: "w1 x = w x" "ring_ok l1" "\<not> lb_dropping l1" "waits x l1 k" "k \<le> d" "\<not> f_more m \<longrightarrow> k < d"
        using * by blast
      have "list_all (\<lambda>(b, m, r). r = Inl EAGAIN \<longrightarrow> b) ?others \<and> messages_sent ?others \<le> k"
        using Cons.IH [OF r(2) k(2,3,4) _ refl] Cons.prems(5) writable_cong [of w1 x w, OF k(1)] by blast
      thus ?thesis using False y r(3) Cons.prems(6) k(5,6) by (auto simp: messages_sent_def)
    qed
  qed
qed (simp add: messages_sent_def)

text \<open>
  C24. Load balancing is fair and does not fail needlessly.  While an active pipe accepts messages, only
  a part that continues a message can fail, and before the pipe gets a message fewer complete messages
  go to other pipes than there are active pipes.
\<close>

theorem lb_balanced:
  assumes "ring_ok l" "\<not> lb_dropping l" "x \<in> set (active_pipes l)" "writable x w"
    and "lb_sends ms l w = Some (rs, l', w')"
    and "others = takeWhile (\<lambda>(b, m, r). r \<noteq> Inr (Some x)) rs"
  shows "list_all (\<lambda>(b, m, r). r = Inl EAGAIN \<longrightarrow> b) others \<and> messages_sent others < rg_active l"
proof -
  obtain d where d: "waits x l d" using active_waits [OF assms(3,1)] by blast
  show ?thesis using lb_sends_waits [OF assms(5,1,2) d assms(4,6)] waits_bound [OF assms(1) d] by linarith
qed

theorem lb_balanced_witness:
  "\<exists>l w l' w'. rg_active l = 2 \<and>
     lb_sends [empty_frame] l w = Some ([(False, empty_frame, Inr (Some 0))], l', w') \<and>
     messages_sent [(False, empty_frame, Inr (Some 0))] < 2"
proof -
  let ?a = "\<lparr>ar_items = [0, 1], ar_index = int\<rparr>"
  let ?l = "\<lparr>rg_pipes = ?a, rg_active = 2, rg_current = 0, lb_more = False, lb_dropping = False\<rparr>"
  let ?w = "[0 \<mapsto> ready_pipe, 1 \<mapsto> ready_pipe] :: sock_pipes"
  obtain w1 where w1: "w_write 0 empty_frame ?w = Some (True, w1)"
    by (simp add: w_write_def ready_pipe_def pipe_write_def pipe_check_write_def pipe_new_def check_hwm_def)
  have "\<exists>w2. w_flush 0 w1 = Some w2"
    using w1 by (auto simp: w_flush_def w_write_def ready_pipe_def pipe_write_def pipe_check_write_def pipe_new_def
        check_hwm_def pipe_flush_def set_up_def f_more_def empty_frame_def data_frame_def has_flag_def)
  then obtain w2 where w2: "w_flush 0 w1 = Some w2" by blast
  have nm: "\<not> f_more empty_frame" by (simp add: f_more_def empty_frame_def data_frame_def has_flag_def)
  have "lb_loop empty_frame ?l ?w = Some (Lb_written 0, ?l, w1)"
    by (subst lb_loop.simps) (use w1 in \<open>simp add: arr_at_def arr_size_def\<close>)
  then obtain l' where "lb_sendpipe empty_frame ?l ?w = Some (Inr (Some 0), l', w2)"
    using w2 nm by (simp add: lb_sendpipe_def Let_def)
  hence s: "lb_sends [empty_frame] ?l ?w = Some ([(False, empty_frame, Inr (Some 0))], l', w2)" by simp
  have "ring_ok ?l" "1 \<in> set (active_pipes ?l)" "\<not> lb_dropping ?l" "writable 1 ?w"
    by (auto simp: ring_ok_def arr_ok_def arr_size_def active_pipes_def less_Suc_eq numeral_2_eq_2 writable_def
        w_check_write_def ready_pipe_def pipe_check_write_def pipe_new_def check_hwm_def)
  hence "messages_sent [(False, empty_frame, Inr (Some 0))] < rg_active ?l"
    using lb_balanced [OF _ _ _ _ s, of 1] by auto
  thus ?thesis using s by (intro exI [of _ ?l] exI [of _ ?w] exI [of _ l'] exI [of _ w2]) simp
qed



end
