(* ===== verification/Dist.thy ===== *)
theory Dist
  imports Sock_Pipes
begin

text \<open>
  Distribution of outbound messages to several pipes (\<open>src/dist.cpp\<close>).  The pipes of the array
  are ordered: first the matching ones, then the other active ones, the other eligible ones, and the
  passive ones.
\<close>

record dist =
  di_pipes :: "nat arr"
  di_matching :: nat
  di_active :: nat
  di_eligible :: nat
  di_more :: bool

definition dist_new :: dist where
  "dist_new = \<lparr>di_pipes = arr_new, di_matching = 0, di_active = 0, di_eligible = 0, di_more = False\<rparr>"

definition dist_attach :: "nat \<Rightarrow> dist \<Rightarrow> dist option" where
  "dist_attach x d =
     (let ps = arr_push_back x (di_pipes d) in
      if di_more d
      then do {
        ps' \<leftarrow> arr_swap (di_eligible d) (arr_size ps - 1) ps;
        Some (d\<lparr>di_pipes := ps', di_eligible := di_eligible d + 1\<rparr>)
      }
      else do {
        ps' \<leftarrow> arr_swap (di_active d) (arr_size ps - 1) ps;
        Some (d\<lparr>di_pipes := ps', di_active := di_active d + 1, di_eligible := di_eligible d + 1\<rparr>)
      })"

definition dist_match :: "nat \<Rightarrow> dist \<Rightarrow> dist option" where
  "dist_match x d =
     do {
       i \<leftarrow> arr_index x (di_pipes d);
       (if i < di_matching d then Some d
        else if di_eligible d \<le> i then Some d
        else do {
          ps \<leftarrow> arr_swap i (di_matching d) (di_pipes d);
          Some (d\<lparr>di_pipes := ps, di_matching := di_matching d + 1\<rparr>)
        })
     }"

definition dist_unmatch :: "dist \<Rightarrow> dist" where
  "dist_unmatch d = d\<lparr>di_matching := 0\<rparr>"

text \<open>The loop of \<open>reverse_match\<close>.\<close>

function reverse_loop :: "nat \<Rightarrow> dist \<Rightarrow> dist option" where
  "reverse_loop i d =
     (if i < di_eligible d
      then do {
        ps \<leftarrow> arr_swap i (di_matching d) (di_pipes d);
        reverse_loop (i + 1) (d\<lparr>di_pipes := ps, di_matching := di_matching d + 1\<rparr>)
      }
      else Some d)"
  by pat_completeness auto
termination
  by (relation "measure (\<lambda>(i, d). di_eligible d - i)") auto

declare reverse_loop.simps [simp del]

definition dist_reverse_match :: "dist \<Rightarrow> dist option" where
  "dist_reverse_match d = reverse_loop (di_matching d) (dist_unmatch d)"

definition dist_pipe_terminated :: "nat \<Rightarrow> dist \<Rightarrow> dist option" where
  "dist_pipe_terminated x d =
     do {
       i \<leftarrow> arr_index x (di_pipes d);
       d1 \<leftarrow> (if i < di_matching d
              then do {
                ps \<leftarrow> arr_swap i (di_matching d - 1) (di_pipes d);
                Some (d\<lparr>di_pipes := ps, di_matching := di_matching d - 1\<rparr>)
              }
              else Some d);
       i \<leftarrow> arr_index x (di_pipes d1);
       d2 \<leftarrow> (if i < di_active d1
              then do {
                ps \<leftarrow> arr_swap i (di_active d1 - 1) (di_pipes d1);
                Some (d1\<lparr>di_pipes := ps, di_active := di_active d1 - 1\<rparr>)
              }
              else Some d1);
       i \<leftarrow> arr_index x (di_pipes d2);
       d3 \<leftarrow> (if i < di_eligible d2
              then do {
                ps \<leftarrow> arr_swap i (di_eligible d2 - 1) (di_pipes d2);
                Some (d2\<lparr>di_pipes := ps, di_eligible := di_eligible d2 - 1\<rparr>)
              }
              else Some d2);
       ps \<leftarrow> arr_erase x (di_pipes d3);
       Some (d3\<lparr>di_pipes := ps\<rparr>)
     }"

definition dist_activated :: "nat \<Rightarrow> dist \<Rightarrow> dist option" where
  "dist_activated x d =
     do {
       d1 \<leftarrow> (if di_eligible d < arr_size (di_pipes d)
              then do {
                i \<leftarrow> arr_index x (di_pipes d);
                ps \<leftarrow> arr_swap i (di_eligible d) (di_pipes d);
                Some (d\<lparr>di_pipes := ps, di_eligible := di_eligible d + 1\<rparr>)
              }
              else Some d);
       (if \<not> di_more d1 \<and> di_active d1 < arr_size (di_pipes d1)
        then do {
          ps \<leftarrow> arr_swap (di_eligible d1 - 1) (di_active d1) (di_pipes d1);
          Some (d1\<lparr>di_pipes := ps, di_active := di_active d1 + 1\<rparr>)
        }
        else Some d1)
     }"

text \<open>\<open>dist_t::write\<close>: a pipe that does not take the message becomes passive.\<close>

definition dist_write :: "nat \<Rightarrow> frame \<Rightarrow> dist \<Rightarrow> sock_pipes \<Rightarrow> (bool \<times> dist \<times> sock_pipes) option" where
  "dist_write x m d w =
     do {
       (ok, w1) \<leftarrow> w_write x m w;
       (if \<not> ok
        then do {
          i \<leftarrow> arr_index x (di_pipes d);
          ps \<leftarrow> arr_swap i (di_matching d - 1) (di_pipes d);
          i \<leftarrow> arr_index x ps;
          ps \<leftarrow> arr_swap i (di_active d - 1) ps;
          ps \<leftarrow> arr_swap (di_active d - 1) (di_eligible d - 1) ps;
          Some (False, d\<lparr>di_pipes := ps, di_matching := di_matching d - 1, di_active := di_active d - 1,
                        di_eligible := di_eligible d - 1\<rparr>, w1)
        }
        else if \<not> f_more m then do { w2 \<leftarrow> w_flush x w1; Some (True, d, w2) }
        else Some (True, d, w1))
     }"

lemma dist_write_less:
  "dist_write x m d w = Some (ok, d', w') \<Longrightarrow> 0 < di_matching d \<Longrightarrow>
    di_matching d' = (if ok then di_matching d else di_matching d - 1)"
  by (auto simp: dist_write_def split: bind_splits if_splits)

text \<open>The loop of \<open>distribute\<close>; it counts the pipes that did not take the message.\<close>

function dist_loop :: "nat \<Rightarrow> nat \<Rightarrow> frame \<Rightarrow> dist \<Rightarrow> sock_pipes \<Rightarrow> (nat \<times> dist \<times> sock_pipes) option" where
  "dist_loop i failed m d w =
     (if i < di_matching d
      then do {
        x \<leftarrow> arr_at i (di_pipes d);
        (ok, d1, w1) \<leftarrow> dist_write x m d w;
        (if ok then dist_loop (i + 1) failed m d1 w1 else dist_loop i (failed + 1) m d1 w1)
      }
      else Some (failed, d, w))"
  by pat_completeness auto
termination
  by (relation "measure (\<lambda>(i, failed, m, d, w). di_matching d - i)") (auto dest!: dist_write_less)

declare dist_loop.simps [simp del]

text \<open>
  The references to the content of a message that is not very small: one for every matching pipe, less
  those of the pipes that failed.  They are returned along with the distributor.
\<close>

definition distribute :: "frame \<Rightarrow> dist \<Rightarrow> sock_pipes \<Rightarrow> (nat \<times> dist \<times> sock_pipes) option" where
  "distribute m d w =
     (if di_matching d = 0 then Some (0, d, w)
      else do { (failed, d1, w1) \<leftarrow> dist_loop 0 0 m d w; Some (di_matching d - failed, d1, w1) })"

definition send_to_matching :: "frame \<Rightarrow> dist \<Rightarrow> sock_pipes \<Rightarrow> (nat \<times> dist \<times> sock_pipes) option" where
  "send_to_matching m d w =
     do {
       (refs, d1, w1) \<leftarrow> distribute m d w;
       Some (refs, d1\<lparr>di_active := if f_more m then di_active d1 else di_eligible d1, di_more := f_more m\<rparr>, w1)
     }"

definition send_to_all :: "frame \<Rightarrow> dist \<Rightarrow> sock_pipes \<Rightarrow> (nat \<times> dist \<times> sock_pipes) option" where
  "send_to_all m d w = send_to_matching m (d\<lparr>di_matching := di_active d\<rparr>) w"

definition dist_has_out :: "dist \<Rightarrow> bool" where
  "dist_has_out d = True"

fun check_hwm_all :: "nat list \<Rightarrow> sock_pipes \<Rightarrow> bool option" where
  "check_hwm_all [] w = Some True"
| "check_hwm_all (x # xs) w = do { ok \<leftarrow> w_check_hwm x w; if ok then check_hwm_all xs w else Some False }"

definition dist_check_hwm :: "dist \<Rightarrow> sock_pipes \<Rightarrow> bool option" where
  "dist_check_hwm d w = check_hwm_all (take (di_matching d) (ar_items (di_pipes d))) w"

section \<open>Who gets a message\<close>

abbreviation dist_pipes :: "dist \<Rightarrow> nat list" where
  "dist_pipes d \<equiv> ar_items (di_pipes d)"

definition matching_pipes :: "dist \<Rightarrow> nat set" where
  "matching_pipes d = set (take (di_matching d) (dist_pipes d))"

definition di_active_pipes :: "dist \<Rightarrow> nat set" where
  "di_active_pipes d = set (take (di_active d) (dist_pipes d))"

definition eligible_pipes :: "dist \<Rightarrow> nat set" where
  "eligible_pipes d = set (take (di_eligible d) (dist_pipes d))"

definition dist_ok :: "dist \<Rightarrow> bool" where
  "dist_ok d \<longleftrightarrow> arr_ok (di_pipes d) \<and> di_matching d \<le> di_active d \<and> di_active d \<le> di_eligible d \<and>
     di_eligible d \<le> arr_size (di_pipes d) \<and> (\<not> di_more d \<longrightarrow> di_active d = di_eligible d)"

lemmas dist_sets = matching_pipes_def di_active_pipes_def eligible_pipes_def

text \<open>What the distribution of a message does to one pipe.\<close>

definition deliver :: "frame \<Rightarrow> pipe \<times> pipe_env \<Rightarrow> (pipe \<times> pipe_env) option" where
  "deliver m pe =
     do {
       (ok, p, e) \<leftarrow> pipe_write m (fst pe) (snd pe);
       e' \<leftarrow> (if ok \<and> \<not> f_more m then pipe_flush p e else Some e);
       Some (p, e')
     }"

lemma dist_write_world:
  assumes "dist_write x m d w = Some (ok, d', w')"
  shows "w' = w(x := Option.bind (w x) (deliver m)) \<and> Option.bind (w x) (deliver m) \<noteq> None \<and>
    (ok \<longleftrightarrow> writable x w) \<and> (ok \<longrightarrow> d' = d)"
proof -
  obtain r w1 where r: "w_write x m w = Some (r, w1)" using assms by (auto simp: dist_write_def split: bind_splits)
  obtain p e p1 e1 where p: "w x = Some (p, e)" "pipe_write m p e = Some (r, p1, e1)" "w1 = w(x \<mapsto> (p1, e1))"
    using r by (auto simp: w_write_def split: bind_splits)
  have wr: "writable x w \<longleftrightarrow> r" unfolding writable_def w_write_result [OF r] by simp
  show ?thesis
  proof (cases r)
    case True
    thus ?thesis using assms r p wr by (auto simp: dist_write_def w_flush_def deliver_def split: bind_splits if_splits)
  next
    case False
    have "w' = w1 \<and> \<not> ok" using assms False by (simp add: dist_write_def r) (auto split: bind_splits)
    thus ?thesis using False p wr by (auto simp: deliver_def)
  qed
qed

lemma dist_write_fails:
  assumes ok: "dist_ok d" and i: "i < di_matching d" "x = dist_pipes d ! i"
    and w: "w_write x m w = Some (False, w1)"
  shows "\<exists>d'. dist_write x m d w = Some (False, d', w1) \<and> dist_ok d' \<and> di_matching d' = di_matching d - 1 \<and>
    di_more d' = di_more d \<and> set (dist_pipes d') = set (dist_pipes d) \<and>
    take i (dist_pipes d') = take i (dist_pipes d) \<and> matching_pipes d' = matching_pipes d - {x} \<and>
    di_active_pipes d' = di_active_pipes d - {x} \<and> eligible_pipes d' = eligible_pipes d - {x}"
proof -
  let ?m = "di_matching d" and ?a = "di_active d" and ?e = "di_eligible d"
  have le: "?m \<le> ?a" "?a \<le> ?e" "?e \<le> arr_size (di_pipes d)" and aok: "arr_ok (di_pipes d)" using ok by (auto simp: dist_ok_def)
  hence sz: "?m \<le> arr_size (di_pipes d)" "?a \<le> arr_size (di_pipes d)" "?e \<le> arr_size (di_pipes d)" by simp_all
  have ix: "arr_index x (di_pipes d) = Some i" using arr_index_nth [OF aok, of i] i le by simp
  obtain p1 where p1: "arr_swap i (?m - 1) (di_pipes d) = Some p1" "arr_ok p1" "arr_size p1 = arr_size (di_pipes d)"
      "\<forall>j \<le> i. take j (ar_items p1) = take j (dist_pipes d)" "\<forall>k \<ge> ?m. set (take k (ar_items p1)) = set (take k (dist_pipes d))"
      "set (take (?m - 1) (ar_items p1)) = set (take ?m (dist_pipes d)) - {x}" "ar_items p1 ! (?m - 1) = x"
    using arr_swap_out [OF aok i(1) sz(1)] unfolding i(2) [symmetric] by blast
  have ix1: "arr_index x p1 = Some (?m - 1)" using arr_index_nth [OF p1(2), of "?m - 1"] p1(3,7) i(1) le by simp
  have m1: "?m - 1 < ?a" using i(1) le by simp
  obtain p2 where p2: "arr_swap (?m - 1) (?a - 1) p1 = Some p2" "arr_ok p2" "arr_size p2 = arr_size (di_pipes d)"
      "\<forall>j \<le> ?m - 1. take j (ar_items p2) = take j (ar_items p1)" "\<forall>k \<ge> ?a. set (take k (ar_items p2)) = set (take k (ar_items p1))"
      "set (take (?a - 1) (ar_items p2)) = set (take ?a (ar_items p1)) - {x}" "ar_items p2 ! (?a - 1) = x"
    using arr_swap_out [OF p1(2) m1] sz(2) unfolding p1(3,7) by blast
  have a1: "?a - 1 < ?e" using i(1) le by simp
  obtain p3 where p3: "arr_swap (?a - 1) (?e - 1) p2 = Some p3" "arr_ok p3" "arr_size p3 = arr_size (di_pipes d)"
      "\<forall>j \<le> ?a - 1. take j (ar_items p3) = take j (ar_items p2)" "\<forall>k \<ge> ?e. set (take k (ar_items p3)) = set (take k (ar_items p2))"
      "set (take (?e - 1) (ar_items p3)) = set (take ?e (ar_items p2)) - {x}"
    using arr_swap_out [OF p2(2) a1] sz(3) unfolding p2(3,7) by blast
  let ?d = "d\<lparr>di_pipes := p3, di_matching := ?m - 1, di_active := ?a - 1, di_eligible := ?e - 1\<rparr>"
  have st: "set (ar_items p3) = set (dist_pipes d)"
  proof -
    let ?n = "arr_size (di_pipes d)"
    have "set (take ?n (ar_items p3)) = set (take ?n (dist_pipes d))" using p3(5) p2(5) p1(5) sz by simp
    thus ?thesis using p3(3) by (simp add: arr_size_def)
  qed
  have "dist_write x m d w = Some (False, ?d, w1)"
    using w ix p1(1) ix1 p2(1) p3(1) by (simp add: dist_write_def)
  moreover have "dist_ok ?d" using ok p3(2,3) i(1) by (auto simp: dist_ok_def)
  moreover have "take i (ar_items p3) = take i (dist_pipes d)" using p3(4) p2(4) p1(4) i(1) le by simp
  moreover have "set (take (?m - 1) (ar_items p3)) = set (take ?m (dist_pipes d)) - {x}"
    using p3(4) p2(4) p1(6) i(1) le by simp
  moreover have "set (take (?a - 1) (ar_items p3)) = set (take ?a (dist_pipes d)) - {x}"
    using p3(4) p2(6) p1(5) le by simp
  moreover have "set (take (?e - 1) (ar_items p3)) = set (take ?e (dist_pipes d)) - {x}"
    using p3(6) p2(5) p1(5) le by simp
  ultimately show ?thesis using st by (auto simp: dist_sets)
qed

lemma dist_loop_result:
  assumes "dist_loop i failed m d w = Some (failed', d', w')" "dist_ok d" "i \<le> di_matching d"
    and "P = set (drop i (take (di_matching d) (dist_pipes d)))" "F = {x \<in> P. \<not> writable x w}"
  shows "dist_ok d' \<and> di_more d' = di_more d \<and> set (dist_pipes d') = set (dist_pipes d) \<and>
    (\<forall>x. w' x = (if x \<in> P then Option.bind (w x) (deliver m) else w x)) \<and>
    (\<forall>x \<in> P. w' x \<noteq> None) \<and> failed' = failed + card F \<and>
    matching_pipes d' = matching_pipes d - F \<and> di_active_pipes d' = di_active_pipes d - F \<and>
    eligible_pipes d' = eligible_pipes d - F"
  using assms
proof (induction i failed m d w arbitrary: P F rule: dist_loop.induct)
  case (1 i failed m d w)
  note run = 1(3) and ok = 1(4) and P = 1(6) and F = 1(7)
  show ?case
  proof (cases "i < di_matching d")
    case False
    thus ?thesis using run ok P F by (simp add: dist_loop.simps [of i])
  next
    case True
    let ?x = "dist_pipes d ! i"
    have len: "i < length (dist_pipes d)" "di_matching d \<le> length (dist_pipes d)" and dis: "distinct (dist_pipes d)"
      using True ok by (auto simp: dist_ok_def arr_ok_def arr_size_def)
    have at: "arr_at i (di_pipes d) = Some ?x" using len by (simp add: arr_at_def arr_size_def)
    obtain r d1 w1 where r: "dist_write ?x m d w = Some (r, d1, w1)"
      and rest: "(if r then dist_loop (i + 1) failed m d1 w1 else dist_loop i (failed + 1) m d1 w1) = Some (failed', d', w')"
      using run True at by (auto simp: dist_loop.simps [of i] split: bind_splits)
    note wd = dist_write_world [OF r]
    have Pi: "drop i (take (di_matching d) (dist_pipes d)) = ?x # drop (Suc i) (take (di_matching d) (dist_pipes d))"
      using True len by (subst Cons_nth_drop_Suc [symmetric]) auto
    define Q where "Q = P - {?x}"
    have Q: "P = insert ?x Q" "?x \<notin> Q" "Q = set (drop (Suc i) (take (di_matching d) (dist_pipes d)))"
    proof -
      have "distinct (?x # drop (Suc i) (take (di_matching d) (dist_pipes d)))" unfolding Pi [symmetric] using dis by simp
      thus "P = insert ?x Q" "?x \<notin> Q" "Q = set (drop (Suc i) (take (di_matching d) (dist_pipes d)))"
        unfolding Q_def P Pi by auto
    qed
    have same: "writable y w1 = writable y w" if "y \<noteq> ?x" for y
      using wd that by (intro writable_cong) auto
    have FQ: "{x \<in> Q. \<not> writable x w1} = {x \<in> Q. \<not> writable x w}" using Q(2) same by (intro Collect_cong) metis
    have finQ: "finite Q" using Q(3) by simp
    have comb: "(if x \<in> Q then Option.bind (w1 x) (deliver m) else w1 x) =
        (if x \<in> P then Option.bind (w x) (deliver m) else w x)" for x using wd Q(1,2) by auto
    show ?thesis
    proof (cases r)
      case r: True
      hence FP: "F = {x \<in> Q. \<not> writable x w}" using wd Q(1) F by auto
      have d1: "d1 = d" using wd r by simp
      have "dist_loop (i + 1) failed m d1 w1 = Some (failed', d', w')" using rest r by simp
      hence *: "dist_ok d' \<and> di_more d' = di_more d1 \<and> set (dist_pipes d') = set (dist_pipes d1) \<and>
          (\<forall>x. w' x = (if x \<in> Q then Option.bind (w1 x) (deliver m) else w1 x)) \<and>
          (\<forall>x \<in> Q. w' x \<noteq> None) \<and> failed' = failed + card {x \<in> Q. \<not> writable x w1} \<and>
          matching_pipes d' = matching_pipes d1 - {x \<in> Q. \<not> writable x w1} \<and>
          di_active_pipes d' = di_active_pipes d1 - {x \<in> Q. \<not> writable x w1} \<and>
          eligible_pipes d' = eligible_pipes d1 - {x \<in> Q. \<not> writable x w1}"
        by (intro 1(1) [OF True at \<open>dist_write ?x m d w = Some (r, d1, w1)\<close> refl refl r])
          (use ok True d1 Q(3) in auto)
      have "\<forall>x \<in> P. w' x \<noteq> None" using * wd Q(1,2) by auto
      thus ?thesis using * comb by (simp add: d1 FQ FP)
    next
      case r': False
      obtain ww where ww: "w_write ?x m w = Some (False, ww)"
        using r r' by (auto simp: dist_write_def split: bind_splits if_splits)
      obtain d2 where d2: "dist_write ?x m d w = Some (False, d2, ww)" "dist_ok d2" "di_matching d2 = di_matching d - 1"
          "di_more d2 = di_more d" "set (dist_pipes d2) = set (dist_pipes d)" "take i (dist_pipes d2) = take i (dist_pipes d)"
          "matching_pipes d2 = matching_pipes d - {?x}" "di_active_pipes d2 = di_active_pipes d - {?x}"
          "eligible_pipes d2 = eligible_pipes d - {?x}"
        using dist_write_fails [OF ok True refl ww] by blast
      have d1: "d1 = d2" using d2(1) r by simp
      have mi: "i \<le> di_matching d1" using d2(3) True unfolding d1 by simp
      have "distinct (dist_pipes d1)" using d2(2) unfolding d1 by (simp add: dist_ok_def arr_ok_def)
      hence Q2: "Q = set (drop i (take (di_matching d1) (dist_pipes d1)))"
        using set_drop_take [OF _ mi, of "dist_pipes d1"] set_drop_take [OF dis, of i "di_matching d"] True
          d2(6,7) P unfolding d1 Q_def matching_pipes_def by auto
      have FP: "F = insert ?x {x \<in> Q. \<not> writable x w}" using wd Q(1) F r' by auto
      hence card: "card F = Suc (card {x \<in> Q. \<not> writable x w})" using Q(2) finQ by simp
      have "dist_loop i (failed + 1) m d1 w1 = Some (failed', d', w')" using rest r' by simp
      hence *: "dist_ok d' \<and> di_more d' = di_more d1 \<and> set (dist_pipes d') = set (dist_pipes d1) \<and>
          (\<forall>x. w' x = (if x \<in> Q then Option.bind (w1 x) (deliver m) else w1 x)) \<and>
          (\<forall>x \<in> Q. w' x \<noteq> None) \<and> failed' = failed + 1 + card {x \<in> Q. \<not> writable x w1} \<and>
          matching_pipes d' = matching_pipes d1 - {x \<in> Q. \<not> writable x w1} \<and>
          di_active_pipes d' = di_active_pipes d1 - {x \<in> Q. \<not> writable x w1} \<and>
          eligible_pipes d' = eligible_pipes d1 - {x \<in> Q. \<not> writable x w1}"
        by (intro 1(2) [OF True at r refl refl r']) (use d2(2) d1 mi Q2 in auto)
      have "\<forall>x \<in> P. w' x \<noteq> None" using * wd Q(1,2) by auto
      thus ?thesis using * comb d2(4,5,7,8,9) card by (auto simp: d1 FQ FP)
    qed
  qed
qed

lemma send_to_matching_result:
  assumes ok: "dist_ok d" and s: "send_to_matching m d w = Some (refs, d', w')"
    and R: "R = {x \<in> matching_pipes d. \<not> writable x w}"
  shows "(\<forall>x. w' x = (if x \<in> matching_pipes d then Option.bind (w x) (deliver m) else w x)) \<and>
    refs = card (matching_pipes d - R) \<and> dist_ok d' \<and> set (dist_pipes d') = set (dist_pipes d) \<and>
    eligible_pipes d' = eligible_pipes d - R \<and>
    di_active_pipes d' = (if f_more m then di_active_pipes d - R else eligible_pipes d - R)"
proof (cases "di_matching d = 0")
  case True
  hence "R = {}" "matching_pipes d = {}" by (simp_all add: R matching_pipes_def)
  thus ?thesis using ok s True by (auto simp: send_to_matching_def distribute_def dist_ok_def dist_sets)
next
  case False
  obtain failed d1 w1 where l: "dist_loop 0 0 m d w = Some (failed, d1, w1)"
    using s False by (auto simp: send_to_matching_def distribute_def split: bind_splits)
  hence r: "refs = di_matching d - failed" "w' = w1"
      "d' = d1\<lparr>di_active := if f_more m then di_active d1 else di_eligible d1, di_more := f_more m\<rparr>"
    using s False by (auto simp: send_to_matching_def distribute_def)
  have P: "matching_pipes d = set (drop 0 (take (di_matching d) (dist_pipes d)))" by (simp add: matching_pipes_def)
  note L = dist_loop_result [OF l ok _ P R]
  have "distinct (dist_pipes d)" "di_matching d \<le> length (dist_pipes d)"
    using ok by (auto simp: dist_ok_def arr_ok_def arr_size_def)
  hence "card (matching_pipes d) = di_matching d" by (simp add: matching_pipes_def distinct_card)
  moreover have "card (matching_pipes d - R) = card (matching_pipes d) - card R"
    by (intro card_Diff_subset) (auto simp: R matching_pipes_def)
  ultimately have "refs = card (matching_pipes d - R)" using r(1) L by simp
  thus ?thesis using L r(2,3) by (auto simp: dist_ok_def dist_sets)
qed

text \<open>The distribution succeeds if the matching pipes can be used.\<close>

lemma dist_loop_total:
  assumes "dist_ok d" "i \<le> di_matching d" "\<forall>x \<in> set (drop i (take (di_matching d) (dist_pipes d))). Option.bind (w x) (deliver m) \<noteq> None"
  shows "dist_loop i failed m d w \<noteq> None"
  using assms
proof (induction i failed m d w rule: dist_loop.induct)
  case (1 i failed m d w)
  show ?case
  proof (cases "i < di_matching d")
    case False
    thus ?thesis by (simp add: dist_loop.simps [of i])
  next
    case True
    let ?x = "dist_pipes d ! i"
    have len: "di_matching d \<le> length (dist_pipes d)" "distinct (dist_pipes d)" using 1(3) by (auto simp: dist_ok_def arr_ok_def arr_size_def)
    have split: "drop i (take (di_matching d) (dist_pipes d)) = ?x # drop (Suc i) (take (di_matching d) (dist_pipes d))"
      using True len(1) by (subst Cons_nth_drop_Suc [symmetric]) auto
    have at: "arr_at i (di_pipes d) = Some ?x" using True len(1) by (simp add: arr_at_def arr_size_def)
    have nx: "?x \<notin> set (drop (Suc i) (take (di_matching d) (dist_pipes d)))"
      using len(2) split by (metis distinct.simps(2) distinct_drop distinct_take)
    have dx: "Option.bind (w ?x) (deliver m) \<noteq> None" using 1(5) split by simp
    then obtain p e where pe: "w ?x = Some (p, e)" by (cases "w ?x") auto
    obtain r p1 e1 where wr: "pipe_write m p e = Some (r, p1, e1)" using dx pe by (auto simp: deliver_def split: bind_splits)
    hence ww: "w_write ?x m w = Some (r, w(?x \<mapsto> (p1, e1)))" using pe by (simp add: w_write_def)
    show ?thesis
    proof (cases r)
      case True
      have "\<exists>w1. dist_write ?x m d w = Some (True, d, w1)"
        using dx pe wr ww True by (auto simp: dist_write_def deliver_def w_flush_def split: bind_splits if_splits)
      then obtain w1 where w1: "dist_write ?x m d w = Some (True, d, w1)" by blast
      have "\<forall>x \<in> set (drop (i + 1) (take (di_matching d) (dist_pipes d))). Option.bind (w1 x) (deliver m) \<noteq> None"
        using 1(5) split nx dist_write_world [OF w1] by auto
      hence "dist_loop (i + 1) failed m d w1 \<noteq> None" using 1(1) [OF \<open>i < di_matching d\<close> at w1 refl refl TrueI 1(3)] \<open>i < di_matching d\<close> by simp
      thus ?thesis using \<open>i < di_matching d\<close> at w1 by (simp add: dist_loop.simps [of i])
    next
      case False
      hence fr: "r = False" by simp
      obtain d' where d': "dist_write ?x m d w = Some (False, d', w(?x \<mapsto> (p1, e1)))" "dist_ok d'" "di_matching d' = di_matching d - 1"
          "take i (dist_pipes d') = take i (dist_pipes d)" "matching_pipes d' = matching_pipes d - {?x}"
        using dist_write_fails [OF 1(3) \<open>i < di_matching d\<close> refl ww [unfolded fr]] by blast
      have dist': "distinct (dist_pipes d')" "di_matching d' \<le> length (dist_pipes d')" using d'(2) by (auto simp: dist_ok_def arr_ok_def arr_size_def)
      have "set (drop i (take (di_matching d') (dist_pipes d'))) = matching_pipes d' - set (take i (dist_pipes d'))"
        using set_drop_take [OF dist'(1), of i "di_matching d'"] True d'(3) by (simp add: matching_pipes_def)
      moreover have "set (drop i (take (di_matching d) (dist_pipes d))) = matching_pipes d - set (take i (dist_pipes d))"
        using set_drop_take [OF len(2), of i "di_matching d"] True by (simp add: matching_pipes_def)
      ultimately have "\<forall>x \<in> set (drop i (take (di_matching d') (dist_pipes d'))). Option.bind ((w(?x \<mapsto> (p1, e1))) x) (deliver m) \<noteq> None"
        using 1(5) d'(4,5) by auto
      moreover have "i \<le> di_matching d'" using True d'(3) by simp
      ultimately have "dist_loop i (failed + 1) m d' (w(?x \<mapsto> (p1, e1))) \<noteq> None"
        using 1(2) [OF True at d'(1) refl refl _ d'(2)] by blast
      thus ?thesis using True at d'(1) by (simp add: dist_loop.simps [of i])
    qed
  qed
qed

lemma send_to_matching_total:
  assumes "dist_ok d" "\<forall>x \<in> matching_pipes d. Option.bind (w x) (deliver m) \<noteq> None"
  shows "send_to_matching m d w \<noteq> None"
  using dist_loop_total [OF assms(1), of 0 w m 0] assms(2)
  by (auto simp: send_to_matching_def distribute_def matching_pipes_def split: bind_splits)

text \<open>
  C26. A message is distributed to exactly the matching pipes.  Each of them is written to once, and
  flushed when the message is complete; no other pipe is touched.  The pipes that do not accept the
  message are no longer eligible, and one reference to the content remains for every pipe that does.
\<close>

theorem dist_delivers:
  assumes ok: "dist_ok d" and s: "send_to_matching m d w = Some (refs, d', w')"
    and R: "R = {x \<in> matching_pipes d. \<not> writable x w}"
  shows "(\<forall>x. w' x = (if x \<in> matching_pipes d then Option.bind (w x) (deliver m) else w x)) \<and>
    refs = card (matching_pipes d - R) \<and> dist_ok d' \<and> set (dist_pipes d') = set (dist_pipes d) \<and>
    eligible_pipes d' = eligible_pipes d - R \<and>
    di_active_pipes d' = (if f_more m then di_active_pipes d - R else eligible_pipes d - R)"
  using send_to_matching_result [OF assms] .

section \<open>The other operations\<close>

lemma reverse_loop_result:
  "arr_ok (di_pipes d) \<Longrightarrow> di_matching d \<le> i \<Longrightarrow> i \<le> di_eligible d \<Longrightarrow> di_eligible d \<le> arr_size (di_pipes d) \<Longrightarrow>
    \<exists>d'. reverse_loop i d = Some d' \<and> arr_ok (di_pipes d') \<and> arr_size (di_pipes d') = arr_size (di_pipes d) \<and>
      di_matching d' = di_matching d + (di_eligible d - i) \<and> di_active d' = di_active d \<and>
      di_eligible d' = di_eligible d \<and> di_more d' = di_more d \<and>
      matching_pipes d' = matching_pipes d \<union> set (drop i (take (di_eligible d) (dist_pipes d))) \<and>
      (\<forall>k \<ge> di_eligible d. set (take k (dist_pipes d')) = set (take k (dist_pipes d)))"
proof (induction i d rule: reverse_loop.induct)
  case (1 i d)
  show ?case
  proof (cases "i < di_eligible d")
    case False
    have "reverse_loop i d = Some d" by (subst reverse_loop.simps) (simp add: False)
    moreover have "i = di_eligible d" using False 1(4) by simp
    ultimately show ?thesis using 1(2) by simp
  next
    case True
    let ?n = "di_matching d" and ?xs = "dist_pipes d"
    have i: "i < arr_size (di_pipes d)" using True 1(5) by simp
    obtain ps where ps: "arr_swap i ?n (di_pipes d) = Some ps" "arr_ok ps" "arr_size ps = arr_size (di_pipes d)"
        "\<forall>k > i. set (take k (ar_items ps)) = set (take k ?xs)" "take (Suc ?n) (ar_items ps) = take ?n ?xs @ [?xs ! i]"
      using arr_swap_in [OF 1(2,3) i] by blast
    have items: "ar_items ps = ?xs[i := ?xs ! ?n, ?n := ?xs ! i]" using arr_swap_ok [OF 1(2) ps(1)] by blast
    let ?d = "d\<lparr>di_pipes := ps, di_matching := ?n + 1\<rparr>"
    obtain d' where d': "reverse_loop (i + 1) ?d = Some d'" "arr_ok (di_pipes d')" "arr_size (di_pipes d') = arr_size ps"
        "di_matching d' = ?n + 1 + (di_eligible d - (i + 1))" "di_active d' = di_active d" "di_eligible d' = di_eligible d"
        "di_more d' = di_more d"
        "matching_pipes d' = matching_pipes ?d \<union> set (drop (i + 1) (take (di_eligible d) (ar_items ps)))"
        "\<forall>k \<ge> di_eligible d. set (take k (dist_pipes d')) = set (take k (ar_items ps))"
      using 1(1) [OF True ps(1)] ps(2,3) 1(3,5) True by auto
    have "drop (i + 1) (take (di_eligible d) (ar_items ps)) = drop (i + 1) (take (di_eligible d) ?xs)"
      using 1(3) by (simp add: items drop_take)
    moreover have "set (drop i (take (di_eligible d) ?xs)) = insert (?xs ! i) (set (drop (i + 1) (take (di_eligible d) ?xs)))"
      using True i 1(5) by (subst Cons_nth_drop_Suc [symmetric]) (auto simp: arr_size_def)
    moreover have "matching_pipes ?d = insert (?xs ! i) (matching_pipes d)" using ps(5) by (simp add: matching_pipes_def)
    ultimately have "matching_pipes d' = matching_pipes d \<union> set (drop i (take (di_eligible d) ?xs))" using d'(8) by auto
    moreover have "reverse_loop i d = Some d'" using True ps(1) d'(1) by (simp add: reverse_loop.simps [of i d])
    ultimately show ?thesis using d' ps(3,4) True by auto
  qed
qed

lemma dist_reverse_match_ok:
  assumes ok: "dist_ok d" "\<not> di_more d"
  shows "\<exists>d'. dist_reverse_match d = Some d' \<and> dist_ok d' \<and> matching_pipes d' = eligible_pipes d - matching_pipes d \<and>
    eligible_pipes d' = eligible_pipes d \<and> set (dist_pipes d') = set (dist_pipes d)"
proof -
  have o: "arr_ok (di_pipes d)" "di_matching d \<le> di_eligible d" "di_eligible d \<le> arr_size (di_pipes d)"
    "di_active d = di_eligible d" "distinct (dist_pipes d)" using ok by (auto simp: dist_ok_def arr_ok_def)
  obtain d' where d': "reverse_loop (di_matching d) (dist_unmatch d) = Some d'" "arr_ok (di_pipes d')"
      "arr_size (di_pipes d') = arr_size (di_pipes d)" "di_matching d' = di_eligible d - di_matching d" "di_active d' = di_active d"
      "di_eligible d' = di_eligible d" "di_more d' = di_more d"
      "matching_pipes d' = set (drop (di_matching d) (take (di_eligible d) (dist_pipes d)))"
      "\<forall>k \<ge> di_eligible d. set (take k (dist_pipes d')) = set (take k (dist_pipes d))"
    using reverse_loop_result [of "dist_unmatch d" "di_matching d"] o by (auto simp: dist_unmatch_def matching_pipes_def)
  have "set (dist_pipes d') = set (dist_pipes d)"
    using d'(3,9) o(3) by (metis arr_size_def order_refl take_all)
  moreover have "dist_ok d'" using ok d'(2-7) o by (auto simp: dist_ok_def)
  ultimately show ?thesis using d' set_drop_take [OF o(5,2)] by (auto simp: dist_reverse_match_def dist_sets)
qed

lemma dist_match_more: "dist_match x d = Some d' \<Longrightarrow> di_more d' = di_more d"
  by (auto simp: dist_match_def split: bind_splits if_splits)

lemma reverse_loop_more: "reverse_loop i d = Some d' \<Longrightarrow> di_more d' = di_more d"
proof (induction i d rule: reverse_loop.induct)
  case (1 i d)
  thus ?case by (cases "i < di_eligible d") (auto simp: reverse_loop.simps [of i d] split: bind_splits)
qed

lemma dist_reverse_match_more: "dist_reverse_match d = Some d' \<Longrightarrow> di_more d' = di_more d"
  using reverse_loop_more [of _ "dist_unmatch d" d'] by (simp add: dist_reverse_match_def dist_unmatch_def)

lemma dist_pipe_terminated_ok:
  assumes ok: "dist_ok d" and x: "x \<in> set (dist_pipes d)"
  shows "\<exists>d'. dist_pipe_terminated x d = Some d' \<and> dist_ok d' \<and> set (dist_pipes d') = set (dist_pipes d) - {x} \<and>
    matching_pipes d' = matching_pipes d - {x} \<and> di_active_pipes d' = di_active_pipes d - {x} \<and>
    eligible_pipes d' = eligible_pipes d - {x}"
proof -
  let ?m = "di_matching d" and ?a = "di_active d" and ?e = "di_eligible d" and ?s = "arr_size (di_pipes d)"
  have le: "?m \<le> ?a" "?a \<le> ?e" "?e \<le> ?s" and aok: "arr_ok (di_pipes d)" using ok by (auto simp: dist_ok_def)
  hence sz: "?m \<le> ?s" "?a \<le> ?s" by simp_all
  obtain i1 p1 where p1: "arr_index x (di_pipes d) = Some i1"
      "(if i1 < ?m then arr_swap i1 (?m - 1) (di_pipes d) else Some (di_pipes d)) = Some p1" "arr_ok p1" "arr_size p1 = ?s"
      "set (ar_items p1) = set (dist_pipes d)" "\<forall>k \<ge> ?m. set (take k (ar_items p1)) = set (take k (dist_pipes d))"
      "set (take (if i1 < ?m then ?m - 1 else ?m) (ar_items p1)) = set (take ?m (dist_pipes d)) - {x}"
    using arr_move_out [OF aok x sz(1)] by blast
  define m1 where "m1 = (if i1 < ?m then ?m - 1 else ?m)"
  obtain i2 p2 where p2: "arr_index x p1 = Some i2" "(if i2 < ?a then arr_swap i2 (?a - 1) p1 else Some p1) = Some p2"
      "arr_ok p2" "arr_size p2 = ?s" "set (ar_items p2) = set (dist_pipes d)"
      "\<forall>j \<le> ?s. x \<notin> set (take j (ar_items p1)) \<longrightarrow> take j (ar_items p2) = take j (ar_items p1)"
      "\<forall>k \<ge> ?a. set (take k (ar_items p2)) = set (take k (ar_items p1))"
      "set (take (if i2 < ?a then ?a - 1 else ?a) (ar_items p2)) = set (take ?a (ar_items p1)) - {x}"
    using arr_move_out [OF p1(3), of x ?a] x sz(2) unfolding p1(4,5) by blast
  define a1 where "a1 = (if i2 < ?a then ?a - 1 else ?a)"
  obtain i3 p3 where p3: "arr_index x p2 = Some i3" "(if i3 < ?e then arr_swap i3 (?e - 1) p2 else Some p2) = Some p3"
      "arr_ok p3" "arr_size p3 = ?s" "set (ar_items p3) = set (dist_pipes d)"
      "\<forall>j \<le> ?s. x \<notin> set (take j (ar_items p2)) \<longrightarrow> take j (ar_items p3) = take j (ar_items p2)"
      "\<forall>k \<ge> ?e. set (take k (ar_items p3)) = set (take k (ar_items p2))"
      "set (take (if i3 < ?e then ?e - 1 else ?e) (ar_items p3)) = set (take ?e (ar_items p2)) - {x}"
    using arr_move_out [OF p2(3), of x ?e] x le(3) unfolding p2(4,5) by blast
  define e1 where "e1 = (if i3 < ?e then ?e - 1 else ?e)"
  have bounds: "m1 \<le> ?m" "a1 \<le> ?a" "e1 \<le> ?e" by (simp_all add: m1_def a1_def e1_def)
  have tm: "set (take m1 (ar_items p3)) = set (take ?m (dist_pipes d)) - {x}"
  proof -
    have 1: "take m1 (ar_items p2) = take m1 (ar_items p1)"
      using p1(7) p2(6) sz(1) bounds(1) unfolding m1_def [symmetric] by auto
    hence "take m1 (ar_items p3) = take m1 (ar_items p2)"
      using p1(7) p3(6) sz(1) bounds(1) unfolding m1_def [symmetric] by auto
    thus ?thesis using 1 p1(7) unfolding m1_def by simp
  qed
  have ta: "set (take a1 (ar_items p3)) = set (take ?a (dist_pipes d)) - {x}"
  proof -
    have "take a1 (ar_items p3) = take a1 (ar_items p2)"
      using p2(8) p3(6) sz(2) bounds(2) unfolding a1_def [symmetric] by auto
    thus ?thesis using p2(8) p1(6) le(1) unfolding a1_def [symmetric] by simp
  qed
  have te: "set (take e1 (ar_items p3)) = set (take ?e (dist_pipes d)) - {x}"
    using p3(8) p2(7) p1(6) le unfolding e1_def [symmetric] by simp
  have nm: "m1 \<le> a1" "a1 \<le> e1" "\<not> di_more d \<Longrightarrow> a1 = e1"
  proof -
    have c: "card (set (take n (ar_items p3))) = n" if "n \<le> ?s" for n
      using that p3(3,4) by (simp add: distinct_card arr_ok_def arr_size_def)
    have "set (take m1 (ar_items p3)) \<subseteq> set (take a1 (ar_items p3))"
      unfolding tm ta using le by (meson Diff_mono order_refl set_take_subset_set_take)
    hence "card (set (take m1 (ar_items p3))) \<le> card (set (take a1 (ar_items p3)))" by (simp add: card_mono)
    thus "m1 \<le> a1" using c [of m1] c [of a1] bounds sz le by simp
    have "set (take a1 (ar_items p3)) \<subseteq> set (take e1 (ar_items p3))"
      unfolding ta te using le by (meson Diff_mono order_refl set_take_subset_set_take)
    hence "card (set (take a1 (ar_items p3))) \<le> card (set (take e1 (ar_items p3)))" by (simp add: card_mono)
    thus "a1 \<le> e1" using c [of a1] c [of e1] bounds sz le by simp
    assume "\<not> di_more d"
    hence "?a = ?e" using ok by (simp add: dist_ok_def)
    hence "card (set (take a1 (ar_items p3))) = card (set (take e1 (ar_items p3)))" unfolding ta te by simp
    thus "a1 = e1" using c [of a1] c [of e1] bounds sz le by simp
  qed
  have x3: "x \<in> set (ar_items p3)" "x \<notin> set (take e1 (ar_items p3))" "e1 \<le> arr_size p3"
    using x p3(4,5) te bounds(3) le by auto
  obtain ps where ps: "arr_erase x p3 = Some ps" "arr_ok ps" "e1 \<le> arr_size ps" "set (ar_items ps) = set (dist_pipes d) - {x}"
      "\<forall>j \<le> e1. take j (ar_items ps) = take j (ar_items p3)"
    using arr_erase_ok [OF p3(3) x3] p3(5) by blast
  let ?d = "d\<lparr>di_pipes := ps, di_matching := m1, di_active := a1, di_eligible := e1\<rparr>"
  have "dist_pipe_terminated x d = Some ?d"
    using p1(1,2) p2(1,2) p3(1,2) ps(1)
    by (cases "i1 < ?m"; cases "i2 < ?a"; cases "i3 < ?e")
      (simp_all add: dist_pipe_terminated_def m1_def a1_def e1_def)
  moreover have "dist_ok ?d" using ps(2,3) nm by (simp add: dist_ok_def)
  ultimately show ?thesis using ps(4,5) tm ta te nm by (simp add: dist_sets)
qed

lemma dist_match_ok:
  assumes ok: "dist_ok d" "\<not> di_more d" and x: "x \<in> set (dist_pipes d)"
  shows "\<exists>d'. dist_match x d = Some d' \<and> dist_ok d' \<and> set (dist_pipes d') = set (dist_pipes d) \<and>
    eligible_pipes d' = eligible_pipes d \<and>
    matching_pipes d' = (if x \<in> eligible_pipes d then insert x (matching_pipes d) else matching_pipes d)"
proof -
  have o: "arr_ok (di_pipes d)" "di_matching d \<le> di_eligible d" "di_eligible d \<le> arr_size (di_pipes d)"
    "di_active d = di_eligible d" using ok by (auto simp: dist_ok_def)
  obtain i where i: "arr_index x (di_pipes d) = Some i" "i < arr_size (di_pipes d)" "dist_pipes d ! i = x"
    using arr_index_member [OF o(1) x] by blast
  note tk = in_take_index [OF o(1) i]
  have mem: "x \<in> matching_pipes d \<longleftrightarrow> i < di_matching d" "x \<in> eligible_pipes d \<longleftrightarrow> i < di_eligible d"
    using tk o(2,3) by (simp_all add: dist_sets)
  show ?thesis
  proof (cases "i < di_matching d \<or> di_eligible d \<le> i")
    case True
    thus ?thesis using i(1) mem ok(1) o(2) by (auto simp: dist_match_def)
  next
    case False
    then obtain ps where ps: "arr_swap i (di_matching d) (di_pipes d) = Some ps" "arr_ok ps" "arr_size ps = arr_size (di_pipes d)"
        "\<forall>k > i. set (take k (ar_items ps)) = set (take k (dist_pipes d))"
        "take (Suc (di_matching d)) (ar_items ps) = take (di_matching d) (dist_pipes d) @ [x]"
      using arr_swap_in [OF o(1) _ i(2), of "di_matching d"] i(3) by auto
    have "set (ar_items ps) = set (dist_pipes d)" using arr_swap_ok [OF o(1) ps(1)] by blast
    thus ?thesis using i(1) mem ok(1) o ps False by (auto simp: dist_match_def dist_ok_def dist_sets)
  qed
qed

lemma dist_attach_ok:
  assumes ok: "dist_ok d" and x: "x \<notin> set (dist_pipes d)"
  shows "\<exists>d'. dist_attach x d = Some d' \<and> dist_ok d' \<and> set (dist_pipes d') = insert x (set (dist_pipes d)) \<and>
    eligible_pipes d' = insert x (eligible_pipes d) \<and>
    di_active_pipes d' = (if di_more d then di_active_pipes d else insert x (di_active_pipes d)) \<and>
    matching_pipes d' = matching_pipes d"
proof -
  have o: "arr_ok (di_pipes d)" "di_matching d \<le> di_active d" "di_active d \<le> di_eligible d" "di_eligible d \<le> arr_size (di_pipes d)"
    "\<not> di_more d \<Longrightarrow> di_active d = di_eligible d" using ok by (auto simp: dist_ok_def)
  obtain b where b: "arr_swap (di_eligible d) (arr_size (arr_push_back x (di_pipes d)) - 1) (arr_push_back x (di_pipes d)) = Some b"
      "arr_ok b" "arr_size b = Suc (arr_size (di_pipes d))" "set (ar_items b) = insert x (set (dist_pipes d))"
      "\<forall>j \<le> di_eligible d. take j (ar_items b) = take j (dist_pipes d)"
      "take (Suc (di_eligible d)) (ar_items b) = take (di_eligible d) (dist_pipes d) @ [x]"
    using arr_attach [OF o(1) x o(4)] by blast
  show ?thesis
  proof (cases "di_more d")
    case True
    thus ?thesis using b o by (simp add: dist_attach_def dist_ok_def dist_sets)
  next
    case False
    thus ?thesis using b o by (simp add: dist_attach_def dist_ok_def dist_sets)
  qed
qed

lemma dist_activated_ok:
  assumes ok: "dist_ok d" and x: "x \<in> set (dist_pipes d)" "x \<notin> eligible_pipes d"
  shows "\<exists>d'. dist_activated x d = Some d' \<and> dist_ok d' \<and> set (dist_pipes d') = set (dist_pipes d) \<and>
    eligible_pipes d' = insert x (eligible_pipes d) \<and> matching_pipes d' = matching_pipes d \<and>
    di_active_pipes d' = (if di_more d then di_active_pipes d else insert x (di_active_pipes d))"
proof -
  let ?e = "di_eligible d"
  have o: "arr_ok (di_pipes d)" "di_matching d \<le> di_active d" "di_active d \<le> ?e" "?e \<le> arr_size (di_pipes d)"
    "\<not> di_more d \<Longrightarrow> di_active d = ?e" using ok by (auto simp: dist_ok_def)
  obtain i where i: "arr_index x (di_pipes d) = Some i" "i < arr_size (di_pipes d)" "dist_pipes d ! i = x"
    using arr_index_member [OF o(1) x(1)] by blast
  have ei: "?e \<le> i" using in_take_index [OF o(1) i o(4)] x(2) by (simp add: eligible_pipes_def)
  obtain ps where ps: "arr_swap i ?e (di_pipes d) = Some ps" "arr_ok ps" "arr_size ps = arr_size (di_pipes d)"
      "\<forall>j \<le> ?e. take j (ar_items ps) = take j (dist_pipes d)" "take (Suc ?e) (ar_items ps) = take ?e (dist_pipes d) @ [x]"
    using arr_swap_in [OF o(1) ei i(2)] i(3) by blast
  have st: "set (ar_items ps) = set (dist_pipes d)" using arr_swap_ok [OF o(1) ps(1)] by blast
  have lt: "?e < arr_size (di_pipes d)" using ei i(2) by simp
  show ?thesis
  proof (cases "di_more d")
    case True
    thus ?thesis using i(1) lt ps o st by (simp add: dist_activated_def dist_ok_def dist_sets)
  next
    case False
    have "arr_swap ?e ?e ps = Some ps" using ps(2,3) lt by (simp add: arr_swap_def arr_ok_def fun_upd_idem)
    thus ?thesis using False i(1) lt ps o st by (simp add: dist_activated_def dist_ok_def dist_sets)
  qed
qed

text \<open>
  C27. The bookkeeping of the distributor is right.  A new pipe and a pipe that becomes writable again get
  messages from the next message on, not in the middle of one; a terminated pipe is forgotten; matching
  adds exactly the given pipe if it is eligible, and the reversal of the match exchanges matching and
  non-matching eligible pipes; and the partition of the array is kept.
\<close>

theorem dist_operations:
  assumes ok: "dist_ok d"
  shows "(x \<notin> set (dist_pipes d) \<longrightarrow> (\<exists>d'. dist_attach x d = Some d' \<and> dist_ok d' \<and>
      eligible_pipes d' = insert x (eligible_pipes d) \<and>
      di_active_pipes d' = (if di_more d then di_active_pipes d else insert x (di_active_pipes d)))) \<and>
    (x \<in> set (dist_pipes d) \<and> x \<notin> eligible_pipes d \<longrightarrow> (\<exists>d'. dist_activated x d = Some d' \<and> dist_ok d' \<and>
      eligible_pipes d' = insert x (eligible_pipes d) \<and>
      di_active_pipes d' = (if di_more d then di_active_pipes d else insert x (di_active_pipes d)))) \<and>
    (x \<in> set (dist_pipes d) \<longrightarrow> (\<exists>d'. dist_pipe_terminated x d = Some d' \<and> dist_ok d' \<and>
      set (dist_pipes d') = set (dist_pipes d) - {x} \<and> matching_pipes d' = matching_pipes d - {x} \<and>
      di_active_pipes d' = di_active_pipes d - {x} \<and> eligible_pipes d' = eligible_pipes d - {x})) \<and>
    (\<not> di_more d \<and> x \<in> set (dist_pipes d) \<longrightarrow> (\<exists>d'. dist_match x d = Some d' \<and> dist_ok d' \<and>
      matching_pipes d' = (if x \<in> eligible_pipes d then insert x (matching_pipes d) else matching_pipes d))) \<and>
    (\<not> di_more d \<longrightarrow> (\<exists>d'. dist_reverse_match d = Some d' \<and> dist_ok d' \<and>
      matching_pipes d' = eligible_pipes d - matching_pipes d))"
proof (intro conjI impI, goal_cases)
  case 1
  thus ?case using dist_attach_ok [OF ok] by blast
next
  case 2
  thus ?case using dist_activated_ok [OF ok] by blast
next
  case 3
  thus ?case using dist_pipe_terminated_ok [OF ok] by blast
next
  case 4
  thus ?case using dist_match_ok [OF ok] by blast
next
  case 5
  thus ?case using dist_reverse_match_ok [OF ok] by blast
qed

lemma dist_new_ok: "dist_ok dist_new" "dist_pipes dist_new = []" "\<not> di_more dist_new" "eligible_pipes dist_new = {}"
  by (simp_all add: dist_ok_def dist_new_def dist_sets)

theorem dist_operations_witness:
  "dist_ok dist_new \<and> (\<exists>d. dist_attach 4 dist_new = Some d \<and> dist_ok d \<and> eligible_pipes d = {4})"
  using dist_operations [OF dist_new_ok(1), of 4] dist_new_ok by simp blast

theorem dist_delivers_witness:
  "\<exists>d w d' w'. matching_pipes d = {0} \<and> w 0 = Some ready_pipe \<and>
     send_to_matching empty_frame d w = Some (1, d', w') \<and> w' 0 = deliver empty_frame ready_pipe \<and> dist_ok d'"
proof -
  let ?d = "\<lparr>di_pipes = \<lparr>ar_items = [0], ar_index = int\<rparr>, di_matching = 1, di_active = 1, di_eligible = 1, di_more = False\<rparr>"
  let ?w = "[0 \<mapsto> ready_pipe] :: sock_pipes"
  have ok: "dist_ok ?d" by (simp add: dist_ok_def arr_ok_def arr_size_def)
  have wr: "writable 0 ?w"
    by (simp add: writable_def w_check_write_def ready_pipe_def pipe_check_write_def pipe_new_def check_hwm_def)
  have "\<exists>v. dist_write 0 empty_frame ?d ?w = Some (True, ?d, v)"
    by (simp add: dist_write_def w_write_def w_flush_def ready_pipe_def pipe_write_def pipe_check_write_def pipe_new_def
        check_hwm_def pipe_flush_def set_up_def f_more_def empty_frame_def data_frame_def has_flag_def)
  then obtain v where v: "dist_write 0 empty_frame ?d ?w = Some (True, ?d, v)" by blast
  have "dist_loop 1 0 empty_frame ?d v = Some (0, ?d, v)" by (subst dist_loop.simps) simp
  hence "dist_loop 0 0 empty_frame ?d ?w = Some (0, ?d, v)"
    using v by (subst dist_loop.simps) (simp add: arr_at_def arr_size_def)
  then obtain d' where s: "send_to_matching empty_frame ?d ?w = Some (1, d', v)"
    by (simp add: send_to_matching_def distribute_def)
  have m: "matching_pipes ?d = {0}" by (simp add: matching_pipes_def)
  show ?thesis using dist_delivers [OF ok s refl] m s
    by (intro exI [of _ ?d] exI [of _ ?w] exI [of _ d'] exI [of _ v]) simp
qed

end
