(* ===== verification/Trie.thy ===== *)
theory Trie
  imports Prelude "HOL-Library.Sublist"
begin

text \<open>
  The tries of subscriptions.  \<open>src/trie.cpp\<close> counts the subscriptions to each prefix, and
  \<open>src/mtrie.cpp\<close> keeps the set of subscribed pipes for each prefix; the code of the nodes is the
  same.  A node has a value, the least character with a child, the number of children, and a table of
  pointers whose length is \<open>count\<close>; the single pointer that is kept when \<open>count\<close> is one is a
  table of length one.  A failed assertion and the use of a null pointer give \<open>None\<close>.
\<close>

section \<open>Nodes\<close>

datatype 'v tnode = Tnode (nd_value: 'v) (nd_min: byte) (nd_live: nat) (nd_next: "'v tnode option list")

definition node_new :: "'v \<Rightarrow> 'v tnode" where
  "node_new v = Tnode v 0 0 []"

definition out_of_range :: "byte \<Rightarrow> byte \<Rightarrow> 'a list \<Rightarrow> bool" where
  "out_of_range c mn nx \<longleftrightarrow> unat c < unat mn \<or> unat mn + length nx \<le> unat c"

text \<open>Making room for a character: the first part of \<open>add\<close>.\<close>

definition extend_table :: "byte \<Rightarrow> byte \<Rightarrow> 'a option list \<Rightarrow> byte \<times> 'a option list" where
  "extend_table c mn nx =
     (if out_of_range c mn nx
      then (if length nx = 0 then (c, [None])
            else if length nx = 1
            then (let n = (if mn < c then unat c - unat mn else unat mn - unat c) + 1;
                      mn' = min mn c
                  in (mn', (replicate n None)[unat mn - unat mn' := nx ! 0]))
            else if mn < c then (mn, nx @ replicate (unat c - unat mn + 1 - length nx) None)
            else (c, replicate (unat mn - unat c) None @ nx))
      else (mn, nx))"

text \<open>
  \<open>add\<close> with the operation \<open>f\<close> on the value of the node of the prefix and the value \<open>v0\<close> of a
  new node; \<open>chk\<close> tells whether the numbers of children are asserted.
\<close>

fun node_add :: "('v \<Rightarrow> bool \<times> 'v) \<Rightarrow> 'v \<Rightarrow> bool \<Rightarrow> byte list \<Rightarrow> 'v tnode \<Rightarrow> (bool \<times> 'v tnode) option" where
  "node_add f v0 chk [] (Tnode v mn lv nx) = (case f v of (b, v') \<Rightarrow> Some (b, Tnode v' mn lv nx))"
| "node_add f v0 chk (c # cs) (Tnode v mn lv nx) =
     (case extend_table c mn nx of
        (mn', nx') \<Rightarrow>
          (let i = unat c - unat mn' in
           do {
             (t, lv') \<leftarrow> (case nx' ! i of
                           Some t \<Rightarrow> Some (t, lv)
                         | None \<Rightarrow>
                             do {
                               zmq_assert (chk \<longrightarrow> (if length nx' = 1 then lv + 1 = 1 else 1 < lv + 1));
                               Some (node_new v0, lv + 1)
                             });
             (b, t') \<leftarrow> node_add f v0 chk cs t;
             Some (b, Tnode v mn' lv' (nx'[i := Some t']))
           }))"

definition is_redundant :: "('v \<Rightarrow> bool) \<Rightarrow> 'v tnode \<Rightarrow> bool" where
  "is_redundant blank t \<longleftrightarrow> blank (nd_value t) \<and> nd_live t = 0"

text \<open>A \<open>for\<close> loop from \<open>i\<close> to \<open>n\<close> that stops where \<open>P\<close> holds.\<close>

function scan :: "(nat \<Rightarrow> bool) \<Rightarrow> nat \<Rightarrow> nat \<Rightarrow> nat option" where
  "scan P i n = (if i < n then (if P i then Some i else scan P (i + 1) n) else None)"
  by pat_completeness auto
termination
  by (relation "measure (\<lambda>(P, i, n). n - i)") auto

declare scan.simps [simp del]

text \<open>
  \<open>rm\<close> of a prefix: \<open>f\<close> is the operation on the value, \<open>blank\<close> the values of a redundant node, and
  \<open>compact\<close> the compaction of the table after the child for the character was removed.
\<close>

fun node_rm :: "('v \<Rightarrow> (bool \<times> 'v) option) \<Rightarrow> ('v \<Rightarrow> bool) \<Rightarrow>
    (byte \<Rightarrow> byte \<Rightarrow> nat \<Rightarrow> 'v tnode option list \<Rightarrow> (byte \<times> 'v tnode option list) option) \<Rightarrow>
    byte list \<Rightarrow> 'v tnode \<Rightarrow> (bool \<times> 'v tnode) option" where
  "node_rm f blank compact [] (Tnode v mn lv nx) = do { (b, v') \<leftarrow> f v; Some (b, Tnode v' mn lv nx) }"
| "node_rm f blank compact (c # cs) (Tnode v mn lv nx) =
     (if length nx = 0 \<or> out_of_range c mn nx then Some (False, Tnode v mn lv nx)
      else (let i = unat c - unat mn in
        case nx ! i of
          None \<Rightarrow> Some (False, Tnode v mn lv nx)
        | Some t \<Rightarrow>
            do {
              (b, t') \<leftarrow> node_rm f blank compact cs t;
              (if is_redundant blank t'
               then (if length nx = 1
                     then do { zmq_assert (lv = 1); Some (b, Tnode v mn 0 []) }
                     else do {
                       zmq_assert (1 < lv);
                       (mn', nx') \<leftarrow> compact c mn (lv - 1) (nx[i := None]);
                       Some (b, Tnode v mn' (lv - 1) nx')
                     })
               else Some (b, Tnode v mn lv (nx[i := Some t'])))
            }))"

section \<open>Counting tries\<close>

type_synonym trie = "u32 tnode"

definition trie_new :: trie where
  "trie_new = node_new 0"

definition trie_add :: "byte list \<Rightarrow> trie \<Rightarrow> (bool \<times> trie) option" where
  "trie_add = node_add (\<lambda>r. (r + 1 = 1, r + 1)) 0 True"

definition trie_compact :: "byte \<Rightarrow> byte \<Rightarrow> nat \<Rightarrow> 'a option list \<Rightarrow> (byte \<times> 'a option list) option" where
  "trie_compact c mn lv nx =
     (if lv = 1
      then (let (node, mn') =
                  (if c = mn then (nx ! (length nx - 1), mn + of_nat (length nx - 1))
                   else if unat c = unat mn + length nx - 1 then (nx ! 0, mn)
                   else (None, mn))
            in do { zmq_assert (node \<noteq> None); Some (mn', [node]) })
      else if c = mn
      then (let new_min = (case scan (\<lambda>i. nx ! i \<noteq> None) 1 (length nx) of Some i \<Rightarrow> of_nat i + mn | None \<Rightarrow> mn)
            in do {
              zmq_assert (new_min \<noteq> mn);
              zmq_assert (mn < new_min);
              zmq_assert (unat new_min - unat mn < length nx);
              Some (new_min, drop (unat new_min - unat mn) nx)
            })
      else if unat c = unat mn + length nx - 1
      then (let new_count = (case scan (\<lambda>i. nx ! (length nx - 1 - i) \<noteq> None) 1 (length nx) of
                               Some i \<Rightarrow> length nx - i | None \<Rightarrow> length nx)
            in do { zmq_assert (new_count \<noteq> length nx); Some (mn, take new_count nx) })
      else Some (mn, nx))"

definition trie_rm :: "byte list \<Rightarrow> trie \<Rightarrow> (bool \<times> trie) option" where
  "trie_rm = node_rm (\<lambda>r. Some (if r = 0 then (False, r) else (r - 1 = 0, r - 1))) (\<lambda>r. r = 0) trie_compact"

fun trie_check :: "byte list \<Rightarrow> trie \<Rightarrow> bool option" where
  "trie_check [] (Tnode r mn lv nx) = Some (r \<noteq> 0)"
| "trie_check (c # cs) (Tnode r mn lv nx) =
     (if r \<noteq> 0 then Some True
      else if out_of_range c mn nx then Some False
      else (case nx ! (unat c - unat mn) of
              None \<Rightarrow> if length nx = 1 then None else Some False
            | Some t \<Rightarrow> trie_check cs t))"

text \<open>The calls of the function that \<open>apply\<close> makes, in order.\<close>

function (sequential) apply_helper :: "byte list \<Rightarrow> trie \<Rightarrow> byte list list option"
  and apply_table :: "byte list \<Rightarrow> byte \<Rightarrow> nat \<Rightarrow> trie option list \<Rightarrow> byte list list option" where
  "apply_helper buff (Tnode r mn lv nx) =
     do {
       cs \<leftarrow> (case nx of
               [Some t] \<Rightarrow> apply_helper (buff @ [mn]) t
             | [None] \<Rightarrow> None
             | _ \<Rightarrow> apply_table buff mn 0 nx);
       Some ((if r \<noteq> 0 then [buff] else []) @ cs)
     }"
| "apply_table buff mn i [] = Some []"
| "apply_table buff mn i (None # nx) = apply_table buff mn (i + 1) nx"
| "apply_table buff mn i (Some t # nx) =
     do {
       ds \<leftarrow> apply_helper (buff @ [mn + of_nat i]) t;
       es \<leftarrow> apply_table buff mn (i + 1) nx;
       Some (ds @ es)
     }"
  by pat_completeness auto
termination
  by (relation "measure (\<lambda>x. case x of Inl (buff, t) \<Rightarrow> size t | Inr (buff, mn, i, nx) \<Rightarrow> size_list (size_option size) nx)")
    (auto)

definition trie_apply :: "trie \<Rightarrow> byte list list option" where
  "trie_apply t = apply_helper [] t"

section \<open>Tables\<close>

text \<open>The entry for character \<open>k\<close> in a table that begins at character \<open>m\<close>.\<close>

definition slot :: "nat \<Rightarrow> nat \<Rightarrow> 'a option list \<Rightarrow> 'a option" where
  "slot k m xs = (if m \<le> k \<and> k < m + length xs then xs ! (k - m) else None)"

abbreviation child :: "byte \<Rightarrow> byte \<Rightarrow> 'a option list \<Rightarrow> 'a option" where
  "child c mn nx \<equiv> slot (unat c) (unat mn) nx"

lemma out_of_range_Nil [simp]: "out_of_range c mn []"
  by (auto simp: out_of_range_def)

lemma slot_Nil [simp]: "slot k m [] = None"
  by (auto simp: slot_def)

lemma slot_nth: "\<not> out_of_range c mn nx \<Longrightarrow> child c mn nx = nx ! (unat c - unat mn)"
  by (auto simp: slot_def out_of_range_def)

lemma slot_None: "out_of_range c mn nx \<Longrightarrow> child c mn nx = None"
  by (auto simp: slot_def out_of_range_def)

lemma slot_append_None: "slot k m (xs @ replicate n None) = slot k m xs"
  by (auto simp: slot_def nth_append)

lemma slot_prepend_None: "slot k m (replicate n None @ xs) = slot k (m + n) xs"
  by (auto simp: slot_def nth_append)

lemma slot_drop: "list_all (\<lambda>x. x = None) (take i xs) \<Longrightarrow> i \<le> length xs \<Longrightarrow> slot k (m + i) (drop i xs) = slot k m xs"
  by (auto simp: slot_def list_all_length add.commute)

lemma slot_take:
  assumes "list_all (\<lambda>x. x = None) (drop i xs)"
  shows "slot k m (take i xs) = slot k m xs"
proof -
  have "xs ! j = None" if "i \<le> j" "j < length xs" for j
    using assms that by (auto simp: list_all_length dest!: spec [of _ "j - i"])
  thus ?thesis by (auto simp: slot_def)
qed

lemma slot_update: "i < length xs \<Longrightarrow> slot k m (xs[i := x]) = (if k = m + i then x else slot k m xs)"
  by (auto simp: slot_def nth_list_update)

lemma slot_single: "j < n \<Longrightarrow> slot k m ((replicate n None)[j := x]) = slot k (m + j) [x]"
  by (auto simp: slot_update) (auto simp: slot_def)

definition live :: "'a option list \<Rightarrow> nat" where
  "live nx = length (filter (\<lambda>x. x \<noteq> None) nx)"

text \<open>A table counts its children, stays in the range of characters, and begins and ends with a child.\<close>

definition table_ok :: "byte \<Rightarrow> nat \<Rightarrow> 'a option list \<Rightarrow> bool" where
  "table_ok mn lv nx \<longleftrightarrow> lv = live nx \<and> unat mn + length nx \<le> 256 \<and> (nx \<noteq> [] \<longrightarrow> hd nx \<noteq> None \<and> last nx \<noteq> None)"

fun node_ok :: "'v tnode \<Rightarrow> bool" where
  "node_ok (Tnode v mn lv nx) \<longleftrightarrow>
     table_ok mn lv nx \<and> (\<forall>x \<in> set nx. case x of None \<Rightarrow> True | Some t \<Rightarrow> node_ok t)"

lemma byte_add: "unat (mn :: byte) + k < 256 \<Longrightarrow> unat (mn + of_nat k) = unat mn + k"
  by (simp add: unat_word_ariths unat_of_nat)

lemma live_append [simp]: "live (xs @ ys) = live xs + live ys"
  by (simp add: live_def)

lemma live_replicate [simp]: "live (replicate n None) = 0"
  by (simp add: live_def)

lemma live_simps [simp]: "live [] = 0" "live (None # xs) = live xs" "live (Some x # xs) = Suc (live xs)"
  by (simp_all add: live_def)

lemma live_update:
  assumes "i < length xs"
  shows "live (xs[i := x]) + (if xs ! i = None then 0 else 1) = live xs + (if x = None then 0 else 1)"
proof -
  have xs: "xs = take i xs @ xs ! i # drop (Suc i) xs" using assms by (rule id_take_nth_drop)
  have "live xs = live (take i xs) + live [xs ! i] + live (drop (Suc i) xs)"
    by (subst xs) (cases "xs ! i"; simp)
  moreover have "live (xs[i := x]) = live (take i xs) + live [x] + live (drop (Suc i) xs)"
    using assms by (subst upd_conv_take_nth_drop) (cases x; simp)+
  ultimately show ?thesis by (cases x; cases "xs ! i") auto
qed

lemma live_pos: "x \<in> set xs \<Longrightarrow> x \<noteq> None \<Longrightarrow> 0 < live xs"
  by (auto simp: live_def filter_empty_conv length_greater_0_conv)

lemma live_zero: "live xs = 0 \<longleftrightarrow> (\<forall>x \<in> set xs. x = None)"
  by (auto simp: live_def filter_empty_conv)

lemma table_ok_zero: "table_ok mn 0 nx \<Longrightarrow> nx = []"
  using live_pos [of "hd nx" nx] by (cases nx) (auto simp: table_ok_def)

lemma live_single: "j < n \<Longrightarrow> live ((replicate n None)[j := x]) = live [x]"
  using live_update [of j "replicate n None" x] by (cases x) auto

lemma extend_table_ok:
  assumes e: "extend_table c mn nx = (mn', nx')" and ok: "unat mn + length nx \<le> 256"
  shows "(\<forall>d. child d mn' nx' = child d mn nx) \<and> \<not> out_of_range c mn' nx' \<and> unat mn' + length nx' \<le> 256 \<and>
    live nx' = live nx \<and> ((nx \<noteq> [] \<longrightarrow> hd nx \<noteq> None \<and> last nx \<noteq> None) \<longrightarrow>
      (hd nx' \<noteq> None \<or> c = mn') \<and> (last nx' \<noteq> None \<or> Suc (unat c) = unat mn' + length nx'))"
proof -
  have c: "unat c < 256" using unsigned_less [where 'a = nat, of c] by simp
  consider "\<not> out_of_range c mn nx" | "out_of_range c mn nx" "nx = []"
    | x where "out_of_range c mn nx" "nx = [x]"
    | "out_of_range c mn nx" "length nx > 1" "mn < c" | "out_of_range c mn nx" "length nx > 1" "\<not> mn < c"
    by (cases nx; cases "tl nx"; cases "out_of_range c mn nx"; cases "mn < c") auto
  thus ?thesis
  proof cases
    case 1
    thus ?thesis using e ok by (cases nx) (auto simp: extend_table_def out_of_range_def)
  next
    case 2
    thus ?thesis using e c by (auto simp: extend_table_def slot_def out_of_range_def)
  next
    case (3 x)
    define n where "n = (if mn < c then unat c - unat mn else unat mn - unat c) + 1"
    have r: "mn' = min mn c" "nx' = (replicate n None)[unat mn - unat mn' := x]"
      using e 3 by (auto simp: extend_table_def Let_def n_def)
    have m: "unat mn' + (unat mn - unat mn') = unat mn" "unat mn - unat mn' < n" "unat mn' \<le> unat c" "unat c < unat mn' + n"
        "unat mn' + n \<le> 256"
      using r(1) c ok 3 by (auto simp: n_def min_def word_less_nat_alt word_le_nat_alt)
    have e1: "x \<noteq> None \<Longrightarrow> hd nx' \<noteq> None \<or> c = mn'"
      using m(2) by (cases n) (auto simp: r min_def nth_list_update hd_conv_nth)
    have e2: "x \<noteq> None \<Longrightarrow> last nx' \<noteq> None \<or> Suc (unat c) = unat mn' + length nx'"
      using m(2) by (auto simp: r(2) last_list_update) (auto simp: r(1) n_def min_def word_less_nat_alt word_le_nat_alt split: if_splits)
    show ?thesis using slot_single [OF m(2), where m = "unat mn'" and x = x] live_single [OF m(2), of x] 3 r(2) m e1 e2
      by (auto simp: out_of_range_def)
  next
    case 4
    have r: "mn' = mn" "nx' = nx @ replicate (unat c - unat mn + 1 - length nx) None"
      using e 4 by (cases nx; auto simp: extend_table_def)+
    have "unat mn < unat c" "unat mn + length nx \<le> unat c" using 4 by (auto simp: out_of_range_def word_less_nat_alt)
    moreover have "nx \<noteq> []" using 4(2) by auto
    ultimately show ?thesis using c unfolding r by (auto simp: slot_append_None out_of_range_def)
  next
    case 5
    have r: "mn' = c" "nx' = replicate (unat mn - unat c) None @ nx"
      using e 5 by (cases nx; auto simp: extend_table_def)+
    have "unat c < unat mn" using 5 by (auto simp: out_of_range_def word_less_nat_alt)
    moreover have "nx \<noteq> []" using 5(2) by auto
    ultimately show ?thesis using ok 5(2) unfolding r by (auto simp: slot_prepend_None out_of_range_def)
  qed
qed

section \<open>Lookup\<close>

text \<open>The value stored for a prefix, \<open>v0\<close> where there is no node, and whether there is a node.\<close>

fun value_at :: "'v \<Rightarrow> byte list \<Rightarrow> 'v tnode \<Rightarrow> 'v" where
  "value_at v0 [] (Tnode v mn lv nx) = v"
| "value_at v0 (c # cs) (Tnode v mn lv nx) = (case child c mn nx of None \<Rightarrow> v0 | Some t \<Rightarrow> value_at v0 cs t)"

fun has_node :: "byte list \<Rightarrow> 'v tnode \<Rightarrow> bool" where
  "has_node [] t \<longleftrightarrow> True"
| "has_node (c # cs) (Tnode v mn lv nx) \<longleftrightarrow> (case child c mn nx of None \<Rightarrow> False | Some t \<Rightarrow> has_node cs t)"

lemma node_new_ok [simp]: "node_ok (node_new v0)" "value_at v0 k (node_new v0) = v0"
  by (simp add: node_new_def table_ok_def unat_word_ariths) (cases k; simp add: node_new_def slot_def)

lemma value_at_absent: "\<not> has_node k t \<Longrightarrow> value_at v0 k t = v0"
  by (induction v0 k t rule: value_at.induct) (auto split: option.splits)

lemma node_ok_child: "node_ok (Tnode v mn lv nx) \<Longrightarrow> child c mn nx = Some t \<Longrightarrow> node_ok t"
  by (auto simp: slot_def split: if_splits option.splits) (metis add_diff_inverse_nat add_less_cancel_left not_le nth_mem)

text \<open>Replacing the child for a character in a table that has room for it.\<close>

lemma replace_child:
  assumes r: "\<not> out_of_range c mn nx" and ok: "unat mn + length nx \<le> 256" "live nx = lv"
    and ends: "nx \<noteq> [] \<Longrightarrow> (hd nx \<noteq> None \<or> c = mn) \<and> (last nx \<noteq> None \<or> Suc (unat c) = unat mn + length nx)"
    and nx': "nx' = nx[unat c - unat mn := Some t]"
  shows "table_ok mn (if child c mn nx = None then lv + 1 else lv) nx'"
    and "child d mn nx' = (if d = c then Some t else child d mn nx)"
proof -
  let ?i = "unat c - unat mn"
  have i: "?i < length nx" "unat c = unat mn + ?i" "nx \<noteq> []" using r by (auto simp: out_of_range_def)
  show "child d mn nx' = (if d = c then Some t else child d mn nx)"
    unfolding nx' slot_update [OF i(1)] using i(2) by (auto simp: word_unat_eq_iff)
  have "live nx' = (if nx ! ?i = None then lv + 1 else lv)" using live_update [OF i(1), of "Some t"] ok(2) by (auto simp: nx')
  moreover have "hd nx' \<noteq> None"
  proof (cases ?i)
    case 0
    thus ?thesis using i(3) by (cases nx) (simp_all add: nx')
  next
    case (Suc n)
    hence "c \<noteq> mn" by auto
    thus ?thesis using Suc ends i(3) by (cases nx) (simp_all add: nx')
  qed
  moreover have "last nx' \<noteq> None"
    using ends i by (auto simp: nx' last_list_update)
  ultimately show "table_ok mn (if child c mn nx = None then lv + 1 else lv) nx'"
    using ok i(3) slot_nth [OF r] by (auto simp: table_ok_def nx')
qed

lemma slot_in_set: "slot k m xs = Some t \<Longrightarrow> Some t \<in> set xs"
  by (auto simp: slot_def split: if_splits) (metis add_diff_inverse_nat add_less_cancel_left not_le nth_mem)

lemma set_child:
  assumes "unat (mn :: byte) + length nx \<le> 256" "Some t \<in> set nx"
  shows "\<exists>d. child d mn nx = Some t"
proof -
  obtain j where j: "j < length nx" "nx ! j = Some t" using assms(2) by (auto simp: in_set_conv_nth)
  have "unat (mn + of_nat j) = unat mn + j" using assms(1) j(1) by (intro byte_add) simp
  thus ?thesis using j by (intro exI [of _ "mn + of_nat j"]) (simp add: slot_def)
qed

lemma node_ok_iff:
  "node_ok (Tnode v mn lv nx) \<longleftrightarrow> table_ok mn lv nx \<and> (\<forall>d t. child d mn nx = Some t \<longrightarrow> node_ok t)"
proof -
  have "(\<forall>x \<in> set nx. case x of None \<Rightarrow> True | Some t \<Rightarrow> node_ok t) \<longleftrightarrow> (\<forall>d t. child d mn nx = Some t \<longrightarrow> node_ok t)"
    if "unat mn + length nx \<le> 256"
    using set_child [OF that] slot_in_set by (fastforce split: option.splits)
  thus ?thesis by (auto simp: table_ok_def simp del: node_ok.simps) (auto simp: table_ok_def)
qed

declare node_ok.simps [simp del]

text \<open>A trie without redundant nodes: the nodes below the root lead to values.\<close>

definition tight :: "'v \<Rightarrow> 'v tnode \<Rightarrow> bool" where
  "tight v0 t \<longleftrightarrow> (\<forall>k. k \<noteq> [] \<and> has_node k t \<longrightarrow> (\<exists>k'. prefix k k' \<and> value_at v0 k' t \<noteq> v0))"

lemma tight_node:
  "tight v0 (Tnode v mn lv nx) \<longleftrightarrow>
     (\<forall>d t. child d mn nx = Some t \<longrightarrow> (\<exists>k. value_at v0 k t \<noteq> v0) \<and> tight v0 t)" (is "?l \<longleftrightarrow> ?r")
proof
  assume l: ?l
  have "\<exists>k'. prefix k k' \<and> value_at v0 k' t \<noteq> v0" if d: "child d mn nx = Some t" and k: "has_node k t" for d t k
  proof -
    have "has_node (d # k) (Tnode v mn lv nx)" using d k by simp
    then obtain k' where "prefix (d # k) k'" "value_at v0 k' (Tnode v mn lv nx) \<noteq> v0" using l by (auto simp: tight_def)
    thus ?thesis using d by (cases k') auto
  qed
  thus ?r by (auto simp: tight_def) (metis has_node.simps(1))
next
  assume r: ?r
  have "\<exists>k'. prefix (d # k) k' \<and> value_at v0 k' (Tnode v mn lv nx) \<noteq> v0" if dk: "has_node (d # k) (Tnode v mn lv nx)" for d k
  proof -
    obtain t where t: "child d mn nx = Some t" "has_node k t" using dk by (auto split: option.splits)
    have "(\<exists>k. value_at v0 k t \<noteq> v0) \<and> tight v0 t" using r t(1) by blast
    then obtain k' where "prefix k k'" "value_at v0 k' t \<noteq> v0" using t(2) by (cases "k = []") (auto simp: tight_def)
    thus ?thesis using t by (intro exI [of _ "d # k'"]) simp
  qed
  thus ?l by (auto simp: tight_def neq_Nil_conv)
qed

lemma tight_new [simp]: "tight v0 (node_new v)"
  by (simp add: node_new_def tight_node)

lemma node_add_ok:
  assumes "node_ok t"
  shows "\<exists>b t'. node_add f v0 chk k t = Some (b, t') \<and> node_ok t' \<and> b = fst (f (value_at v0 k t)) \<and>
    (\<forall>k'. value_at v0 k' t' = (if k' = k then snd (f (value_at v0 k t)) else value_at v0 k' t)) \<and>
    (tight v0 t \<and> (\<forall>v. snd (f v) \<noteq> v0) \<longrightarrow> tight v0 t')"
  using assms
proof (induction k arbitrary: t)
  case Nil
  obtain v mn lv nx where t: "t = Tnode v mn lv nx" by (cases t)
  obtain b v' where f: "f v = (b, v')" by fastforce
  have "\<forall>k'. value_at v0 k' (Tnode v' mn lv nx) = (if k' = [] then v' else value_at v0 k' t)"
    by (intro allI, case_tac k') (simp_all add: t)
  moreover have "node_ok (Tnode v' mn lv nx)" using Nil by (simp add: t node_ok_iff)
  moreover have "tight v0 t \<Longrightarrow> tight v0 (Tnode v' mn lv nx)" by (simp add: t tight_node)
  moreover have "node_add f v0 chk [] t = Some (b, Tnode v' mn lv nx)" "value_at v0 [] t = v" by (simp_all add: t f)
  ultimately show ?case using f by (metis fst_conv snd_conv)
next
  case (Cons c cs)
  obtain v mn lv nx where t: "t = Tnode v mn lv nx" by (cases t)
  have tok: "table_ok mn lv nx" and chk: "\<And>d u. child d mn nx = Some u \<Longrightarrow> node_ok u"
    using Cons.prems by (auto simp: t node_ok_iff)
  obtain mn' nx' where e: "extend_table c mn nx = (mn', nx')" by fastforce
  have x: "\<forall>d. child d mn' nx' = child d mn nx" "\<not> out_of_range c mn' nx'" "unat mn' + length nx' \<le> 256" "live nx' = lv"
      "(hd nx' \<noteq> None \<or> c = mn') \<and> (last nx' \<noteq> None \<or> Suc (unat c) = unat mn' + length nx')"
  proof -
    have "unat mn + length nx \<le> 256" and lv: "lv = live nx" and ends: "nx \<noteq> [] \<longrightarrow> hd nx \<noteq> None \<and> last nx \<noteq> None"
      using tok by (simp_all add: table_ok_def)
    note E = extend_table_ok [OF e this(1)]
    show "\<forall>d. child d mn' nx' = child d mn nx" "\<not> out_of_range c mn' nx'" "unat mn' + length nx' \<le> 256"
      using E by blast+
    show "live nx' = lv" using E lv by simp
    show "(hd nx' \<noteq> None \<or> c = mn') \<and> (last nx' \<noteq> None \<or> Suc (unat c) = unat mn' + length nx')"
      using E ends by blast
  qed
  let ?i = "unat c - unat mn'"
  define u where "u = (case child c mn nx of None \<Rightarrow> node_new v0 | Some u \<Rightarrow> u)"
  define lv' where "lv' = (if child c mn nx = None then lv + 1 else lv)"
  have at: "nx' ! ?i = child c mn nx" using slot_nth [OF x(2)] x(1) by simp
  have step: "(case nx' ! ?i of Some t \<Rightarrow> Some (t, lv)
      | None \<Rightarrow> do { zmq_assert (chk \<longrightarrow> (if length nx' = 1 then lv + 1 = 1 else 1 < lv + 1)); Some (node_new v0, lv + 1) }) = Some (u, lv')"
  proof (cases "child c mn nx")
    case None
    have "lv = 0" if one: "length nx' = 1"
    proof -
      have "?i = 0" using x(2) one by (simp add: out_of_range_def)
      thus ?thesis using None at x(4) one by (cases nx') auto
    qed
    moreover have "0 < lv" if "length nx' \<noteq> 1"
    proof -
      have "nx \<noteq> []" using that e by (auto simp: extend_table_def)
      thus ?thesis using tok live_pos [of "hd nx" nx] by (auto simp: table_ok_def)
    qed
    ultimately show ?thesis using None by (auto simp: at u_def lv'_def zmq_assert_def)
  qed (simp add: at u_def lv'_def)
  have uok: "node_ok u" using chk by (auto simp: u_def split: option.split)
  obtain b u' where u': "node_add f v0 chk cs u = Some (b, u')" "node_ok u'" "b = fst (f (value_at v0 cs u))"
      "\<And>k'. value_at v0 k' u' = (if k' = cs then snd (f (value_at v0 cs u)) else value_at v0 k' u)"
      "tight v0 u \<Longrightarrow> \<forall>v. snd (f v) \<noteq> v0 \<Longrightarrow> tight v0 u'"
    using Cons.IH [OF uok] by blast
  let ?nx = "nx'[?i := Some u']"
  note rc = replace_child [where t = u', OF x(2,3,4) x(5) refl]
  have run: "node_add f v0 chk (c # cs) t = Some (b, Tnode v mn' lv' ?nx)" using e step u'(1) by (simp add: t Let_def)
  have "node_ok (Tnode v mn' lv' ?nx)" using rc x(1) chk u'(2) by (auto simp: node_ok_iff lv'_def)
  moreover have val: "value_at v0 (d # ds) t = value_at v0 ds u" if "d = c" for d ds
    using that by (auto simp: t u_def split: option.split)
  moreover have "value_at v0 k' (Tnode v mn' lv' ?nx) =
      (if k' = c # cs then snd (f (value_at v0 (c # cs) t)) else value_at v0 k' t)" for k'
  proof (cases k')
    case Nil
    thus ?thesis by (simp add: t)
  next
    case (Cons d ds)
    show ?thesis
    proof (cases "d = c")
      case True
      thus ?thesis using Cons rc(2) u'(4) val by simp
    next
      case False
      thus ?thesis using Cons rc(2) x(1) by (simp add: t)
    qed
  qed
  moreover have "tight v0 (Tnode v mn' lv' ?nx)" if tt: "tight v0 t" and f: "\<forall>v. snd (f v) \<noteq> v0"
  proof -
    have "tight v0 u" using tt by (auto simp: u_def t tight_node split: option.split)
    hence "tight v0 u' \<and> value_at v0 cs u' \<noteq> v0" using u'(4,5) f by simp
    thus ?thesis using tt x(1) unfolding t tight_node rc(2) by auto
  qed
  ultimately show ?case using run u'(3) val by auto
qed

section \<open>Removal\<close>

lemma scan_Some: "scan P i n = Some j \<Longrightarrow> i \<le> j \<and> j < n \<and> P j \<and> (\<forall>m. i \<le> m \<and> m < j \<longrightarrow> \<not> P m)"
proof (induction P i n rule: scan.induct)
  case (1 P i n)
  show ?case
  proof (cases "i < n \<and> \<not> P i")
    case True
    hence "i + 1 \<le> j \<and> j < n \<and> P j \<and> (\<forall>m. i + 1 \<le> m \<and> m < j \<longrightarrow> \<not> P m)"
      using 1 by (simp add: scan.simps [of P i n])
    thus ?thesis using True by (metis Suc_eq_plus1 Suc_leI le_neq_implies_less le_trans le_add1)
  next
    case False
    thus ?thesis using 1(2) by (auto simp: scan.simps [of P i n] split: if_splits)
  qed
qed

lemma scan_None: "scan P i n = None \<Longrightarrow> i \<le> m \<Longrightarrow> m < n \<Longrightarrow> \<not> P m"
proof (induction P i n rule: scan.induct)
  case (1 P i n)
  thus ?case by (cases "m = i") (auto simp: scan.simps [of P i n] split: if_splits)
qed

text \<open>A table from which the child for \<open>c\<close> was removed.\<close>

definition pruned :: "byte \<Rightarrow> byte \<Rightarrow> nat \<Rightarrow> 'a option list \<Rightarrow> bool" where
  "pruned c mn lv nx \<longleftrightarrow>
     \<not> out_of_range c mn nx \<and> nx ! (unat c - unat mn) = None \<and> unat mn + length nx \<le> 256 \<and>
     lv = live nx \<and> 0 < lv \<and> 1 < length nx \<and> (c \<noteq> mn \<longrightarrow> hd nx \<noteq> None) \<and>
     (Suc (unat c) \<noteq> unat mn + length nx \<longrightarrow> last nx \<noteq> None)"

text \<open>The contract of a compaction: the children stay, and the table is well-formed again.\<close>

locale compaction =
  fixes compact :: "byte \<Rightarrow> byte \<Rightarrow> nat \<Rightarrow> 'v tnode option list \<Rightarrow> (byte \<times> 'v tnode option list) option"
  assumes compact_ok: "pruned c mn lv nx \<Longrightarrow> \<exists>mn' nx'. compact c mn lv nx = Some (mn', nx') \<and>
    table_ok mn' lv nx' \<and> (\<forall>d. child d mn' nx' = child d mn nx)"
begin

text \<open>Removing the redundant child for \<open>c\<close>.\<close>

lemma prune_child:
  assumes ok: "table_ok mn lv nx" and r: "\<not> out_of_range c mn nx" "nx ! (unat c - unat mn) \<noteq> None" and n: "length nx \<noteq> 1"
  shows "1 < lv \<and> (\<exists>mn' nx'. compact c mn (lv - 1) (nx[unat c - unat mn := None]) = Some (mn', nx') \<and>
    table_ok mn' (lv - 1) nx' \<and> (\<forall>d. child d mn' nx' = (if d = c then None else child d mn nx)))"
proof -
  let ?i = "unat c - unat mn" and ?nx = "nx[unat c - unat mn := None]"
  have i: "?i < length nx" "unat c = unat mn + ?i" using r(1) by (auto simp: out_of_range_def)
  have len: "1 < length nx" using i n by (cases "length nx") auto
  obtain x ys y where nx: "nx = x # ys @ [y]" using len by (cases nx; cases "tl nx" rule: rev_cases) auto
  hence lv: "1 < lv" using ok by (cases x; cases y) (auto simp: table_ok_def)
  have "live ?nx + 1 = lv" using live_update [OF i(1), of None] r(2) ok by (auto simp: table_ok_def)
  moreover have "c \<noteq> mn \<Longrightarrow> hd ?nx \<noteq> None"
  proof -
    assume "c \<noteq> mn"
    hence "?i \<noteq> 0" using i(2) by (auto simp: word_unat_eq_iff)
    thus ?thesis using ok by (cases ?i) (simp_all add: nx table_ok_def)
  qed
  moreover have "Suc (unat c) \<noteq> unat mn + length nx \<Longrightarrow> last ?nx \<noteq> None"
    using ok i len last_list_update [of nx ?i None] by (cases nx) (auto simp: table_ok_def)
  ultimately have "pruned c mn (lv - 1) ?nx"
    using r i len lv ok by (auto simp: pruned_def out_of_range_def table_ok_def)
  moreover have "child d mn ?nx = (if d = c then None else child d mn nx)" for d
    unfolding slot_update [OF i(1)] using i(2) by (auto simp: word_unat_eq_iff)
  ultimately show ?thesis using compact_ok [of c mn "lv - 1" ?nx] lv by auto
qed

end

lemma redundant_value:
  assumes "node_ok t" "is_redundant (\<lambda>v. v = v0) t"
  shows "value_at v0 k t = v0"
proof -
  obtain v mn lv nx where t: "t = Tnode v mn lv nx" by (cases t)
  hence "v = v0" "nx = []" using assms table_ok_zero [of mn nx] by (auto simp: is_redundant_def node_ok_iff)
  thus ?thesis by (cases k) (simp_all add: t)
qed

lemma live_value:
  assumes "node_ok t" "tight v0 t" "\<not> is_redundant (\<lambda>v. v = v0) t"
  shows "\<exists>k. value_at v0 k t \<noteq> v0"
proof -
  obtain v mn lv nx where t: "t = Tnode v mn lv nx" by (cases t)
  show ?thesis
  proof (cases "v = v0")
    case True
    hence "nx \<noteq> []" using assms(1,3) by (auto simp: t is_redundant_def node_ok_iff table_ok_def)
    moreover have ok: "unat mn + length nx \<le> 256" "nx \<noteq> [] \<Longrightarrow> hd nx \<noteq> None" using assms(1) by (auto simp: t node_ok_iff table_ok_def)
    ultimately obtain y where "Some y \<in> set nx" by (cases nx) auto
    then obtain d u where u: "child d mn nx = Some u" using set_child [OF ok(1)] by blast
    then obtain k where "value_at v0 k u \<noteq> v0" using assms(2) by (auto simp: t tight_node)
    thus ?thesis using u by (intro exI [of _ "d # k"]) (simp add: t)
  next
    case False
    thus ?thesis by (intro exI [of _ "[]"]) (simp add: t)
  qed
qed

context compaction
begin

lemma node_rm_ok:
  assumes "node_ok t" "blank = (\<lambda>v. v = v0)"
  shows "(if has_node k t then f (value_at v0 k t) else Some (False, v0)) = Some (b, v') \<Longrightarrow>
      \<exists>t'. node_rm f blank compact k t = Some (b, t') \<and> node_ok t' \<and>
        (\<forall>k'. value_at v0 k' t' = (if k' = k then v' else value_at v0 k' t)) \<and> (tight v0 t \<longrightarrow> tight v0 t')"
    and "has_node k t \<Longrightarrow> f (value_at v0 k t) = None \<Longrightarrow> node_rm f blank compact k t = None"
  using assms(1)
proof (induction k arbitrary: t)
  case Nil
  { case 1
    obtain v mn lv nx where t: "t = Tnode v mn lv nx" by (cases t)
    have "\<forall>k'. value_at v0 k' (Tnode v' mn lv nx) = (if k' = [] then v' else value_at v0 k' t)"
      by (intro allI, case_tac k') (simp_all add: t)
    moreover have "node_ok (Tnode v' mn lv nx)" using 1(2) by (simp add: t node_ok_iff)
    moreover have "tight v0 t \<Longrightarrow> tight v0 (Tnode v' mn lv nx)" by (simp add: t tight_node)
    ultimately show ?case using 1 by (simp add: t) }
  { case 2 thus ?case by (cases t) simp }
next
  case (Cons c cs)
  { case 1
  obtain v mn lv nx where t: "t = Tnode v mn lv nx" by (cases t)
  let ?i = "unat c - unat mn"
  have here: "child c mn nx = (if out_of_range c mn nx then None else nx ! ?i)"
    using slot_nth [of c mn nx] slot_None [of c mn nx] by simp
    show ?case
    proof (cases "child c mn nx")
      case None
      hence "value_at v0 (c # cs) t = v0" "b = False" "v' = v0" using 1(1) by (auto simp: t)
      thus ?thesis using 1(2) None here by (auto simp: t Let_def split: if_splits)
    next
      case (Some u)
    have u: "child c mn nx = Some u" "(if has_node cs u then f (value_at v0 cs u) else Some (False, v0)) = Some (b, v')"
      using 1(1) Some by (auto simp: t split: if_splits)
    have tok: "table_ok mn lv nx" and chd: "\<And>d u. child d mn nx = Some u \<Longrightarrow> node_ok u"
      using 1(2) by (auto simp: t node_ok_iff)
    have r: "\<not> out_of_range c mn nx" "nx ! ?i = Some u" "nx \<noteq> []" using u(1) here by (auto split: if_splits)
    obtain u' where u': "node_rm f blank compact cs u = Some (b, u')" "node_ok u'"
        "\<And>k'. value_at v0 k' u' = (if k' = cs then v' else value_at v0 k' u)" "tight v0 u \<Longrightarrow> tight v0 u'"
      using Cons.IH(1) [OF u(2) chd [OF u(1)]] by blast
    have fin: ?thesis if run: "node_rm f blank compact (c # cs) t = Some (b, Tnode v mn' lv' nx')" and tk: "table_ok mn' lv' nx'"
      and ch: "\<And>d. child d mn' nx' = (if d = c then (if is_redundant blank u' then None else Some u') else child d mn nx)"
      for mn' lv' nx'
    proof -
      have "node_ok (Tnode v mn' lv' nx')" using tk ch chd u'(2) by (auto simp: node_ok_iff split: if_splits)
      moreover have "value_at v0 k' (Tnode v mn' lv' nx') = (if k' = c # cs then v' else value_at v0 k' t)" for k'
      proof (cases k')
        case Nil
        thus ?thesis by (simp add: t)
      next
        case (Cons d ds)
        show ?thesis
        proof (cases "d = c")
          case True
          have "(case child c mn' nx' of None \<Rightarrow> v0 | Some t \<Rightarrow> value_at v0 ds t) = value_at v0 ds u'"
            using ch redundant_value [OF u'(2), of v0] assms(2) by auto
          thus ?thesis using True Cons u'(3) u(1) by (simp add: t)
        next
          case False
          thus ?thesis using Cons ch by (simp add: t)
        qed
      qed
      moreover have "tight v0 (Tnode v mn' lv' nx')" if "tight v0 t"
        using that ch u(1) u'(4) live_value [OF u'(2)] assms(2) unfolding t tight_node by (auto split: if_splits)
      ultimately show ?thesis using run by blast
    qed
    show ?thesis
    proof (cases "is_redundant blank u'")
      case False
      have "table_ok mn lv (nx[?i := Some u'])" "\<And>d. child d mn (nx[?i := Some u']) = (if d = c then Some u' else child d mn nx)"
        using replace_child [where t = u', OF r(1) _ _ _ refl] tok u(1) by (auto simp: table_ok_def)
      thus ?thesis using False u'(1) r by (intro fin [of mn lv "nx[?i := Some u']"]) (auto simp: t Let_def)
    next
      case True
      show ?thesis
      proof (cases "length nx = 1")
        case one: True
        then obtain y where y: "nx = [y]" by (cases nx) auto
        hence y': "y = Some u" "unat c = unat mn" using r by (auto simp: out_of_range_def)
        hence "lv = 1" using tok y by (simp add: table_ok_def)
        moreover have "child d mn nx = None" if "d \<noteq> c" for d
          using that y' by (auto simp: y slot_def word_unat_eq_iff)
        moreover have "table_ok mn 0 []" using tok by (simp add: table_ok_def)
        ultimately show ?thesis using True one u'(1) r by (intro fin [of mn 0 "[]"]) (auto simp: t Let_def zmq_assert_def)
      next
        case False
        have "nx ! ?i \<noteq> None" using r(2) by simp
        then obtain mn' nx' where p: "1 < lv" "compact c mn (lv - 1) (nx[?i := None]) = Some (mn', nx')" "table_ok mn' (lv - 1) nx'"
            "\<And>d. child d mn' nx' = (if d = c then None else child d mn nx)"
          using prune_child [OF tok r(1) _ False] by blast
        thus ?thesis using True False u'(1) r by (intro fin [of mn' "lv - 1" nx']) (auto simp: t Let_def zmq_assert_def)
      qed
    qed
    qed }
  { case 2
  obtain v mn lv nx where t: "t = Tnode v mn lv nx" by (cases t)
  let ?i = "unat c - unat mn"
  have here: "child c mn nx = (if out_of_range c mn nx then None else nx ! ?i)"
    using slot_nth [of c mn nx] slot_None [of c mn nx] by simp
    from 2 obtain u where u: "child c mn nx = Some u" "has_node cs u" "f (value_at v0 cs u) = None" "node_ok u"
      using node_ok_iff [of v mn lv nx] by (auto simp: t split: option.splits)
    have r: "\<not> out_of_range c mn nx" "nx ! ?i = Some u" "nx \<noteq> []" using u(1) here by (auto split: if_splits)
    show ?case using Cons.IH(2) [OF u(2,3,4)] r by (simp add: t Let_def) }
qed

end

subsection \<open>Compaction\<close>

lemma live_take_drop: "live xs = live (take i xs) + live (drop i xs)"
  by (metis append_take_drop_id live_append)

lemma all_None: "live xs = 0 \<Longrightarrow> list_all (\<lambda>x. x = None) xs"
  by (simp add: live_zero list_all_iff)

text \<open>Cutting off the empty front part of a table, and the empty rear part.\<close>

lemma drop_table:
  assumes "unat mn + length nx \<le> 256" "i < length nx" "live (take i nx) = 0" "nx ! i \<noteq> None" "last nx \<noteq> None"
    and "unat mn' = unat mn + i"
  shows "table_ok mn' (live nx) (drop i nx) \<and> (\<forall>d. child d mn' (drop i nx) = child d mn nx)"
  using assms live_take_drop [of nx i] slot_drop [OF all_None [OF assms(3)]]
  by (auto simp: table_ok_def hd_drop_conv_nth)

lemma take_table:
  assumes "unat mn + length nx \<le> 256" "i < length nx" "live (drop (Suc i) nx) = 0" "nx ! i \<noteq> None" "hd nx \<noteq> None"
  shows "table_ok mn (live nx) (take (Suc i) nx) \<and> (\<forall>d. child d mn (take (Suc i) nx) = child d mn nx)"
proof -
  have "last (take (Suc i) nx) = nx ! i" using assms(2) by (simp add: take_Suc_conv_app_nth)
  moreover have "hd (take (Suc i) nx) = hd nx" by simp
  ultimately show ?thesis
    using assms live_take_drop [of nx "Suc i"] slot_take [OF all_None [OF assms(3)]] by (simp add: table_ok_def)
qed

lemma prunedD:
  assumes "pruned c mn lv nx"
  shows "unat mn + length nx \<le> 256" "lv = live nx" "1 < length nx" "c \<noteq> mn \<Longrightarrow> hd nx \<noteq> None"
    and "Suc (unat c) \<noteq> unat mn + length nx \<Longrightarrow> last nx \<noteq> None" "0 < lv"
    and "c = mn \<Longrightarrow> nx ! 0 = None" "Suc (unat c) = unat mn + length nx \<Longrightarrow> nx ! (length nx - 1) = None"
proof -
  have *: "nx ! (unat c - unat mn) = None" using assms by (simp add: pruned_def)
  show "nx ! 0 = None" if "c = mn" using * that by simp
  show "nx ! (length nx - 1) = None" if "Suc (unat c) = unat mn + length nx"
  proof -
    have "unat c - unat mn = length nx - 1" using that by linarith
    thus ?thesis using * by simp
  qed
qed (use assms in \<open>simp_all add: pruned_def\<close>)

lemma ends_live:
  assumes "1 < length nx" "hd nx \<noteq> None" "last nx \<noteq> None"
  shows "1 < live nx"
proof -
  obtain x ys y where "nx = x # ys @ [y]" using assms(1) by (cases nx; cases "tl nx" rule: rev_cases) auto
  thus ?thesis using assms by (cases x; cases y) auto
qed

text \<open>The first child from the left, and from the right.\<close>

lemma scan_left:
  assumes "1 < length nx" "nx ! 0 = None" "last nx \<noteq> None"
  shows "\<exists>i. scan (\<lambda>i. nx ! i \<noteq> None) 1 (length nx) = Some i \<and> 0 < i \<and> i < length nx \<and> nx ! i \<noteq> None \<and> live (take i nx) = 0"
proof -
  have "nx \<noteq> []" using assms(1) by auto
  hence "nx ! (length nx - 1) \<noteq> None" "1 \<le> length nx - 1" "length nx - 1 < length nx"
    using assms(1,3) last_conv_nth [of nx] by simp_all
  hence "scan (\<lambda>i. nx ! i \<noteq> None) 1 (length nx) \<noteq> None" 
    using scan_None [of "\<lambda>i. nx ! i \<noteq> None" 1 "length nx" "length nx - 1"] by blast
  then obtain i where i: "scan (\<lambda>i. nx ! i \<noteq> None) 1 (length nx) = Some i" by blast
  note I = scan_Some [OF i]
  have "nx ! j = None" if "j < i" for j using I that assms(2) by (cases j) auto
  hence "live (take i nx) = 0" by (auto simp: live_zero in_set_conv_nth)
  thus ?thesis using i I by (intro exI [of _ i]) simp
qed

lemma scan_right:
  assumes "1 < length nx" "nx ! (length nx - 1) = None" "hd nx \<noteq> None"
  shows "\<exists>i. scan (\<lambda>i. nx ! (length nx - 1 - i) \<noteq> None) 1 (length nx) = Some i \<and> 0 < i \<and> i < length nx \<and>
    nx ! (length nx - 1 - i) \<noteq> None \<and> live (drop (length nx - i) nx) = 0"
proof -
  let ?P = "\<lambda>i. nx ! (length nx - 1 - i) \<noteq> None"
  have "nx \<noteq> []" using assms(1) by auto
  hence "?P (length nx - 1)" "1 \<le> length nx - 1" "length nx - 1 < length nx"
    using assms(1,3) hd_conv_nth [of nx] by simp_all
  hence "scan ?P 1 (length nx) \<noteq> None" 
    using scan_None [of ?P 1 "length nx" "length nx - 1"] by blast
  then obtain i where i: "scan ?P 1 (length nx) = Some i" by blast
  note I = scan_Some [OF i]
  have "nx ! j = None" if "length nx - i \<le> j" "j < length nx" for j
  proof (cases "j = length nx - 1")
    case True
    thus ?thesis using assms(2) by simp
  next
    case False
    hence "1 \<le> length nx - 1 - j \<and> length nx - 1 - j < i" "length nx - 1 - (length nx - 1 - j) = j" using that I by auto
    thus ?thesis using I by metis
  qed
  hence "live (drop (length nx - i) nx) = 0" by (auto simp: live_zero in_set_conv_nth)
  thus ?thesis using i I by (intro exI [of _ i]) simp
qed

lemma trie_compact_ok:
  assumes p: "pruned c mn lv nx"
  shows "\<exists>mn' nx'. trie_compact c mn lv nx = Some (mn', nx') \<and> table_ok mn' lv nx' \<and> (\<forall>d. child d mn' nx' = child d mn nx)"
proof -
  note D = prunedD [OF p]
  let ?n = "length nx"
  have ne: "nx \<noteq> []" using D(3) by auto
  have lst: "last nx = nx ! (?n - 1)" and hdn: "hd nx = nx ! 0" using ne by (simp_all add: last_conv_nth hd_conv_nth)
  consider (l1) "c = mn" "lv = 1" | (r1) "c \<noteq> mn" "Suc (unat c) = unat mn + ?n" "lv = 1"
    | (l) "c = mn" "lv \<noteq> 1" | (r) "c \<noteq> mn" "Suc (unat c) = unat mn + ?n" "lv \<noteq> 1"
    | (m) "c \<noteq> mn" "Suc (unat c) \<noteq> unat mn + ?n" by blast
  thus ?thesis
  proof cases
    case l1
    have ls: "last nx \<noteq> None" using D(3,5) l1(1) by auto
    have drop: "drop (?n - 1) nx = [nx ! (?n - 1)]" using D(3) by (cases nx rule: rev_cases) auto
    have "live (take (?n - 1) nx) = 0" using live_take_drop [of nx "?n - 1"] D(2) l1(2) ls D(3) unfolding drop
      by (cases "nx ! (?n - 1)") (auto simp: lst)
    moreover have m: "unat (mn + of_nat (?n - 1)) = unat mn + (?n - 1)" using D(1,3) by (intro byte_add) simp
    ultimately have "table_ok (mn + of_nat (?n - 1)) (live nx) (drop (?n - 1) nx) \<and>
        (\<forall>d. child d (mn + of_nat (?n - 1)) (drop (?n - 1) nx) = child d mn nx)"
      using D(1) ls ne by (intro drop_table) (auto simp: lst)
    moreover have "trie_compact c mn lv nx = Some (mn + of_nat (?n - 1), [nx ! (?n - 1)])"
      using l1 ls by (auto simp: trie_compact_def Let_def zmq_assert_def lst)
    ultimately show ?thesis using D(2) unfolding drop by blast
  next
    case r1
    have hd: "hd nx \<noteq> None" using D(4) r1(1) by auto
    have take: "take (Suc 0) nx = [nx ! 0]" using D(3) by (cases nx) auto
    have "live (drop (Suc 0) nx) = 0" using live_take_drop [of nx "Suc 0"] D(2,3) r1(3) hd unfolding take
      by (cases "nx ! 0") (auto simp: hdn)
    hence "table_ok mn (live nx) (take (Suc 0) nx) \<and> (\<forall>d. child d mn (take (Suc 0) nx) = child d mn nx)"
      using D(1) hd ne by (intro take_table) (auto simp: hdn)
    moreover have "trie_compact c mn lv nx = Some (mn, [nx ! 0])"
      using r1 hd by (auto simp: trie_compact_def Let_def zmq_assert_def hdn)
    ultimately show ?thesis using D(2) unfolding take by blast
  next
    case l
    have ls: "last nx \<noteq> None" using D(3,5) l(1) by auto
    obtain i where i: "scan (\<lambda>i. nx ! i \<noteq> None) 1 ?n = Some i" "0 < i" "i < ?n" "nx ! i \<noteq> None" "live (take i nx) = 0"
      using scan_left [OF D(3) D(7) [OF l(1)] ls] by blast
    have m: "unat (mn + of_nat i) = unat mn + i" using D(1) i(3) by (intro byte_add) simp
    have "trie_compact c mn lv nx = Some (mn + of_nat i, drop i nx)"
      using l i m by (auto simp: trie_compact_def Let_def zmq_assert_def word_less_nat_alt word_unat_eq_iff add.commute)
    thus ?thesis using drop_table [OF D(1) i(3,5,4) ls m] D(2) by auto
  next
    case r
    have hd: "hd nx \<noteq> None" using D(4) r(1) by auto
    obtain i where i: "scan (\<lambda>i. nx ! (?n - 1 - i) \<noteq> None) 1 ?n = Some i" "0 < i" "i < ?n" "nx ! (?n - 1 - i) \<noteq> None"
        "live (drop (?n - i) nx) = 0"
      using scan_right [OF D(3) D(8) [OF r(2)] hd] by blast
    have s: "Suc (?n - 1 - i) = ?n - i" using i(3) by simp
    have "trie_compact c mn lv nx = Some (mn, take (?n - i) nx)"
      using r i by (auto simp: trie_compact_def Let_def zmq_assert_def)
    thus ?thesis using take_table [OF D(1), of "?n - 1 - i"] i hd D(2) unfolding s by auto
  next
    case m
    have "hd nx \<noteq> None" "last nx \<noteq> None" using D(4,5) m by auto
    hence "1 < lv" "table_ok mn lv nx" using ends_live [OF D(3)] D(1,2) by (auto simp: table_ok_def)
    thus ?thesis using m D(3) by (auto simp: trie_compact_def)
  qed
qed

interpretation trie_compaction: compaction trie_compact
  by unfold_locales (rule trie_compact_ok)

section \<open>Counting tries as counted sets of prefixes\<close>

abbreviation trie_count :: "byte list \<Rightarrow> trie \<Rightarrow> u32" where
  "trie_count k t \<equiv> value_at 0 k t"

lemma trie_add_ok:
  assumes "node_ok t"
  shows "\<exists>t'. trie_add k t = Some (trie_count k t + 1 = 1, t') \<and> node_ok t' \<and>
    (\<lambda>k'. trie_count k' t') = (\<lambda>k'. trie_count k' t)(k := trie_count k t + 1)"
  using node_add_ok [OF assms, of "\<lambda>r. (r + 1 = 1, r + 1)" 0 True k] by (auto simp: trie_add_def fun_eq_iff)

lemma trie_rm_ok:
  assumes "node_ok t"
  shows "\<exists>t'. trie_rm k t = Some (trie_count k t = 1, t') \<and> node_ok t' \<and>
    (\<lambda>k'. trie_count k' t') = (\<lambda>k'. trie_count k' t)(k := if trie_count k t = 0 then 0 else trie_count k t - 1)"
proof -
  let ?f = "\<lambda>r :: u32. Some (if r = 0 then (False, r) else (r - 1 = 0, r - 1))"
  have one: "r - 1 = 0 \<longleftrightarrow> r = 1" for r :: u32 by (metis diff_add_cancel add_0 diff_self)
  have run: "(if has_node k t then ?f (trie_count k t) else Some (False, 0)) =
      Some (trie_count k t = 1, if trie_count k t = 0 then 0 else trie_count k t - 1)"
    using value_at_absent [of k t 0] one by auto
  show ?thesis using trie_compaction.node_rm_ok(1) [where f = ?f, OF assms refl run] unfolding trie_rm_def by (auto simp: fun_eq_iff)
qed

lemma trie_check_ok:
  "node_ok t \<Longrightarrow> trie_check ds t = Some (\<exists>k. prefix k ds \<and> trie_count k t \<noteq> 0)"
proof (induction ds t rule: trie_check.induct)
  case (1 r mn lv nx)
  thus ?case by simp
next
  case (2 c cs r mn lv nx)
  have split: "(\<exists>k. prefix k (c # cs) \<and> trie_count k (Tnode r mn lv nx) \<noteq> 0) \<longleftrightarrow>
      r \<noteq> 0 \<or> (\<exists>k t. child c mn nx = Some t \<and> prefix k cs \<and> trie_count k t \<noteq> 0)"
    by (auto simp: prefix_Cons split: option.splits)
  show ?case
  proof (cases "r \<noteq> 0 \<or> out_of_range c mn nx")
    case True
    thus ?thesis using split slot_None [of c mn nx] by auto
  next
    case False
    hence r: "r = 0" "\<not> out_of_range c mn nx" by simp_all
    have at: "child c mn nx = nx ! (unat c - unat mn)" using slot_nth [OF r(2)] .
    show ?thesis
    proof (cases "nx ! (unat c - unat mn)")
      case None
      have "length nx \<noteq> 1"
      proof
        assume "length nx = 1"
        then obtain x where "nx = [x]" by (cases nx) auto
        moreover from this have "unat c - unat mn = 0" using r(2) by (simp add: out_of_range_def)
        ultimately show False using None 2(2) by (simp add: node_ok_iff table_ok_def)
      qed
      thus ?thesis using None r split at by auto
    next
      case (Some t)
      hence "node_ok t" using 2(2) at by (auto simp: node_ok_iff)
      thus ?thesis using 2(1) [OF _ r(2) Some] Some r split at by auto
    qed
  qed
qed

subsection \<open>Listing the subscriptions\<close>

text \<open>
  The keys below a node, and below the entries of a table that begins at character \<open>m\<close>, whose values
  satisfy \<open>Q\<close>.
\<close>

definition table_keys :: "'v \<Rightarrow> ('v \<Rightarrow> bool) \<Rightarrow> byte list \<Rightarrow> nat \<Rightarrow> 'v tnode option list \<Rightarrow> byte list set" where
  "table_keys v0 Q buff m nx = {buff @ c # k |c k t. slot (unat c) m nx = Some t \<and> Q (value_at v0 k t)}"

definition node_keys :: "'v \<Rightarrow> ('v \<Rightarrow> bool) \<Rightarrow> byte list \<Rightarrow> 'v tnode \<Rightarrow> byte list set" where
  "node_keys v0 Q buff t = {buff @ k |k. Q (value_at v0 k t)}"

lemma node_keys_split:
  assumes "\<not> Q v0"
  shows "node_keys v0 Q buff (Tnode v mn lv nx) = (if Q v then {buff} else {}) \<union> table_keys v0 Q buff (unat mn) nx"
proof -
  have "Q (value_at v0 k (Tnode v mn lv nx)) \<longleftrightarrow>
      (k = [] \<and> Q v) \<or> (\<exists>c k' t. k = c # k' \<and> child c mn nx = Some t \<and> Q (value_at v0 k' t))" for k
    using assms by (cases k) (auto split: option.splits)
  thus ?thesis by (auto simp: node_keys_def table_keys_def)
qed

lemma table_keys_here: "buff \<notin> table_keys v0 Q buff m nx"
  by (auto simp: table_keys_def)

lemma table_keys_Nil: "table_keys v0 Q buff m [] = {}"
  by (simp add: table_keys_def)

lemma table_keys_None: "table_keys v0 Q buff m (None # nx) = table_keys v0 Q buff (Suc m) nx"
proof -
  have "slot k m (None # nx) = slot k (Suc m) nx" for k using slot_prepend_None [of k m 1 nx] by simp
  thus ?thesis by (simp add: table_keys_def)
qed

lemma slot_Cons: "slot k m (x # nx) = (if k = m then x else slot k (Suc m) nx)"
  by (auto simp: slot_def nth_Cons')

lemma table_keys_Some:
  assumes "unat c = m"
  shows "table_keys v0 Q buff m (Some t # nx) = node_keys v0 Q (buff @ [c]) t \<union> table_keys v0 Q buff (Suc m) nx"
  and "node_keys v0 Q (buff @ [c]) t \<inter> table_keys v0 Q buff (Suc m) nx = {}"
proof -
  have eq: "unat d = m \<longleftrightarrow> d = c" for d using assms by (auto simp: word_unat_eq_iff)
  have no: "slot (unat c) (Suc m) nx = None" using assms by (simp add: slot_def)
  have at: "slot (unat d) m (Some t # nx) = Some u \<longleftrightarrow> (d = c \<and> u = t) \<or> slot (unat d) (Suc m) nx = Some u" for d u
    using no eq by (auto simp: slot_Cons)
  show "table_keys v0 Q buff m (Some t # nx) = node_keys v0 Q (buff @ [c]) t \<union> table_keys v0 Q buff (Suc m) nx"
    unfolding table_keys_def node_keys_def at by auto
  show "node_keys v0 Q (buff @ [c]) t \<inter> table_keys v0 Q buff (Suc m) nx = {}"
    using no assms by (auto simp: table_keys_def node_keys_def)
qed

abbreviation subscribed :: "u32 \<Rightarrow> bool" where
  "subscribed r \<equiv> r \<noteq> 0"

lemma apply_ok:
  "node_ok t \<Longrightarrow> \<exists>ks. apply_helper buff t = Some ks \<and> set ks = node_keys 0 subscribed buff t \<and> distinct ks"
  "(\<forall>t. Some t \<in> set nx \<longrightarrow> node_ok t) \<Longrightarrow> unat mn + i + length nx \<le> 256 \<Longrightarrow>
     \<exists>ks. apply_table buff mn i nx = Some ks \<and> set ks = table_keys 0 subscribed buff (unat mn + i) nx \<and> distinct ks"
proof (induction buff t and buff mn i nx rule: apply_helper_apply_table.induct)
  case (1 buff r mn lv nx)
  have ok: "unat mn + 0 + length nx \<le> 256" "nx \<noteq> [None]" "\<forall>t. Some t \<in> set nx \<longrightarrow> node_ok t"
    using 1(5) by (force simp: node_ok.simps table_ok_def)+
  have "\<exists>ks. (case nx of [Some t] \<Rightarrow> apply_helper (buff @ [mn]) t | [None] \<Rightarrow> None | _ \<Rightarrow> apply_table buff mn 0 nx) = Some ks \<and>
      set ks = table_keys 0 subscribed buff (unat mn) nx \<and> distinct ks"
  proof (cases nx)
    case Nil
    thus ?thesis by (simp add: table_keys_Nil)
  next
    case (Cons x ys)
    show ?thesis
    proof (cases ys)
      case Nil
      then obtain t where x: "x = Some t" using ok(2) Cons by (cases x) auto
      thus ?thesis using 1(3) [OF Cons x Nil] ok(3) Cons Nil table_keys_Some(1) [OF refl, of 0 subscribed buff mn t "[]"] by (simp add: table_keys_Nil)
    next
      case (Cons y zs)
      have "\<exists>ks. apply_table buff mn 0 nx = Some ks \<and> set ks = table_keys 0 subscribed buff (unat mn + 0) nx \<and> distinct ks"
        using 1(2) [OF \<open>nx = x # ys\<close> _ Cons ok(3,1)] 1(4) [OF \<open>nx = x # ys\<close> _ Cons ok(3,1)] by (cases x) blast+
      thus ?thesis using Cons \<open>nx = x # ys\<close> by (cases x) simp_all
    qed
  qed
  then obtain ks where "(case nx of [Some t] \<Rightarrow> apply_helper (buff @ [mn]) t | [None] \<Rightarrow> None | _ \<Rightarrow> apply_table buff mn 0 nx) = Some ks"
      "set ks = table_keys 0 subscribed buff (unat mn) nx" "distinct ks" by blast
  thus ?case by (simp add: node_keys_split table_keys_here)
next
  case (2 buff mn i)
  thus ?case by (simp add: table_keys_Nil)
next
  case (3 buff mn i nx)
  thus ?case by (simp add: table_keys_None)
next
  case (4 buff mn i t nx)
  have m: "unat (mn + of_nat i) = unat mn + i" using 4(4) by (intro byte_add) simp
  obtain ks where ks: "apply_helper (buff @ [mn + of_nat i]) t = Some ks" "set ks = node_keys 0 subscribed (buff @ [mn + of_nat i]) t" "distinct ks"
    using 4(1,3) by auto
  obtain es where "apply_table buff mn (i + 1) nx = Some es" "set es = table_keys 0 subscribed buff (unat mn + (i + 1)) nx" "distinct es"
    using 4(2) [OF ks(1)] 4(3,4) by auto
  thus ?case using ks table_keys_Some [OF m, of 0 subscribed buff t nx] by simp
qed

text \<open>
  An abstract index of subscriptions: how often each prefix is subscribed to (as a 32-bit counter), and
  the operations on it with their results.
\<close>

datatype sub_op = Sub "byte list" | Unsub "byte list" | Test "byte list"

fun subs_exec :: "sub_op \<Rightarrow> (byte list \<Rightarrow> u32) \<Rightarrow> bool \<times> (byte list \<Rightarrow> u32)" where
  "subs_exec (Sub k) m = (m k + 1 = 1, m(k := m k + 1))"
| "subs_exec (Unsub k) m = (m k = 1, m(k := if m k = 0 then 0 else m k - 1))"
| "subs_exec (Test ds) m = (list_ex (\<lambda>k. m k \<noteq> 0) (prefixes ds), m)"

fun subs_run :: "sub_op list \<Rightarrow> (byte list \<Rightarrow> u32) \<Rightarrow> bool list \<times> (byte list \<Rightarrow> u32)" where
  "subs_run [] m = ([], m)"
| "subs_run (a # as) m = (case subs_exec a m of (b, m1) \<Rightarrow> case subs_run as m1 of (bs, m2) \<Rightarrow> (b # bs, m2))"

text \<open>The same operations on an implementation.\<close>

fun index_exec :: "(byte list \<Rightarrow> 't \<Rightarrow> (bool \<times> 't) option) \<Rightarrow> (byte list \<Rightarrow> 't \<Rightarrow> (bool \<times> 't) option) \<Rightarrow>
    (byte list \<Rightarrow> 't \<Rightarrow> bool option) \<Rightarrow> sub_op \<Rightarrow> 't \<Rightarrow> (bool \<times> 't) option" where
  "index_exec add rm check (Sub k) t = add k t"
| "index_exec add rm check (Unsub k) t = rm k t"
| "index_exec add rm check (Test ds) t = map_option (\<lambda>b. (b, t)) (check ds t)"

fun index_run :: "(byte list \<Rightarrow> 't \<Rightarrow> (bool \<times> 't) option) \<Rightarrow> (byte list \<Rightarrow> 't \<Rightarrow> (bool \<times> 't) option) \<Rightarrow>
    (byte list \<Rightarrow> 't \<Rightarrow> bool option) \<Rightarrow> sub_op list \<Rightarrow> 't \<Rightarrow> (bool list \<times> 't) option" where
  "index_run add rm check [] t = Some ([], t)"
| "index_run add rm check (a # as) t =
     do { (b, t1) \<leftarrow> index_exec add rm check a t; (bs, t2) \<leftarrow> index_run add rm check as t1; Some (b # bs, t2) }"

locale subscription_index =
  fixes ok :: "'t \<Rightarrow> bool" and count :: "'t \<Rightarrow> byte list \<Rightarrow> u32"
    and add rm :: "byte list \<Rightarrow> 't \<Rightarrow> (bool \<times> 't) option" and check :: "byte list \<Rightarrow> 't \<Rightarrow> bool option"
  assumes add_ok: "ok t \<Longrightarrow> \<exists>t'. add k t = Some (count t k + 1 = 1, t') \<and> ok t' \<and> count t' = (count t)(k := count t k + 1)"
    and rm_ok: "ok t \<Longrightarrow> \<exists>t'. rm k t = Some (count t k = 1, t') \<and> ok t' \<and>
      count t' = (count t)(k := if count t k = 0 then 0 else count t k - 1)"
    and check_ok: "ok t \<Longrightarrow> check ds t = Some (\<exists>k. prefix k ds \<and> count t k \<noteq> 0)"
begin

lemma exec_refines:
  assumes "ok t"
  shows "\<exists>t'. index_exec add rm check a t = Some (fst (subs_exec a (count t)), t') \<and> ok t' \<and> count t' = snd (subs_exec a (count t))"
proof (cases a)
  case (Test ds)
  thus ?thesis using check_ok [OF assms, of ds] assms by (auto simp: list_ex_iff in_set_prefixes)
qed (use add_ok [OF assms] rm_ok [OF assms] in auto)

lemma run_refines:
  "ok t \<Longrightarrow> \<exists>t'. index_run add rm check as t = Some (fst (subs_run as (count t)), t') \<and> ok t' \<and> count t' = snd (subs_run as (count t))"
proof (induction as arbitrary: t)
  case (Cons a as)
  obtain t1 where t1: "index_exec add rm check a t = Some (fst (subs_exec a (count t)), t1)" "ok t1" "count t1 = snd (subs_exec a (count t))"
    using exec_refines [OF Cons.prems] by blast
  thus ?case using Cons.IH [OF t1(2)] by (auto split: prod.splits)
qed simp

end

interpretation trie_index: subscription_index node_ok "\<lambda>t k. trie_count k t" trie_add trie_rm trie_check
  by unfold_locales (use trie_add_ok trie_rm_ok trie_check_ok in blast)+

lemma trie_apply_ok:
  "node_ok t \<Longrightarrow> \<exists>ks. trie_apply t = Some ks \<and> set ks = {k. trie_count k t \<noteq> 0} \<and> distinct ks"
  using apply_ok(1) [of t "[]"] by (simp add: trie_apply_def node_keys_def)

text \<open>
  C28. The trie implements the counted set of prefixes: for every sequence of subscriptions,
  cancellations and lookups no assertion fails and no null pointer is followed, all results are those
  of the counted set (a subscription is new, a cancellation is the last one, a message has a
  subscribed prefix), the counters agree at the end, and \<open>apply\<close> lists every prefix with a
  subscription, and only those, exactly once.
\<close>

theorem trie_refines:
  "\<exists>t ks. index_run trie_add trie_rm trie_check as trie_new = Some (fst (subs_run as (\<lambda>_. 0)), t) \<and>
     (\<forall>k. trie_count k t = snd (subs_run as (\<lambda>_. 0)) k) \<and>
     trie_apply t = Some ks \<and> distinct ks \<and> set ks = {k. snd (subs_run as (\<lambda>_. 0)) k \<noteq> 0}"
proof -
  have new: "node_ok trie_new" "(\<lambda>k. trie_count k trie_new) = (\<lambda>_. 0)" by (simp_all add: trie_new_def)
  obtain t where t: "index_run trie_add trie_rm trie_check as trie_new = Some (fst (subs_run as (\<lambda>_. 0)), t)"
      "node_ok t" "(\<lambda>k. trie_count k t) = snd (subs_run as (\<lambda>_. 0))"
    using trie_index.run_refines [OF new(1), of as] unfolding new(2) by blast
  thus ?thesis using trie_apply_ok [OF t(2)] fun_cong [OF t(3)] by auto
qed

end
