(* ===== verification/Simulation.thy ===== *)
theory Simulation
  imports Prelude
begin

text \<open>
  Sequences of operations and their specification by pre- and postconditions on an abstract state.  An
  implementation whose operations satisfy the conditions one by one does so for every sequence.
\<close>

fun exec_run :: "('a \<Rightarrow> 's \<Rightarrow> ('o \<times> 's) option) \<Rightarrow> 'a list \<Rightarrow> 's \<Rightarrow> ('o list \<times> 's) option" where
  "exec_run exec [] s = Some ([], s)"
| "exec_run exec (a # as) s = do { (b, s1) \<leftarrow> exec a s; (bs, s2) \<leftarrow> exec_run exec as s1; Some (b # bs, s2) }"

inductive spec_run :: "('a \<Rightarrow> 'q \<Rightarrow> bool) \<Rightarrow> ('a \<Rightarrow> 'o \<Rightarrow> 'q \<Rightarrow> 'q \<Rightarrow> bool) \<Rightarrow> 'a list \<Rightarrow> 'o list \<Rightarrow> 'q \<Rightarrow> 'q \<Rightarrow> bool"
  for pre post where
  Stop: "spec_run pre post [] [] q q"
| Step: "pre a q \<Longrightarrow> post a b q q1 \<Longrightarrow> spec_run pre post as bs q1 q2 \<Longrightarrow> spec_run pre post (a # as) (b # bs) q q2"

lemma exec_run_append: "exec_run exec (as @ bs) s = do { (os, s1) \<leftarrow> exec_run exec as s; (ps, s2) \<leftarrow> exec_run exec bs s1; Some (os @ ps, s2) }"
  by (induction as arbitrary: s) (auto split: Option.bind_split)

locale simulation =
  fixes exec :: "'a \<Rightarrow> 's \<Rightarrow> ('o \<times> 's) option" and ok :: "'s \<Rightarrow> bool" and abs :: "'s \<Rightarrow> 'q"
    and pre :: "'a \<Rightarrow> 'q \<Rightarrow> bool" and post :: "'a \<Rightarrow> 'o \<Rightarrow> 'q \<Rightarrow> 'q \<Rightarrow> bool"
  assumes exec_ok: "ok s \<Longrightarrow> pre a (abs s) \<Longrightarrow> \<exists>b s'. exec a s = Some (b, s') \<and> ok s' \<and> post a b (abs s) (abs s')"
    and exec_fails: "ok s \<Longrightarrow> \<not> pre a (abs s) \<Longrightarrow> exec a s = None"
begin

lemma exec_sound:
  assumes "ok s" "exec a s = Some (b, s')"
  shows "pre a (abs s) \<and> ok s' \<and> post a b (abs s) (abs s')"
  using exec_ok [OF assms(1), of a] exec_fails [OF assms(1), of a] assms(2) by (cases "pre a (abs s)") auto

lemma run_sound:
  "ok s \<Longrightarrow> exec_run exec as s = Some (bs, s') \<Longrightarrow> ok s' \<and> spec_run pre post as bs (abs s) (abs s')"
proof (induction as arbitrary: s bs)
  case (Cons a as)
  then obtain b s1 bs1 where r: "exec a s = Some (b, s1)" "exec_run exec as s1 = Some (bs1, s')" "bs = b # bs1"
    by (auto split: Option.bind_splits)
  thus ?case using exec_sound [OF Cons.prems(1) r(1)] Cons.IH [OF _ r(2)] by (auto intro: spec_run.intros)
qed (auto intro: spec_run.intros)

lemma run_fails_iff:
  "ok s \<Longrightarrow> exec_run exec as s = Some (bs, s') \<Longrightarrow> exec_run exec (as @ [a]) s = None \<longleftrightarrow> \<not> pre a (abs s')"
  using run_sound [of s as bs s'] exec_ok [of s' a] exec_fails [of s' a] by (auto simp: exec_run_append)

lemma run_total:
  assumes "\<And>q a. pre a q" "ok s"
  shows "\<exists>bs s'. exec_run exec as s = Some (bs, s')"
  using assms(2)
proof (induction as arbitrary: s)
  case (Cons a as)
  obtain b s1 where r: "exec a s = Some (b, s1)" "ok s1" using exec_ok [OF Cons.prems assms(1)] by blast
  thus ?case using Cons.IH [OF r(2)] by auto
qed simp

end

end
