(* ===== verification/Mtrie.thy ===== *)
theory Mtrie
  imports Trie Simulation
begin

text \<open>
  The trie of the publisher (\<open>src/mtrie.cpp\<close>): for each prefix the set of the pipes that are
  subscribed to it.  A node without subscriptions has no set, so the value of a node is an optional
  set; pipes are named by their addresses, whose order is the order in which a set is traversed.
\<close>

type_synonym mtrie = "nat set option tnode"

definition mtrie_new :: mtrie where
  "mtrie_new = node_new None"

definition mtrie_add :: "byte list \<Rightarrow> nat \<Rightarrow> mtrie \<Rightarrow> (bool \<times> mtrie) option" where
  "mtrie_add k p =
     node_add (\<lambda>ps. case ps of None \<Rightarrow> (True, Some {p}) | Some s \<Rightarrow> (False, Some (insert p s))) None False k"

definition mtrie_compact :: "byte \<Rightarrow> byte \<Rightarrow> nat \<Rightarrow> 'a option list \<Rightarrow> (byte \<times> 'a option list) option" where
  "mtrie_compact c mn lv nx =
     (if lv = 1
      then do { i \<leftarrow> scan (\<lambda>i. nx ! i \<noteq> None) 0 (length nx); Some (mn + of_nat i, [nx ! i]) }
      else if c = mn
      then do { i \<leftarrow> scan (\<lambda>i. nx ! i \<noteq> None) 1 (length nx); Some (mn + of_nat i, drop i nx) }
      else if unat c = unat mn + length nx - 1
      then do { i \<leftarrow> scan (\<lambda>i. nx ! (length nx - 1 - i) \<noteq> None) 1 (length nx); Some (mn, take (length nx - i) nx) }
      else Some (mn, nx))"

definition erase_pipe :: "nat \<Rightarrow> nat set option \<Rightarrow> (bool \<times> nat set option) option" where
  "erase_pipe p ps =
     (case ps of
        None \<Rightarrow> Some (True, None)
      | Some s \<Rightarrow> do {
          zmq_assert (p \<in> s);
          let ps' = (if s - {p} = {} then None else Some (s - {p}));
          Some (ps' = None, ps') })"

definition mtrie_rm :: "byte list \<Rightarrow> nat \<Rightarrow> mtrie \<Rightarrow> (bool \<times> mtrie) option" where
  "mtrie_rm k p = node_rm (erase_pipe p) (\<lambda>ps. ps = None) mtrie_compact k"

text \<open>Removal of a pipe from all nodes, with the prefixes for which the function is called.\<close>

definition rm_here :: "nat \<Rightarrow> bool \<Rightarrow> byte list \<Rightarrow> nat set option \<Rightarrow> byte list list \<times> nat set option" where
  "rm_here p uniq buff ps =
     (case ps of
        None \<Rightarrow> ([], None)
      | Some s \<Rightarrow>
          if p \<in> s
          then (if \<not> uniq \<or> s - {p} = {} then [buff] else [], if s - {p} = {} then None else Some (s - {p}))
          else ([], Some s))"

text \<open>The compaction after the loop over a table with several entries.\<close>

definition rm_compact :: "byte \<Rightarrow> nat \<Rightarrow> byte \<Rightarrow> byte \<Rightarrow> 'a option list \<Rightarrow> (byte \<times> 'a option list) option" where
  "rm_compact mn lv new_min new_max nx =
     do {
       zmq_assert (1 < length nx);
       (if lv = 0 then Some (mn, [])
        else if lv = 1
        then do {
          zmq_assert (new_min = new_max);
          zmq_assert (mn \<le> new_min \<and> unat new_min < unat mn + length nx);
          zmq_assert (nx ! (unat new_min - unat mn) \<noteq> None);
          Some (new_min, [nx ! (unat new_min - unat mn)]) }
        else if mn < new_min \<or> unat new_max < unat mn + length nx - 1
        then do {
          zmq_assert (1 < int (unat new_max) - int (unat new_min) + 1);
          zmq_assert (mn \<le> new_min);
          zmq_assert (unat new_max \<le> unat mn + length nx - 1);
          zmq_assert (int (unat new_max) - int (unat new_min) + 1 < int (length nx));
          Some (new_min, take (unat new_max - unat new_min + 1) (drop (unat new_min - unat mn) nx)) }
        else Some (mn, nx))
     }"

function (sequential) rm_helper :: "nat \<Rightarrow> bool \<Rightarrow> byte list \<Rightarrow> mtrie \<Rightarrow> (byte list list \<times> mtrie) option"
  and rm_table :: "nat \<Rightarrow> bool \<Rightarrow> byte list \<Rightarrow> byte \<Rightarrow> nat \<Rightarrow> nat \<Rightarrow> byte \<Rightarrow> byte \<Rightarrow> mtrie option list \<Rightarrow>
    (byte list list \<times> nat \<times> byte \<times> byte \<times> mtrie option list) option" where
  "rm_helper p uniq buff (Tnode ps mn lv nx) =
     (case rm_here p uniq buff ps of
        (calls, ps') \<Rightarrow>
          (case nx of
             [] \<Rightarrow> Some (calls, Tnode ps' mn lv [])
           | [None] \<Rightarrow> None
           | [Some t] \<Rightarrow>
               do {
                 (calls', t') \<leftarrow> rm_helper p uniq (buff @ [mn]) t;
                 (if is_redundant (\<lambda>ps. ps = None) t'
                  then do { zmq_assert (lv - 1 = 0); Some (calls @ calls', Tnode ps' mn (lv - 1) []) }
                  else Some (calls @ calls', Tnode ps' mn lv [Some t']))
               }
           | _ \<Rightarrow>
               do {
                 (calls', lv', new_min, new_max, nx') \<leftarrow> rm_table p uniq buff mn 0 lv (mn + of_nat (length nx) - 1) mn nx;
                 (mn', nx'') \<leftarrow> rm_compact mn lv' new_min new_max nx';
                 Some (calls @ calls', Tnode ps' mn' lv' nx'')
               }))"
| "rm_table p uniq buff mn c lv new_min new_max [] = Some ([], lv, new_min, new_max, [])"
| "rm_table p uniq buff mn c lv new_min new_max (None # nx) =
     do {
       (calls, lv', mn', mx', nx') \<leftarrow> rm_table p uniq buff mn (c + 1) lv new_min new_max nx;
       Some (calls, lv', mn', mx', None # nx')
     }"
| "rm_table p uniq buff mn c lv new_min new_max (Some t # nx) =
     do {
       (calls, t') \<leftarrow> rm_helper p uniq (buff @ [mn + of_nat c]) t;
       (if is_redundant (\<lambda>ps. ps = None) t'
        then do {
          zmq_assert (0 < lv);
          (calls', lv', mn', mx', nx') \<leftarrow> rm_table p uniq buff mn (c + 1) (lv - 1) new_min new_max nx;
          Some (calls @ calls', lv', mn', mx', None # nx') }
        else do {
          (calls', lv', mn', mx', nx') \<leftarrow> rm_table p uniq buff mn (c + 1) lv
             (if c + unat mn < unat new_min then of_nat (c + unat mn) else new_min)
             (if unat new_max < c + unat mn then of_nat (c + unat mn) else new_max) nx;
          Some (calls @ calls', lv', mn', mx', Some t' # nx') })
     }"
  by pat_completeness auto
termination
  by (relation "measure (\<lambda>x. case x of Inl (p, uniq, buff, t) \<Rightarrow> size t
      | Inr (p, uniq, buff, mn, c, lv, new_min, new_max, nx) \<Rightarrow> size_list (size_option size) nx)") auto

definition mtrie_rm_pipe :: "nat \<Rightarrow> bool \<Rightarrow> mtrie \<Rightarrow> (byte list list \<times> mtrie) option" where
  "mtrie_rm_pipe p uniq t = rm_helper p uniq [] t"

text \<open>The pipes for which \<open>match\<close> calls its function, in order.\<close>

definition node_pipes :: "nat set option \<Rightarrow> nat list" where
  "node_pipes ps = (case ps of None \<Rightarrow> [] | Some s \<Rightarrow> sorted_list_of_set s)"

fun mtrie_match :: "byte list \<Rightarrow> mtrie \<Rightarrow> nat list option" where
  "mtrie_match [] (Tnode ps mn lv nx) = Some (node_pipes ps)"
| "mtrie_match (c # cs) (Tnode ps mn lv nx) =
     (if length nx = 0 then Some (node_pipes ps)
      else if length nx = 1
      then (if c \<noteq> mn then Some (node_pipes ps)
            else (case nx ! 0 of
                    None \<Rightarrow> None
                  | Some t \<Rightarrow> map_option (\<lambda>l. node_pipes ps @ l) (mtrie_match cs t)))
      else if out_of_range c mn nx then Some (node_pipes ps)
      else (case nx ! (unat c - unat mn) of
              None \<Rightarrow> Some (node_pipes ps)
            | Some t \<Rightarrow> map_option (\<lambda>l. node_pipes ps @ l) (mtrie_match cs t)))"

section \<open>Prefixes\<close>

lemma mtrie_compact_ok:
  assumes p: "pruned c mn lv nx"
  shows "\<exists>mn' nx'. mtrie_compact c mn lv nx = Some (mn', nx') \<and> table_ok mn' lv nx' \<and> (\<forall>d. child d mn' nx' = child d mn nx)"
proof -
  note D = prunedD [OF p]
  let ?n = "length nx" and ?P = "\<lambda>i. nx ! i \<noteq> None"
  have ne: "nx \<noteq> []" using D(3) by auto
  consider (one) "lv = 1" | (l) "c = mn" "lv \<noteq> 1" | (r) "c \<noteq> mn" "Suc (unat c) = unat mn + ?n" "lv \<noteq> 1"
    | (m) "c \<noteq> mn" "Suc (unat c) \<noteq> unat mn + ?n" "lv \<noteq> 1" by blast
  thus ?thesis
  proof cases
    case one
    have "\<exists>j < ?n. ?P j" using D(2) one live_zero [of nx] by (metis in_set_conv_nth zero_neq_one)
    hence "scan ?P 0 ?n \<noteq> None" using scan_None [of ?P 0 ?n] by blast
    then obtain i where i: "scan ?P 0 ?n = Some i" by blast
    note I = scan_Some [OF i]
    have m: "unat (mn + of_nat i) = unat mn + i" using D(1) I by (intro byte_add) simp
    have nx: "nx = take i nx @ nx ! i # drop (Suc i) nx" using I by (intro id_take_nth_drop) simp
    have "live (take i nx) = 0" using I by (auto simp: live_zero in_set_conv_nth)
    moreover have "live nx = live (take i nx) + live [nx ! i] + live (drop (Suc i) nx)"
      by (subst nx) (cases "nx ! i"; simp)
    moreover have "live [nx ! i] = 1" using I by (cases "nx ! i") simp_all
    ultimately have z: "live (take i nx) = 0" "live (drop (Suc i) nx) = 0" "live [nx ! i] = 1" using D(2) one by linarith+
    have "child d (mn + of_nat i) [nx ! i] = child d mn nx" for d
    proof -
      have "slot (unat d) (unat mn + i) (take (Suc 0) (drop i nx)) = slot (unat d) (unat mn + i) (drop i nx)"
        using z(2) by (intro slot_take) (simp add: all_None)
      moreover have "take (Suc 0) (drop i nx) = [nx ! i]" using I by (simp add: take_Suc_conv_app_nth)
      ultimately show ?thesis using slot_drop [OF all_None [OF z(1)]] I m by simp
    qed
    thus ?thesis using one i z(3) I m D(1) by (auto simp: mtrie_compact_def table_ok_def)
  next
    case l
    have ls: "last nx \<noteq> None" using D(3,5) l(1) by auto
    obtain i where i: "scan ?P 1 ?n = Some i" "0 < i" "i < ?n" "nx ! i \<noteq> None" "live (take i nx) = 0"
      using scan_left [OF D(3) D(7) [OF l(1)] ls] by blast
    have m: "unat (mn + of_nat i) = unat mn + i" using D(1) i(3) by (intro byte_add) simp
    have "mtrie_compact c mn lv nx = Some (mn + of_nat i, drop i nx)" using l i by (simp add: mtrie_compact_def)
    thus ?thesis using drop_table [OF D(1) i(3,5,4) ls m] D(2) by auto
  next
    case r
    have hd: "hd nx \<noteq> None" using D(4) r(1) by auto
    obtain i where i: "scan (\<lambda>i. nx ! (?n - 1 - i) \<noteq> None) 1 ?n = Some i" "0 < i" "i < ?n" "nx ! (?n - 1 - i) \<noteq> None"
        "live (drop (?n - i) nx) = 0"
      using scan_right [OF D(3) D(8) [OF r(2)] hd] by blast
    have s: "Suc (?n - 1 - i) = ?n - i" using i(3) by simp
    have "mtrie_compact c mn lv nx = Some (mn, take (?n - i) nx)" using r i by (auto simp: mtrie_compact_def)
    thus ?thesis using take_table [OF D(1), of "?n - 1 - i"] i hd D(2) unfolding s by auto
  next
    case m
    have "hd nx \<noteq> None" "last nx \<noteq> None" using D(4,5) m by auto
    hence "1 < lv" "table_ok mn lv nx" using ends_live [OF D(3)] D(1,2) by (auto simp: table_ok_def)
    thus ?thesis using m D(3) by (auto simp: mtrie_compact_def)
  qed
qed

interpretation mtrie_compaction: compaction mtrie_compact
  by unfold_locales (rule mtrie_compact_ok)

section \<open>Removal of a pipe\<close>

lemma trim_table:
  assumes "unat mn + length nx \<le> 256" "a \<le> b" "b < length nx" "nx ! a \<noteq> None" "nx ! b \<noteq> None"
    and "live (take a nx) = 0" "live (drop (Suc b) nx) = 0" "unat mn' = unat mn + a" "xs = take (b - a + 1) (drop a nx)"
  shows "table_ok mn' (live nx) xs \<and> (\<forall>d. child d mn' xs = child d mn nx)"
proof -
  have len: "length xs = b - a + 1" using assms(2,3,9) by simp
  have rest: "drop (b - a + 1) (drop a nx) = drop (Suc b) nx" using assms(2) by simp
  have "live (drop a nx) = live xs" using live_take_drop [of "drop a nx" "b - a + 1"] assms(7,9) unfolding rest by simp
  hence "live nx = live xs" using live_take_drop [of nx a] assms(6) by simp
  moreover have "hd xs = nx ! a" "last xs = nx ! b" "xs \<noteq> []"
    using assms(2,3,9) len by (auto simp: hd_conv_nth last_conv_nth)
  moreover have "slot k (unat mn') xs = slot k (unat mn) nx" for k
    using slot_take [of "b - a + 1" "drop a nx"] assms(3,7,8,9) slot_drop [OF all_None [OF assms(6)]] assms(2)
    unfolding rest by (simp add: all_None)
  ultimately show ?thesis using assms len by (auto simp: table_ok_def)
qed

text \<open>What the loop over a table knows about the least and the greatest remaining character.\<close>

definition extremes :: "nat \<Rightarrow> 'a option list \<Rightarrow> nat \<Rightarrow> nat \<Rightarrow> nat \<Rightarrow> nat \<Rightarrow> bool" where
  "extremes m nx lo0 hi0 lo hi \<longleftrightarrow>
     lo \<le> lo0 \<and> hi0 \<le> hi \<and> (\<forall>j < length nx. nx ! j \<noteq> None \<longrightarrow> lo \<le> m + j \<and> m + j \<le> hi) \<and>
     (lo = lo0 \<or> (\<exists>j < length nx. nx ! j \<noteq> None \<and> lo = m + j)) \<and>
     (hi = hi0 \<or> (\<exists>j < length nx. nx ! j \<noteq> None \<and> hi = m + j))"

lemma extremes_Nil: "extremes m [] lo hi lo hi"
  by (simp add: extremes_def)

lemma all_less_Suc: "(\<forall>j < Suc n. P j) \<longleftrightarrow> P 0 \<and> (\<forall>j < n. P (Suc j))"
  by (auto simp: less_Suc_eq_0_disj)

lemma ex_less_Suc: "(\<exists>j < Suc n. P j) \<longleftrightarrow> P 0 \<or> (\<exists>j < n. P (Suc j))"
  by (auto simp: less_Suc_eq_0_disj)

lemma extremes_None: "extremes (Suc m) nx lo0 hi0 lo hi \<Longrightarrow> extremes m (None # nx) lo0 hi0 lo hi"
  by (auto simp: extremes_def all_less_Suc ex_less_Suc)

lemma extremes_Some:
  assumes "extremes (Suc m) nx (min lo0 m) (max hi0 m) lo hi"
  shows "extremes m (Some x # nx) lo0 hi0 lo hi"
  using assms by (auto simp: extremes_def all_less_Suc ex_less_Suc min_def max_def split: if_splits)

lemma extremes_ends:
  assumes e: "extremes m nx (m + length nx - 1) m lo hi" and l: "0 < live nx"
  shows "\<exists>a b. lo = m + a \<and> hi = m + b \<and> a \<le> b \<and> b < length nx \<and> nx ! a \<noteq> None \<and> nx ! b \<noteq> None \<and>
    live (take a nx) = 0 \<and> live (drop (Suc b) nx) = 0 \<and> (live nx = 1 \<longrightarrow> a = b) \<and> (live nx \<noteq> 1 \<longrightarrow> a < b)"
proof -
  let ?L = "\<lambda>j. j < length nx \<and> nx ! j \<noteq> None"
  obtain j where j: "?L j" using l live_zero [of nx] by (metis in_set_conv_nth less_irrefl)
  have all: "lo \<le> m + i \<and> m + i \<le> hi" if "?L i" for i using e that by (auto simp: extremes_def)
  have "\<exists>a. lo = m + a \<and> ?L a"
  proof (cases "lo = m + length nx - 1")
    case True
    hence "j = length nx - 1" using all [OF j] j by auto
    thus ?thesis using True j by (intro exI [of _ j]) auto
  next
    case False
    thus ?thesis using e by (auto simp: extremes_def)
  qed
  then obtain a where a: "lo = m + a" "?L a" by blast
  have "\<exists>b. hi = m + b \<and> ?L b"
  proof (cases "hi = m")
    case True
    hence "j = 0" using all [OF j] by auto
    thus ?thesis using True j by (intro exI [of _ j]) auto
  next
    case False
    thus ?thesis using e by (auto simp: extremes_def)
  qed
  then obtain b where b: "hi = m + b" "?L b" by blast
  have ab: "a \<le> b" using all [OF a(2)] b by simp
  have "nx ! i = None" if "i < a \<or> b < i" "i < length nx" for i using all [of i] a b that by (cases "nx ! i = None") auto
  hence z: "live (take a nx) = 0" "live (drop (Suc b) nx) = 0" by (auto simp: live_zero in_set_conv_nth)
  have nx: "nx = take a nx @ nx ! a # drop (Suc a) nx" using a by (intro id_take_nth_drop) simp
  have la: "live nx = 1 + live (drop (Suc a) nx)" using z(1) a(2) by (subst nx) (cases "nx ! a"; simp)
  have "a = b" if "live nx = 1"
  proof (rule ccontr)
    assume "a \<noteq> b"
    hence "nx ! b \<in> set (drop (Suc a) nx)" using ab b by (auto simp: in_set_conv_nth intro!: exI [of _ "b - Suc a"])
    hence "0 < live (drop (Suc a) nx)" using b by (intro live_pos) auto
    thus False using that la by simp
  qed
  moreover have "a < b" if "live nx \<noteq> 1"
  proof (rule ccontr)
    assume "\<not> a < b"
    hence "a = b" using ab by simp
    thus False using la z(2) that by simp
  qed
  ultimately show ?thesis using a b ab z by blast
qed

lemma rm_compact_ok:
  assumes e: "extremes (unat mn) nx (unat mn + length nx - 1) (unat mn) (unat lo) (unat hi)"
    and n: "1 < length nx" "unat mn + length nx \<le> 256"
  shows "\<exists>mn' nx'. rm_compact mn (live nx) lo hi nx = Some (mn', nx') \<and> table_ok mn' (live nx) nx' \<and>
    (\<forall>d. child d mn' nx' = child d mn nx)"
proof (cases "live nx = 0")
  case True
  hence "child d mn nx = None" for d by (auto simp: slot_def live_zero)
  thus ?thesis using True n by (auto simp: rm_compact_def zmq_assert_def table_ok_def)
next
  case False
  then obtain a b where ab: "unat lo = unat mn + a" "unat hi = unat mn + b" "a \<le> b" "b < length nx" "nx ! a \<noteq> None" "nx ! b \<noteq> None"
      "live (take a nx) = 0" "live (drop (Suc b) nx) = 0" "live nx = 1 \<Longrightarrow> a = b" "live nx \<noteq> 1 \<Longrightarrow> a < b"
    using extremes_ends [OF e] by blast
  note trim = trim_table [OF n(2) ab(3-8)]
  show ?thesis
  proof (cases "live nx = 1")
    case True
    have "take (b - a + 1) (drop a nx) = [nx ! a]" using ab(4) ab(9) [OF True] by (simp add: take_Suc_conv_app_nth)
    hence "table_ok lo (live nx) [nx ! a] \<and> (\<forall>d. child d lo [nx ! a] = child d mn nx)" using trim [OF ab(1) refl] by simp
    moreover have "rm_compact mn (live nx) lo hi nx = Some (lo, [nx ! a])"
      using True n ab by (auto simp: rm_compact_def zmq_assert_def word_le_nat_alt word_unat_eq_iff)
    ultimately show ?thesis by blast
  next
    case False
    note ltb = ab(10) [OF False]
    show ?thesis
    proof (cases "a = 0 \<and> b = length nx - 1")
      case True
      hence "rm_compact mn (live nx) lo hi nx = Some (mn, nx)"
        using False \<open>live nx \<noteq> 0\<close> n ab(1,2) by (auto simp: rm_compact_def zmq_assert_def word_less_nat_alt)
      moreover have "take (b - a + 1) (drop a nx) = nx" using True n by simp
      hence "table_ok mn (live nx) nx" using trim [of mn nx] True by simp
      ultimately show ?thesis by blast
    next
      case inner: False
      have "rm_compact mn (live nx) lo hi nx = Some (lo, take (b - a + 1) (drop a nx))"
        using False inner \<open>live nx \<noteq> 0\<close> n ab(1-4) ltb
        by (auto simp: rm_compact_def zmq_assert_def word_less_nat_alt word_le_nat_alt)
      thus ?thesis using trim [OF ab(1) refl] by blast
    qed
  qed
qed

text \<open>The value of a node after the removal of a pipe, and whether the function is called for the node.\<close>

definition rm_value :: "nat \<Rightarrow> nat set option \<Rightarrow> nat set option" where
  "rm_value p ps = snd (rm_here p False [] ps)"

definition called :: "nat \<Rightarrow> bool \<Rightarrow> nat set option \<Rightarrow> bool" where
  "called p uniq ps \<longleftrightarrow> fst (rm_here p uniq [] ps) \<noteq> []"

lemma rm_here_split: "rm_here p uniq buff ps = (if called p uniq ps then [buff] else [], rm_value p ps)"
  by (auto simp: rm_here_def rm_value_def called_def split: option.split)

lemma rm_None [simp]: "rm_value p None = None" "\<not> called p uniq None"
  by (simp_all add: rm_here_def rm_value_def called_def)

text \<open>The entries of a table before and after the removal.\<close>

fun entry :: "nat \<Rightarrow> mtrie option \<Rightarrow> mtrie option \<Rightarrow> bool" where
  "entry p None y \<longleftrightarrow> y = None"
| "entry p (Some t) None \<longleftrightarrow> (\<forall>k. rm_value p (value_at None k t) = None)"
| "entry p (Some t) (Some t') \<longleftrightarrow>
     node_ok t' \<and> tight None t' \<and> (\<exists>k. value_at None k t' \<noteq> None) \<and> (\<forall>k. value_at None k t' = rm_value p (value_at None k t))"

lemma entry_Some: "entry p x (Some t') \<Longrightarrow> \<exists>t. x = Some t \<and> entry p (Some t) (Some t')"
  by (cases x) (auto simp del: entry.simps(3))

lemma entry_slot:
  assumes "list_all2 (entry p) nx nx'"
  shows "entry p (slot k m nx) (slot k m nx')"
  using assms list_all2_nthD [OF assms, of "k - m"] by (auto simp: slot_def list_all2_lengthD)

lemma entries_node:
  assumes "table_ok mn' lv' nx'" "\<And>d. entry p (child d mn nx) (child d mn' nx')"
  shows "node_ok (Tnode (rm_value p ps) mn' lv' nx') \<and> tight None (Tnode (rm_value p ps) mn' lv' nx') \<and>
    (\<forall>k. value_at None k (Tnode (rm_value p ps) mn' lv' nx') = rm_value p (value_at None k (Tnode ps mn lv nx)))"
proof (intro conjI allI)
  have ent: "node_ok t \<and> tight None t \<and> (\<exists>k. value_at None k t \<noteq> None)" if "child d mn' nx' = Some t" for d t
    using entry_Some [of p "child d mn nx" t] assms(2) [of d] that by auto
  show "node_ok (Tnode (rm_value p ps) mn' lv' nx')" using assms(1) ent by (auto simp: node_ok_iff)
  show "tight None (Tnode (rm_value p ps) mn' lv' nx')" using ent by (auto simp: tight_node)
  show "value_at None k (Tnode (rm_value p ps) mn' lv' nx') = rm_value p (value_at None k (Tnode ps mn lv nx))" for k
  proof (cases k)
    case (Cons d ds)
    thus ?thesis using assms(2) [of d] by (cases "child d mn nx"; cases "child d mn' nx'") auto
  qed simp
qed

text \<open>The result of the removal in a child.\<close>

lemma entry_pruned:
  assumes "node_ok t'" "tight None t'" "\<forall>k. value_at None k t' = rm_value p (value_at None k t)"
  shows "entry p (Some t) (if is_redundant (\<lambda>ps. ps = None) t' then None else Some t')"
  using assms redundant_value [of t' None] live_value [of t' None] by (auto split: if_splits)

definition rm_done :: "nat \<Rightarrow> bool \<Rightarrow> byte list \<Rightarrow> mtrie \<Rightarrow> byte list list \<Rightarrow> mtrie \<Rightarrow> bool" where
  "rm_done p uniq buff t cs t' \<longleftrightarrow>
     node_ok t' \<and> tight None t' \<and> (\<forall>k. value_at None k t' = rm_value p (value_at None k t)) \<and>
     set cs = node_keys None (called p uniq) buff t \<and> distinct cs"

lemma rm_done_node:
  assumes "table_ok mn' lv' nx'" "\<And>d. entry p (child d mn nx) (child d mn' nx')"
    and "set cs = table_keys None (called p uniq) buff (unat mn) nx" "distinct cs"
  shows "rm_done p uniq buff (Tnode ps mn lv nx) ((if called p uniq ps then [buff] else []) @ cs) (Tnode (rm_value p ps) mn' lv' nx')"
  using entries_node [OF assms(1,2)] assms(3,4) table_keys_here [of buff None "called p uniq" "unat mn" nx]
  by (simp add: rm_done_def node_keys_split)

definition rm_table_done :: "nat \<Rightarrow> bool \<Rightarrow> byte list \<Rightarrow> nat \<Rightarrow> nat \<Rightarrow> byte \<Rightarrow> byte \<Rightarrow> mtrie option list \<Rightarrow>
    byte list list \<Rightarrow> nat \<Rightarrow> byte \<Rightarrow> byte \<Rightarrow> mtrie option list \<Rightarrow> bool" where
  "rm_table_done p uniq buff m lv lo hi nx cs lv' lo' hi' nx' \<longleftrightarrow>
     list_all2 (entry p) nx nx' \<and> lv' + live nx = lv + live nx' \<and> extremes m nx' (unat lo) (unat hi) (unat lo') (unat hi') \<and>
     set cs = table_keys None (called p uniq) buff m nx \<and> distinct cs"

lemma rm_table_done_Nil: "rm_table_done p uniq buff m lv lo hi [] [] lv lo hi []"
  by (simp add: rm_table_done_def extremes_Nil table_keys_Nil)

lemma rm_table_done_None:
  "rm_table_done p uniq buff (Suc m) lv lo hi nx cs lv' lo' hi' nx' \<Longrightarrow>
   rm_table_done p uniq buff m lv lo hi (None # nx) cs lv' lo' hi' (None # nx')"
  by (simp add: rm_table_done_def extremes_None table_keys_None)

lemma rm_table_done_Some:
  assumes t: "rm_done p uniq (buff @ [c]) t cs t'" and c: "unat c = m" and lv: "0 < lv"
    and r: "rm_table_done p uniq buff (Suc m) (if is_redundant (\<lambda>ps. ps = None) t' then lv - 1 else lv)
      (if \<not> is_redundant (\<lambda>ps. ps = None) t' \<and> m < unat lo then of_nat m else lo)
      (if \<not> is_redundant (\<lambda>ps. ps = None) t' \<and> unat hi < m then of_nat m else hi) nx cs' lv' lo' hi' nx'"
  shows "rm_table_done p uniq buff m lv lo hi (Some t # nx) (cs @ cs') lv' lo' hi'
    ((if is_redundant (\<lambda>ps. ps = None) t' then None else Some t') # nx')"
proof -
  have m: "unat (of_nat m :: byte) = m" using c unsigned_less [where 'a = nat, of c] by (simp add: unat_of_nat)
  have "entry p (Some t) (if is_redundant (\<lambda>ps. ps = None) t' then None else Some t')"
    using t by (intro entry_pruned) (auto simp: rm_done_def)
  moreover have "set (cs @ cs') = table_keys None (called p uniq) buff m (Some t # nx)" "distinct (cs @ cs')"
    using t r table_keys_Some [OF c, of None "called p uniq" buff t nx] by (auto simp: rm_done_def rm_table_done_def)
  ultimately show ?thesis
  proof (cases "is_redundant (\<lambda>ps. ps = None) t'")
    case True
    thus ?thesis using r lv \<open>entry p _ _\<close> \<open>set (cs @ cs') = _\<close> \<open>distinct (cs @ cs')\<close>
      by (auto simp: rm_table_done_def extremes_None)
  next
    case False
    have "extremes (Suc m) nx' (min (unat lo) m) (max (unat hi) m) (unat lo') (unat hi')"
      using r False m by (auto simp: rm_table_done_def min_def max_def split: if_splits)
    thus ?thesis using False r lv \<open>entry p _ _\<close> \<open>set (cs @ cs') = _\<close> \<open>distinct (cs @ cs')\<close>
      by (auto simp: rm_table_done_def extremes_Some)
  qed
qed

lemma rm_single:
  assumes ok: "table_ok mn lv [Some t]"
    and t: "rm_helper p uniq (buff @ [mn]) t = Some (cs, t')" "rm_done p uniq (buff @ [mn]) t cs t'"
  shows "\<exists>cs t'. rm_helper p uniq buff (Tnode ps mn lv [Some t]) = Some (cs, t') \<and> rm_done p uniq buff (Tnode ps mn lv [Some t]) cs t'"
proof -
  let ?red = "is_redundant (\<lambda>ps. ps = None) t'" and ?cs = "(if called p uniq ps then [buff] else []) @ cs"
  have e: "entry p (Some t) (if ?red then None else Some t')" using t(2) by (intro entry_pruned) (auto simp: rm_done_def)
  have cs: "set cs = table_keys None (called p uniq) buff (unat mn) [Some t]" "distinct cs"
    using t(2) table_keys_Some(1) [OF refl, of None "called p uniq" buff mn t "[]"] by (auto simp: rm_done_def table_keys_Nil)
  have lv: "lv = 1" "unat mn + 1 \<le> 256" using ok by (simp_all add: table_ok_def)
  have "rm_done p uniq buff (Tnode ps mn lv [Some t]) ?cs
      (Tnode (rm_value p ps) mn (if ?red then 0 else lv) (if ?red then [] else [Some t']))"
  proof (rule rm_done_node [OF _ _ cs])
    show "table_ok mn (if ?red then 0 else lv) (if ?red then [] else [Some t'])" using lv by (simp add: table_ok_def)
    have "list_all2 (entry p) [Some t] [if ?red then None else Some t']" using e by simp
    hence *: "entry p (child d mn [Some t]) (child d mn [if ?red then None else Some t'])" for d by (rule entry_slot)
    have "child d mn [None :: mtrie option] = child d mn []" for d using slot_prepend_None [of "unat d" "unat mn" 1 "[]"] by simp
    thus "entry p (child d mn [Some t]) (child d mn (if ?red then [] else [Some t']))" for d
      using * [of d] by (cases ?red) simp_all
  qed
  moreover have "rm_helper p uniq buff (Tnode ps mn lv [Some t]) =
      Some (?cs, Tnode (rm_value p ps) mn (if ?red then 0 else lv) (if ?red then [] else [Some t']))"
    using t(1) lv(1) by (auto simp: rm_here_split zmq_assert_def)
  ultimately show ?thesis by blast
qed

lemma rm_multi:
  assumes ok: "table_ok mn lv nx" and n: "1 < length nx"
    and r: "rm_table p uniq buff mn 0 lv (mn + of_nat (length nx) - 1) mn nx = Some (cs, lv', lo', hi', nx')"
      "rm_table_done p uniq buff (unat mn + 0) lv (mn + of_nat (length nx) - 1) mn nx cs lv' lo' hi' nx'"
  shows "\<exists>cs t'. rm_helper p uniq buff (Tnode ps mn lv nx) = Some (cs, t') \<and> rm_done p uniq buff (Tnode ps mn lv nx) cs t'"
proof -
  let ?cs = "(if called p uniq ps then [buff] else []) @ cs"
  have len: "length nx' = length nx" using r(2) by (auto simp: rm_table_done_def list_all2_lengthD)
  have lv': "lv' = live nx'" using r(2) ok by (simp add: rm_table_done_def table_ok_def)
  have u: "unat (mn + of_nat (length nx - 1)) = unat mn + (length nx - 1)" using ok n by (intro byte_add) (auto simp: table_ok_def)
  have eq: "mn + of_nat (length nx) - 1 = mn + of_nat (length nx - 1)" using n by (simp add: of_nat_diff)
  have last: "unat (mn + of_nat (length nx) - 1) = unat mn + length nx - 1" unfolding eq u using n by linarith
  have e: "extremes (unat mn) nx' (unat mn + length nx' - 1) (unat mn) (unat lo') (unat hi')"
    using r(2) unfolding rm_table_done_def last len by simp
  obtain mn'' nx'' where c: "rm_compact mn lv' lo' hi' nx' = Some (mn'', nx'')" "table_ok mn'' lv' nx''"
      "\<forall>d. child d mn'' nx'' = child d mn nx'"
    using rm_compact_ok [OF e] n ok len lv' by (auto simp: table_ok_def)
  have "entry p (child d mn nx) (child d mn'' nx'')" for d
    using c(3) entry_slot [of p nx nx'] r(2) by (simp add: rm_table_done_def)
  hence "rm_done p uniq buff (Tnode ps mn lv nx) ?cs (Tnode (rm_value p ps) mn'' lv' nx'')"
    using r(2) c(2) by (intro rm_done_node) (auto simp: rm_table_done_def)
  moreover have "rm_helper p uniq buff (Tnode ps mn lv nx) = Some (?cs, Tnode (rm_value p ps) mn'' lv' nx'')"
    using r(1) c(1) n by (cases nx; cases "tl nx"; cases "hd nx") (auto simp: rm_here_split)
  ultimately show ?thesis by blast
qed

lemma rm_ok:
  "node_ok t \<Longrightarrow> tight None t \<Longrightarrow> \<exists>cs t'. rm_helper p uniq buff t = Some (cs, t') \<and> rm_done p uniq buff t cs t'"
  "\<forall>t. Some t \<in> set nx \<longrightarrow> node_ok t \<and> tight None t \<Longrightarrow> unat mn + c + length nx \<le> 256 \<Longrightarrow> live nx \<le> lv \<Longrightarrow>
     \<exists>cs lv' lo' hi' nx'. rm_table p uniq buff mn c lv lo hi nx = Some (cs, lv', lo', hi', nx') \<and>
       rm_table_done p uniq buff (unat mn + c) lv lo hi nx cs lv' lo' hi' nx'"
proof (induction p uniq buff t and p uniq buff mn c lv lo hi nx rule: rm_helper_rm_table.induct)
  case (1 p uniq buff ps mn lv nx)
  have tok: "table_ok mn lv nx" using 1(4) by (simp add: node_ok_iff)
  have sub: "\<forall>t. Some t \<in> set nx \<longrightarrow> node_ok t \<and> tight None t" "unat mn + 0 + length nx \<le> 256" "live nx \<le> lv" "nx \<noteq> [None]"
  proof -
    show "unat mn + 0 + length nx \<le> 256" "live nx \<le> lv" "nx \<noteq> [None]" using tok by (auto simp: table_ok_def)
    thus "\<forall>t. Some t \<in> set nx \<longrightarrow> node_ok t \<and> tight None t"
      using set_child [of mn nx] 1(4,5) unfolding node_ok_iff tight_node by (metis add_0_right)
  qed
  obtain x y where xy: "(x, y) = rm_here p uniq buff ps" by (metis surj_pair)
  consider (nil) "nx = []" | (one) t where "nx = [Some t]" | (many) a b zs where "nx = a # b # zs"
    using sub(4) by (cases nx; cases "tl nx"; cases "hd nx") auto
  thus ?case
  proof cases
    case nil
    hence "rm_done p uniq buff (Tnode ps mn lv nx) ((if called p uniq ps then [buff] else []) @ []) (Tnode (rm_value p ps) mn lv nx)"
      using tok by (intro rm_done_node) (simp_all add: table_keys_Nil)
    thus ?thesis using nil by (simp add: rm_here_split)
  next
    case (one t)
    thus ?thesis using 1(2) [OF xy one refl refl] sub(1) tok rm_single [of mn lv t] by auto
  next
    case (many a b zs)
    have "\<exists>cs lv' lo' hi' nx'. rm_table p uniq buff mn 0 lv (mn + of_nat (length nx) - 1) mn nx = Some (cs, lv', lo', hi', nx') \<and>
       rm_table_done p uniq buff (unat mn + 0) lv (mn + of_nat (length nx) - 1) mn nx cs lv' lo' hi' nx'"
      using 1(1) [OF xy many _ refl sub(1-3)] 1(3) [OF xy many _ refl sub(1-3)] by (cases a) blast+
    thus ?thesis using rm_multi [OF tok] many by fastforce
  qed
next
  case (2 p uniq buff mn c lv lo hi)
  thus ?case by (simp add: rm_table_done_Nil)
next
  case (3 p uniq buff mn c lv lo hi nx)
  thus ?case using rm_table_done_None by fastforce
next
  case (4 p uniq buff mn c lv lo hi t nx)
  have m: "unat (mn + of_nat c) = unat mn + c" using 4(5) by (intro byte_add) simp
  have sub: "\<forall>t. Some t \<in> set nx \<longrightarrow> node_ok t \<and> tight None t" "unat mn + (c + 1) + length nx \<le> 256" "live nx \<le> lv - 1" "live nx \<le> lv" "0 < lv"
    using 4(4-6) by auto
  obtain cs t' where t: "rm_helper p uniq (buff @ [mn + of_nat c]) t = Some (cs, t')" "rm_done p uniq (buff @ [mn + of_nat c]) t cs t'"
    using 4(1,4) by auto
  show ?case
  proof (cases "is_redundant (\<lambda>ps. ps = None) t'")
    case True
    then obtain cs' lv' lo' hi' nx' where r: "rm_table p uniq buff mn (c + 1) (lv - 1) lo hi nx = Some (cs', lv', lo', hi', nx')"
        "rm_table_done p uniq buff (unat mn + (c + 1)) (lv - 1) lo hi nx cs' lv' lo' hi' nx'"
      using 4(2) [OF t(1) refl True _ sub(1-3)] sub(5) by (auto simp: zmq_assert_def)
    have "rm_table_done p uniq buff (unat mn + c) lv lo hi (Some t # nx) (cs @ cs') lv' lo' hi' (None # nx')"
      using rm_table_done_Some [OF t(2) m sub(5), of lo hi nx cs' lv' lo' hi' nx'] True r(2) by simp
    thus ?thesis using t(1) r(1) True sub(5) by (auto simp: zmq_assert_def)
  next
    case False
    then obtain cs' lv' lo' hi' nx' where r: "rm_table p uniq buff mn (c + 1) lv (if c + unat mn < unat lo then of_nat (c + unat mn) else lo)
             (if unat hi < c + unat mn then of_nat (c + unat mn) else hi) nx = Some (cs', lv', lo', hi', nx')"
        "rm_table_done p uniq buff (unat mn + (c + 1)) lv (if c + unat mn < unat lo then of_nat (c + unat mn) else lo)
             (if unat hi < c + unat mn then of_nat (c + unat mn) else hi) nx cs' lv' lo' hi' nx'"
      using 4(3) [OF t(1) refl False sub(1,2,4)] by blast
    have "rm_table_done p uniq buff (unat mn + c) lv lo hi (Some t # nx) (cs @ cs') lv' lo' hi' (Some t' # nx')"
      using rm_table_done_Some [OF t(2) m sub(5), of lo hi nx cs' lv' lo' hi' nx'] False r(2)
      unfolding add.commute [of c "unat mn"] by simp
    thus ?thesis using t(1) r(1) False by simp
  qed
qed

section \<open>Sets of subscriptions\<close>

definition subs :: "mtrie \<Rightarrow> byte list \<Rightarrow> nat set" where
  "subs t k = (case value_at None k t of None \<Rightarrow> {} | Some s \<Rightarrow> s)"

definition mtrie_ok :: "mtrie \<Rightarrow> bool" where
  "mtrie_ok t \<longleftrightarrow> node_ok t \<and> tight None t \<and> (\<forall>k s. value_at None k t = Some s \<longrightarrow> finite s \<and> s \<noteq> {})"

lemma mtrie_new_ok: "mtrie_ok mtrie_new" "subs mtrie_new = (\<lambda>_. {})"
  by (simp_all add: mtrie_ok_def mtrie_new_def subs_def fun_eq_iff)

lemma subs_value: "mtrie_ok t \<Longrightarrow> value_at None k t = (if subs t k = {} then None else Some (subs t k))"
  by (auto simp: mtrie_ok_def subs_def split: option.splits)

lemma subs_finite: "mtrie_ok t \<Longrightarrow> finite (subs t k)"
  by (auto simp: mtrie_ok_def subs_def split: option.splits)

text \<open>A trie whose values are given by sets of subscriptions.\<close>

lemma mtrie_okI:
  assumes "node_ok t'" "tight None t'" "\<And>k. value_at None k t' = (if S k = {} then None else Some (S k))" "\<And>k. finite (S k)"
  shows "mtrie_ok t' \<and> subs t' = S"
  using assms by (auto simp: mtrie_ok_def subs_def fun_eq_iff split: if_splits)

lemma mtrie_add_ok:
  assumes "mtrie_ok t"
  shows "\<exists>t'. mtrie_add k p t = Some (subs t k = {}, t') \<and> mtrie_ok t' \<and> subs t' = (subs t)(k := insert p (subs t k))"
proof -
  let ?f = "\<lambda>ps. case ps of None \<Rightarrow> (True, Some {p}) | Some s \<Rightarrow> (False, Some (insert p s))"
  have "node_ok t" using assms by (simp add: mtrie_ok_def)
  then obtain b t' where t': "mtrie_add k p t = Some (b, t')" "node_ok t'" "b = fst (?f (value_at None k t))"
      "\<forall>k'. value_at None k' t' = (if k' = k then snd (?f (value_at None k t)) else value_at None k' t)"
      "tight None t \<and> (\<forall>v. snd (?f v) \<noteq> None) \<longrightarrow> tight None t'"
    unfolding mtrie_add_def using node_add_ok [of t ?f None False k] by blast
  have "tight None t'" using t'(5) assms by (auto simp: mtrie_ok_def split: option.split)
  hence "mtrie_ok t' \<and> subs t' = (subs t)(k := insert p (subs t k))"
    using t'(2,4) subs_value [OF assms] subs_finite [OF assms] by (intro mtrie_okI) auto
  moreover have "b = (subs t k = {})" using t'(3) subs_value [OF assms, of k] by auto
  ultimately show ?thesis using t'(1) by blast
qed

text \<open>Whether there is a node for a prefix.\<close>

definition reaches :: "(byte list \<Rightarrow> nat set) \<Rightarrow> byte list \<Rightarrow> bool" where
  "reaches S k \<longleftrightarrow> k = [] \<or> (\<exists>k'. prefix k k' \<and> S k' \<noteq> {})"

lemma has_node_prefix: "has_node k' t \<Longrightarrow> prefix k k' \<Longrightarrow> has_node k t"
proof (induction k' t arbitrary: k rule: has_node.induct)
  case (2 c cs v mn lv nx)
  thus ?case by (cases k) (auto split: option.splits)
qed simp

lemma has_node_iff:
  assumes "mtrie_ok t"
  shows "has_node k t \<longleftrightarrow> reaches (subs t) k"
proof -
  have "has_node k t" if "prefix k k'" "subs t k' \<noteq> {}" for k'
  proof -
    have "value_at None k' t \<noteq> None" using that(2) by (auto simp: subs_def)
    hence "has_node k' t" using value_at_absent [of k' t None] by (cases "has_node k' t") simp_all
    thus ?thesis using that(1) by (rule has_node_prefix)
  qed
  moreover have "\<exists>k'. prefix k k' \<and> subs t k' \<noteq> {}" if k: "has_node k t" "k \<noteq> []"
  proof -
    have "tight None t" using assms by (simp add: mtrie_ok_def)
    then obtain k' where "prefix k k'" "value_at None k' t \<noteq> None" using k by (auto simp: tight_def)
    thus ?thesis using subs_value [OF assms, of k'] by (intro exI [of _ k']) (simp split: if_splits)
  qed
  ultimately show ?thesis by (auto simp: reaches_def)
qed

lemma mtrie_rm_ok:
  assumes ok: "mtrie_ok t" and p: "p \<in> subs t k \<or> subs t k = {}"
  shows "\<exists>t'. mtrie_rm k p t = Some (if p \<in> subs t k then subs t k = {p} else reaches (subs t) k, t') \<and>
    mtrie_ok t' \<and> subs t' = (subs t)(k := subs t k - {p})"
proof -
  let ?b = "if p \<in> subs t k then subs t k = {p} else reaches (subs t) k"
  let ?v = "if subs t k - {p} = {} then None else Some (subs t k - {p})"
  have n: "node_ok t" "tight None t" using ok by (simp_all add: mtrie_ok_def)
  have "(if has_node k t then erase_pipe p (value_at None k t) else Some (False, None)) = Some (?b, ?v)"
    using p subs_value [OF ok, of k] value_at_absent [of k t None] has_node_iff [OF ok, of k]
    by (cases "subs t k = {}") (auto simp: erase_pipe_def zmq_assert_def Let_def)
  then obtain t' where t': "mtrie_rm k p t = Some (?b, t')" "node_ok t'" "tight None t'"
      "\<forall>k'. value_at None k' t' = (if k' = k then ?v else value_at None k' t)"
    unfolding mtrie_rm_def using mtrie_compaction.node_rm_ok(1) [OF n(1) refl, of k "erase_pipe p"] n(2) by blast
  have "mtrie_ok t' \<and> subs t' = (subs t)(k := subs t k - {p})"
    using t'(2-4) subs_value [OF ok] subs_finite [OF ok] by (intro mtrie_okI) auto
  thus ?thesis using t'(1) by blast
qed

lemma mtrie_rm_fails:
  assumes ok: "mtrie_ok t" and p: "p \<notin> subs t k" "subs t k \<noteq> {}"
  shows "mtrie_rm k p t = None"
proof -
  have "has_node k t" using has_node_iff [OF ok, of k] p(2) by (auto simp: reaches_def)
  moreover have "erase_pipe p (value_at None k t) = None"
    using subs_value [OF ok, of k] p by (simp add: erase_pipe_def zmq_assert_def)
  moreover have "node_ok t" using ok by (simp add: mtrie_ok_def)
  ultimately show ?thesis unfolding mtrie_rm_def using mtrie_compaction.node_rm_ok(2) [OF _ refl, of t k "erase_pipe p"] by blast
qed

lemma mtrie_rm_pipe_ok:
  assumes ok: "mtrie_ok t"
  shows "\<exists>cs t'. mtrie_rm_pipe p uniq t = Some (cs, t') \<and> mtrie_ok t' \<and> subs t' = (\<lambda>k. subs t k - {p}) \<and>
    distinct cs \<and> set cs = {k. p \<in> subs t k \<and> (uniq \<longrightarrow> subs t k = {p})}"
proof -
  have n: "node_ok t" "tight None t" using ok by (simp_all add: mtrie_ok_def)
  obtain cs t' where t': "mtrie_rm_pipe p uniq t = Some (cs, t')" "rm_done p uniq [] t cs t'"
    unfolding mtrie_rm_pipe_def using rm_ok(1) [OF n] by blast
  have v: "rm_value p (value_at None k t) = (if subs t k - {p} = {} then None else Some (subs t k - {p}))" for k
    using subs_value [OF ok, of k] by (auto simp: rm_value_def rm_here_def)
  have "called p uniq (value_at None k t) \<longleftrightarrow> p \<in> subs t k \<and> (uniq \<longrightarrow> subs t k = {p})" for k
    using subs_value [OF ok, of k] by (auto simp: called_def rm_here_def)
  hence "set cs = {k. p \<in> subs t k \<and> (uniq \<longrightarrow> subs t k = {p})}" "distinct cs"
    using t'(2) by (simp_all add: rm_done_def node_keys_def)
  moreover have "mtrie_ok t' \<and> subs t' = (\<lambda>k. subs t k - {p})"
    using t'(2) v subs_finite [OF ok] by (intro mtrie_okI) (simp_all add: rm_done_def)
  ultimately show ?thesis using t'(1) by blast
qed

lemma node_pipes_subs: "node_pipes (value_at None k t) = sorted_list_of_set (subs t k)"
  by (simp add: node_pipes_def subs_def split: option.split)

lemma match_ok:
  "node_ok t \<Longrightarrow> mtrie_match ds t = Some (concat (map (\<lambda>k. sorted_list_of_set (subs t k)) (prefixes ds)))"
proof (induction ds t rule: mtrie_match.induct)
  case (1 ps mn lv nx)
  show ?case using node_pipes_subs [of "[]" "Tnode ps mn lv nx"] by simp
next
  case (2 c cs ps mn lv nx)
  have here: "node_pipes ps = sorted_list_of_set (subs (Tnode ps mn lv nx) [])"
    using node_pipes_subs [of "[]" "Tnode ps mn lv nx"] by simp
  have tok: "table_ok mn lv nx" "\<And>d t. child d mn nx = Some t \<Longrightarrow> node_ok t" using 2(3) by (auto simp: node_ok_iff)
  show ?case
  proof (cases "child c mn nx")
    case None
    have "subs (Tnode ps mn lv nx) (c # k) = {}" for k using None by (simp add: subs_def)
    moreover have "mtrie_match (c # cs) (Tnode ps mn lv nx) = Some (node_pipes ps)"
    proof (cases "length nx = 1")
      case True
      then obtain x where "nx = [x]" by (cases nx) auto
      thus ?thesis using None tok(1) by (auto simp: slot_def table_ok_def)
    next
      case False
      thus ?thesis using None slot_nth [of c mn nx] by auto
    qed
    ultimately show ?thesis using here by (simp add: comp_def)
  next
    case (Some t)
    hence r: "\<not> out_of_range c mn nx" "nx ! (unat c - unat mn) = Some t" using slot_None [of c mn nx] slot_nth [of c mn nx] by fastforce+
    have "subs (Tnode ps mn lv nx) (c # k) = subs t k" for k using Some by (simp add: subs_def)
    moreover have "mtrie_match (c # cs) (Tnode ps mn lv nx) = map_option (\<lambda>l. node_pipes ps @ l) (mtrie_match cs t)"
    proof (cases "length nx = 1")
      case True
      hence "c = mn" "nx ! 0 = Some t" using r by (auto simp: out_of_range_def word_unat_eq_iff)
      thus ?thesis using True by simp
    next
      case False
      thus ?thesis using r by auto
    qed
    moreover have "mtrie_match cs t = Some (concat (map (\<lambda>k. sorted_list_of_set (subs t k)) (prefixes cs)))"
    proof (cases "length nx = 1")
      case True
      hence "c = mn" "nx ! 0 = Some t" "length nx \<noteq> 0" using r by (auto simp: out_of_range_def word_unat_eq_iff)
      thus ?thesis using 2(1) [OF _ True _ _] tok(2) [OF Some] by auto
    next
      case False
      have "length nx \<noteq> 0" using r(1) by (auto simp: out_of_range_def)
      thus ?thesis using 2(2) [OF _ False r(1) r(2)] tok(2) [OF Some] by auto
    qed
    ultimately show ?thesis using here by (simp add: comp_def)
  qed
qed

section \<open>Refinement\<close>

datatype mtrie_op = Add "byte list" nat | Rm "byte list" nat | Rm_Pipe nat bool | Match "byte list"

datatype mtrie_out = Flag bool | Calls "byte list list" | Pipes "nat list"

fun mtrie_exec :: "mtrie_op \<Rightarrow> mtrie \<Rightarrow> (mtrie_out \<times> mtrie) option" where
  "mtrie_exec (Add k p) t = map_option (\<lambda>(b, t'). (Flag b, t')) (mtrie_add k p t)"
| "mtrie_exec (Rm k p) t = map_option (\<lambda>(b, t'). (Flag b, t')) (mtrie_rm k p t)"
| "mtrie_exec (Rm_Pipe p uniq) t = map_option (\<lambda>(cs, t'). (Calls cs, t')) (mtrie_rm_pipe p uniq t)"
| "mtrie_exec (Match ds) t = map_option (\<lambda>ps. (Pipes ps, t)) (mtrie_match ds t)"

text \<open>The specification: a set of pipes for each prefix.\<close>

fun subs_pre :: "mtrie_op \<Rightarrow> (byte list \<Rightarrow> nat set) \<Rightarrow> bool" where
  "subs_pre (Rm k p) S \<longleftrightarrow> p \<in> S k \<or> S k = {}"
| "subs_pre _ S \<longleftrightarrow> True"

fun subs_post :: "mtrie_op \<Rightarrow> mtrie_out \<Rightarrow> (byte list \<Rightarrow> nat set) \<Rightarrow> (byte list \<Rightarrow> nat set) \<Rightarrow> bool" where
  "subs_post (Add k p) r S S' \<longleftrightarrow> r = Flag (S k = {}) \<and> S' = S(k := insert p (S k))"
| "subs_post (Rm k p) r S S' \<longleftrightarrow>
     r = Flag (if p \<in> S k then S k = {p} else reaches S k) \<and> S' = S(k := S k - {p})"
| "subs_post (Rm_Pipe p uniq) r S S' \<longleftrightarrow>
     (\<exists>ks. r = Calls ks \<and> distinct ks \<and> set ks = {k. p \<in> S k \<and> (uniq \<longrightarrow> S k = {p})}) \<and> S' = (\<lambda>k. S k - {p})"
| "subs_post (Match ds) r S S' \<longleftrightarrow> r = Pipes (concat (map (\<lambda>k. sorted_list_of_set (S k)) (prefixes ds))) \<and> S' = S"

interpretation mtrie_sim: simulation mtrie_exec mtrie_ok subs subs_pre subs_post
proof
  show "\<exists>b t'. mtrie_exec a t = Some (b, t') \<and> mtrie_ok t' \<and> subs_post a b (subs t) (subs t')"
    if ok: "mtrie_ok t" "subs_pre a (subs t)" for t a
  proof (cases a)
    case (Add k p)
    thus ?thesis using mtrie_add_ok [OF ok(1), of k p] by auto
  next
    case (Rm k p)
    thus ?thesis using mtrie_rm_ok [OF ok(1), of p k] ok(2) by auto
  next
    case (Rm_Pipe p uniq)
    thus ?thesis using mtrie_rm_pipe_ok [OF ok(1), of p uniq] by auto
  next
    case (Match ds)
    thus ?thesis using match_ok [of t ds] ok(1) by (auto simp: mtrie_ok_def)
  qed
  show "mtrie_exec a t = None" if "mtrie_ok t" "\<not> subs_pre a (subs t)" for t a
    using that mtrie_rm_fails [of t] by (cases a) auto
qed

text \<open>
  C29. The trie of the publisher implements the set of pipes for each prefix: for every sequence of
  subscriptions, cancellations, removals of pipes and matches that runs to its end, the results are those of
  the sets.  A subscription is reported as new exactly for the first pipe, removing a pipe calls the
  function once for each prefix of that pipe (of that pipe alone, if asked so), and a match finds for
  each prefix of the message exactly the subscribed pipes.
\<close>

theorem mtrie_refines:
  assumes "exec_run mtrie_exec as mtrie_new = Some (bs, t)"
  shows "spec_run subs_pre subs_post as bs (\<lambda>_. {}) (subs t)"
  using mtrie_sim.run_sound [OF mtrie_new_ok(1) assms] by (simp add: mtrie_new_ok)

theorem mtrie_refines_witness:
  "spec_run subs_pre subs_post [Add [97] 1, Add [97, 98] 2, Match [97, 98, 99], Rm_Pipe 1 True, Rm [97, 98] 2]
     [Flag True, Flag True, Pipes [1, 2], Calls [[97]], Flag True] (\<lambda>_. {}) (subs (Tnode None 97 0 []))"
  by (rule mtrie_refines) (simp add: mtrie_add_def mtrie_new_def node_new_def extend_table_def out_of_range_def zmq_assert_def
    node_pipes_def mtrie_rm_pipe_def rm_here_def is_redundant_def mtrie_rm_def erase_pipe_def)

text \<open>
  C30. The only failure of a sequence of operations is the assertion in \<open>rm\<close>: it fails exactly when a
  pipe cancels a prefix to which it is not subscribed while another pipe is.  All other operations
  succeed in every reachable state.
\<close>

theorem mtrie_fails_iff:
  assumes "exec_run mtrie_exec as mtrie_new = Some (bs, t)"
  shows "exec_run mtrie_exec (as @ [a]) mtrie_new = None \<longleftrightarrow> (\<exists>k p. a = Rm k p \<and> p \<notin> subs t k \<and> subs t k \<noteq> {})"
  using mtrie_sim.run_fails_iff [OF mtrie_new_ok(1) assms, of a] by (cases a) auto

theorem mtrie_fails_iff_witness:
  "exec_run mtrie_exec ([Add [97] 1] @ [Rm [97] 2]) mtrie_new = None"
proof -
  let ?t = "Tnode None 97 1 [Some (Tnode (Some {1}) 0 0 [])]"
  have "exec_run mtrie_exec [Add [97] 1] mtrie_new = Some ([Flag True], ?t)"
    by (simp add: mtrie_add_def mtrie_new_def node_new_def extend_table_def out_of_range_def zmq_assert_def)
  moreover have "subs ?t [97] = {1}" by (simp add: subs_def slot_def)
  ultimately show ?thesis using mtrie_fails_iff [of "[Add [97] 1]" "[Flag True]" ?t "Rm [97] 2"] by simp
qed

end
