(* ===== verification/Xpub.thy ===== *)
theory Xpub
  imports Dist Mtrie
begin

text \<open>
  The publisher sockets (\<open>src/xpub.cpp\<close>, \<open>src/pub.cpp\<close>): a distributor of messages, the subscriptions of
  the pipes, and the queue of subscription messages for the user.  The fields \<open>xp_pub\<close> and \<open>xp_invert\<close> are
  the socket options for the type and for inverted matching.  References to metadata are part of the
  message values.  A pipe that was deallocated is not in the store of pipes, so that its use gives
  \<open>None\<close>.
\<close>

record xpub =
  xp_subs :: mtrie
  xp_manual_subs :: mtrie
  xp_dist :: dist
  xp_verbose_subs :: bool
  xp_verbose_unsubs :: bool
  xp_more :: bool
  xp_lossy :: bool
  xp_manual :: bool
  xp_last_pipe :: "nat option"
  xp_pending_pipes :: "nat option list"
  xp_welcome :: frame
  xp_pending_data :: "byte list list"
  xp_pending_metadata :: "nat option list"
  xp_pending_flags :: "byte list"
  xp_pub :: bool
  xp_invert :: bool

definition xpub_new :: "bool \<Rightarrow> bool \<Rightarrow> xpub" where
  "xpub_new pub invert =
     \<lparr>xp_subs = mtrie_new, xp_manual_subs = mtrie_new, xp_dist = dist_new, xp_verbose_subs = False, xp_verbose_unsubs = False,
      xp_more = False, xp_lossy = True, xp_manual = False, xp_last_pipe = None, xp_pending_pipes = [], xp_welcome = empty_frame,
      xp_pending_data = [], xp_pending_metadata = [], xp_pending_flags = [], xp_pub = pub, xp_invert = invert\<rparr>"

definition push_pending :: "byte list \<Rightarrow> nat option \<Rightarrow> byte \<Rightarrow> xpub \<Rightarrow> xpub" where
  "push_pending data metadata flags s =
     s\<lparr>xp_pending_data := xp_pending_data s @ [data], xp_pending_metadata := xp_pending_metadata s @ [metadata],
       xp_pending_flags := xp_pending_flags s @ [flags]\<rparr>"

text \<open>The processing of one message from a subscriber: the body of the loop of \<open>xread_activated\<close>.\<close>

definition process_sub :: "nat \<Rightarrow> frame \<Rightarrow> xpub \<Rightarrow> xpub option" where
  "process_sub x sub s =
     (case f_data sub of
        d # key \<Rightarrow>
          if d = 0 \<or> d = 1
          then (if xp_manual s
                then do {
                  (_, t) \<leftarrow> (if d = 0 then mtrie_rm key x (xp_manual_subs s) else mtrie_add key x (xp_manual_subs s));
                  Some (push_pending (d # key) (f_metadata sub) 0
                    (s\<lparr>xp_manual_subs := t, xp_pending_pipes := xp_pending_pipes s @ [Some x]\<rparr>))
                }
                else do {
                  (unique, t) \<leftarrow> (if d = 0 then mtrie_rm key x (xp_subs s) else mtrie_add key x (xp_subs s));
                  let s1 = s\<lparr>xp_subs := t\<rparr>;
                  Some (if \<not> xp_pub s \<and> (unique \<or> (d = 1 \<and> xp_verbose_subs s) \<or> (d = 0 \<and> xp_verbose_unsubs s \<and> xp_verbose_subs s))
                        then push_pending (d # key) (f_metadata sub) 0 s1 else s1)
                })
          else Some (push_pending (d # key) (f_metadata sub) (f_flags sub) s)
      | [] \<Rightarrow> Some (push_pending [] (f_metadata sub) (f_flags sub) s))"

function xpub_read_activated :: "nat \<Rightarrow> xpub \<Rightarrow> sock_pipes \<Rightarrow> (xpub \<times> sock_pipes) option" where
  "xpub_read_activated x s w =
     do {
       (r, w1) \<leftarrow> w_read x w;
       (case r of
          None \<Rightarrow> Some (s, w1)
        | Some sub \<Rightarrow> do { s1 \<leftarrow> process_sub x sub s; xpub_read_activated x s1 w1 })
     }"
  by pat_completeness auto
termination
  by (relation "measure (\<lambda>(x, s, w). w_avail x w)") (auto dest: w_read_avail(2))

declare xpub_read_activated.simps [simp del]

definition xpub_attach :: "nat \<Rightarrow> bool \<Rightarrow> xpub \<Rightarrow> sock_pipes \<Rightarrow> (xpub \<times> sock_pipes) option" where
  "xpub_attach x subscribe_to_all s w =
     do {
       d \<leftarrow> dist_attach x (xp_dist s);
       t \<leftarrow> (if subscribe_to_all then map_option snd (mtrie_add [] x (xp_subs s)) else Some (xp_subs s));
       w1 \<leftarrow> (if 0 < length (f_data (xp_welcome s))
              then do { (ok, w1) \<leftarrow> w_write x (xp_welcome s) w; zmq_assert ok; w_flush x w1 }
              else Some w);
       xpub_read_activated x (s\<lparr>xp_dist := d, xp_subs := t\<rparr>) w1
     }"

definition xpub_write_activated :: "nat \<Rightarrow> xpub \<Rightarrow> xpub option" where
  "xpub_write_activated x s = map_option (\<lambda>d. s\<lparr>xp_dist := d\<rparr>) (dist_activated x (xp_dist s))"

text \<open>\<open>xsetsockopt\<close>, by option.  A value of another size than an integer is \<open>None\<close>.\<close>

datatype xpub_option = XPUB_VERBOSE | XPUB_VERBOSER | XPUB_NODROP | XPUB_MANUAL

fun xpub_set_flag :: "xpub_option \<Rightarrow> int option \<Rightarrow> xpub \<Rightarrow> unit result \<times> xpub" where
  "xpub_set_flag opt None s = (Inl EINVAL, s)"
| "xpub_set_flag opt (Some v) s =
     (if v < 0 then (Inl EINVAL, s)
      else (Inr (),
            case opt of
              XPUB_VERBOSE \<Rightarrow> s\<lparr>xp_verbose_subs := v \<noteq> 0, xp_verbose_unsubs := False\<rparr>
            | XPUB_VERBOSER \<Rightarrow> s\<lparr>xp_verbose_subs := v \<noteq> 0, xp_verbose_unsubs := v \<noteq> 0\<rparr>
            | XPUB_NODROP \<Rightarrow> s\<lparr>xp_lossy := v = 0\<rparr>
            | XPUB_MANUAL \<Rightarrow> s\<lparr>xp_manual := v \<noteq> 0\<rparr>))"

definition xpub_set_subscribe :: "bool \<Rightarrow> byte list \<Rightarrow> xpub \<Rightarrow> (unit result \<times> xpub) option" where
  "xpub_set_subscribe sub key s =
     (if \<not> xp_manual s then Some (Inl EINVAL, s)
      else (case xp_last_pipe s of
              None \<Rightarrow> Some (Inr (), s)
            | Some x \<Rightarrow>
                do {
                  (_, t) \<leftarrow> (if sub then mtrie_add key x (xp_subs s) else mtrie_rm key x (xp_subs s));
                  Some (Inr (), s\<lparr>xp_subs := t\<rparr>)
                }))"

definition xpub_set_welcome :: "byte list \<Rightarrow> xpub \<Rightarrow> xpub" where
  "xpub_set_welcome data s = s\<lparr>xp_welcome := if 0 < length data then data_frame 0 data else empty_frame\<rparr>"

datatype xpub_setting = Set_flag xpub_option "int option" | Set_subscribe "byte list" | Set_unsubscribe "byte list"
  | Set_welcome "byte list" | Set_other

fun xpub_setsockopt :: "xpub_setting \<Rightarrow> xpub \<Rightarrow> (unit result \<times> xpub) option" where
  "xpub_setsockopt (Set_flag opt v) s = Some (xpub_set_flag opt v s)"
| "xpub_setsockopt (Set_subscribe key) s = xpub_set_subscribe True key s"
| "xpub_setsockopt (Set_unsubscribe key) s = xpub_set_subscribe False key s"
| "xpub_setsockopt (Set_welcome data) s = Some (Inr (), xpub_set_welcome data s)"
| "xpub_setsockopt Set_other s = Some (Inl EINVAL, s)"

definition send_unsubscription :: "byte list \<Rightarrow> xpub \<Rightarrow> xpub" where
  "send_unsubscription key s =
     (if xp_pub s then s
      else (let s1 = push_pending (0 # key) None 0 s in
            if xp_manual s then s1\<lparr>xp_last_pipe := None, xp_pending_pipes := xp_pending_pipes s1 @ [None]\<rparr> else s1))"

definition xpub_pipe_terminated :: "nat \<Rightarrow> xpub \<Rightarrow> xpub option" where
  "xpub_pipe_terminated x s =
     do {
       s1 \<leftarrow> (if xp_manual s
              then do {
                (calls, t) \<leftarrow> mtrie_rm_pipe x False (xp_manual_subs s);
                let s1 = fold send_unsubscription calls (s\<lparr>xp_manual_subs := t\<rparr>);
                (_, t') \<leftarrow> mtrie_rm_pipe x False (xp_subs s1);
                Some (s1\<lparr>xp_subs := t'\<rparr>)
              }
              else do {
                (calls, t) \<leftarrow> mtrie_rm_pipe x (\<not> xp_verbose_unsubs s) (xp_subs s);
                Some (fold send_unsubscription calls (s\<lparr>xp_subs := t\<rparr>))
              });
       d \<leftarrow> dist_pipe_terminated x (xp_dist s1);
       Some (s1\<lparr>xp_dist := d\<rparr>)
     }"

fun mark_as_matching :: "nat list \<Rightarrow> dist \<Rightarrow> dist option" where
  "mark_as_matching [] d = Some d"
| "mark_as_matching (x # xs) d = do { d1 \<leftarrow> dist_match x d; mark_as_matching xs d1 }"

definition xpub_send :: "frame \<Rightarrow> xpub \<Rightarrow> sock_pipes \<Rightarrow> (unit result \<times> xpub \<times> sock_pipes) option" where
  "xpub_send m s w =
     do {
       d \<leftarrow> (if \<not> xp_more s
             then do {
               xs \<leftarrow> mtrie_match (f_data m) (xp_subs s);
               d \<leftarrow> mark_as_matching xs (xp_dist s);
               (if xp_invert s then dist_reverse_match d else Some d)
             }
             else Some (xp_dist s));
       ok \<leftarrow> (if xp_lossy s then Some True else dist_check_hwm d w);
       (if ok
        then do {
          (_, d1, w1) \<leftarrow> send_to_matching m d w;
          Some (Inr (), s\<lparr>xp_dist := if f_more m then d1 else dist_unmatch d1, xp_more := f_more m\<rparr>, w1)
        }
        else Some (Inl EAGAIN, s\<lparr>xp_dist := d\<rparr>, w))
     }"

definition xpub_has_out :: "xpub \<Rightarrow> bool" where
  "xpub_has_out s = dist_has_out (xp_dist s)"

definition xpub_recv :: "xpub \<Rightarrow> (frame result \<times> xpub) option" where
  "xpub_recv s =
     (if xp_pending_data s = [] then Some (Inl EAGAIN, s)
      else (let s1 = (if xp_manual s \<and> xp_pending_pipes s \<noteq> []
                      then s\<lparr>xp_last_pipe := hd (xp_pending_pipes s), xp_pending_pipes := tl (xp_pending_pipes s)\<rparr> else s);
                m = (data_frame (hd (xp_pending_flags s)) (hd (xp_pending_data s)))\<lparr>f_metadata := hd (xp_pending_metadata s)\<rparr>
            in do {
              zmq_assert (xp_pending_metadata s \<noteq> [] \<and> xp_pending_flags s \<noteq> []);
              Some (Inr m, s1\<lparr>xp_pending_data := tl (xp_pending_data s), xp_pending_metadata := tl (xp_pending_metadata s),
                xp_pending_flags := tl (xp_pending_flags s)\<rparr>)
            }))"

definition xpub_has_in :: "xpub \<Rightarrow> bool" where
  "xpub_has_in s \<longleftrightarrow> xp_pending_data s \<noteq> []"

text \<open>The operations that \<open>pub_t\<close> changes.\<close>

definition w_set_nodelay :: "nat \<Rightarrow> sock_pipes \<Rightarrow> sock_pipes option" where
  "w_set_nodelay x w = do { (p, e) \<leftarrow> w x; Some (w(x \<mapsto> (pipe_set_nodelay p, e))) }"

definition pub_attach :: "nat \<Rightarrow> bool \<Rightarrow> xpub \<Rightarrow> sock_pipes \<Rightarrow> (xpub \<times> sock_pipes) option" where
  "pub_attach x subscribe_to_all s w = do { w1 \<leftarrow> w_set_nodelay x w; xpub_attach x subscribe_to_all s w1 }"

definition pub_recv :: "xpub \<Rightarrow> frame result \<times> xpub" where
  "pub_recv s = (Inl ENOTSUP, s)"

definition pub_has_in :: "xpub \<Rightarrow> bool" where
  "pub_has_in s = False"

section \<open>Invariant\<close>

definition xpub_ok :: "xpub \<Rightarrow> bool" where
  "xpub_ok s \<longleftrightarrow>
     dist_ok (xp_dist s) \<and> mtrie_ok (xp_subs s) \<and> mtrie_ok (xp_manual_subs s) \<and> di_more (xp_dist s) = xp_more s \<and>
     (\<forall>k. subs (xp_subs s) k \<subseteq> set (dist_pipes (xp_dist s))) \<and>
     (\<forall>k. subs (xp_manual_subs s) k \<subseteq> set (dist_pipes (xp_dist s))) \<and>
     length (xp_pending_metadata s) = length (xp_pending_data s) \<and> length (xp_pending_flags s) = length (xp_pending_data s)"

text \<open>The pipes with a subscription to a prefix of the data.\<close>

definition subscribers :: "byte list \<Rightarrow> xpub \<Rightarrow> nat set" where
  "subscribers data s = (\<Union>k \<in> set (prefixes data). subs (xp_subs s) k)"

lemma mark_as_matching_ok:
  "dist_ok d \<Longrightarrow> \<not> di_more d \<Longrightarrow> set xs \<subseteq> set (dist_pipes d) \<Longrightarrow>
   \<exists>d'. mark_as_matching xs d = Some d' \<and> dist_ok d' \<and> \<not> di_more d' \<and> set (dist_pipes d') = set (dist_pipes d) \<and>
     eligible_pipes d' = eligible_pipes d \<and> matching_pipes d' = matching_pipes d \<union> (eligible_pipes d \<inter> set xs)"
proof (induction xs arbitrary: d)
  case (Cons x xs)
  obtain d1 where d1: "dist_match x d = Some d1" "dist_ok d1" "set (dist_pipes d1) = set (dist_pipes d)"
      "eligible_pipes d1 = eligible_pipes d"
      "matching_pipes d1 = (if x \<in> eligible_pipes d then insert x (matching_pipes d) else matching_pipes d)"
    using dist_match_ok [OF Cons.prems(1,2), of x] Cons.prems(3) by auto
  have "\<not> di_more d1" using dist_match_more [OF d1(1)] Cons.prems(2) by simp
  thus ?case using Cons.IH [OF d1(2)] Cons.prems(3) d1 by (auto split: if_splits)
qed simp

text \<open>The pipes that are marked for a message.\<close>

definition marked :: "frame \<Rightarrow> xpub \<Rightarrow> nat set" where
  "marked m s =
     (let d = xp_dist s in
      if xp_more s then matching_pipes d
      else (let M = matching_pipes d \<union> (eligible_pipes d \<inter> subscribers (f_data m) s)
            in if xp_invert s then eligible_pipes d - M else M))"

lemma xpub_mark_ok:
  assumes ok: "xpub_ok s"
  shows "\<exists>d. (if \<not> xp_more s
       then do {
         xs \<leftarrow> mtrie_match (f_data m) (xp_subs s);
         d \<leftarrow> mark_as_matching xs (xp_dist s);
         (if xp_invert s then dist_reverse_match d else Some d)
       }
       else Some (xp_dist s)) = Some d \<and>
     dist_ok d \<and> di_more d = xp_more s \<and> set (dist_pipes d) = set (dist_pipes (xp_dist s)) \<and>
     eligible_pipes d = eligible_pipes (xp_dist s) \<and> matching_pipes d = marked m s"
proof (cases "xp_more s")
  case True
  thus ?thesis using ok by (simp add: xpub_ok_def marked_def)
next
  case False
  let ?xs = "concat (map (\<lambda>k. sorted_list_of_set (subs (xp_subs s) k)) (prefixes (f_data m)))"
  have t: "mtrie_ok (xp_subs s)" "dist_ok (xp_dist s)" "\<not> di_more (xp_dist s)" using ok False by (simp_all add: xpub_ok_def)
  have m: "mtrie_match (f_data m) (xp_subs s) = Some ?xs" using t(1) by (intro match_ok) (simp add: mtrie_ok_def)
  have xs: "set ?xs = subscribers (f_data m) s" using subs_finite [OF t(1)] by (simp add: subscribers_def)
  have "subscribers (f_data m) s \<subseteq> set (dist_pipes (xp_dist s))" using ok by (auto simp: xpub_ok_def subscribers_def)
  then obtain d where d: "mark_as_matching ?xs (xp_dist s) = Some d" "dist_ok d" "\<not> di_more d"
      "set (dist_pipes d) = set (dist_pipes (xp_dist s))" "eligible_pipes d = eligible_pipes (xp_dist s)"
      "matching_pipes d = matching_pipes (xp_dist s) \<union> (eligible_pipes (xp_dist s) \<inter> subscribers (f_data m) s)"
    using mark_as_matching_ok [OF t(2,3), of ?xs] unfolding xs by blast
  show ?thesis
  proof (cases "xp_invert s")
    case True
    obtain d' where "dist_reverse_match d = Some d'" "dist_ok d'" "matching_pipes d' = eligible_pipes d - matching_pipes d"
        "eligible_pipes d' = eligible_pipes d" "set (dist_pipes d') = set (dist_pipes d)"
      using dist_reverse_match_ok [OF d(2,3)] by blast
    thus ?thesis using False True m d dist_reverse_match_more [of d d'] by (simp add: marked_def Let_def)
  next
    case inv: False
    thus ?thesis using False m d by (simp add: marked_def Let_def)
  qed
qed

lemma check_hwm_all_result:
  "\<forall>x \<in> set xs. w x \<noteq> None \<Longrightarrow> check_hwm_all xs w = Some (\<forall>x \<in> set xs. w_check_hwm x w = Some True)"
  by (induction xs) (auto simp: w_check_hwm_def)

lemma dist_check_hwm_result:
  assumes "\<forall>x \<in> matching_pipes d. w x \<noteq> None"
  shows "dist_check_hwm d w = Some (\<forall>x \<in> matching_pipes d. w_check_hwm x w = Some True)"
  using check_hwm_all_result [of "take (di_matching d) (dist_pipes d)" w] assms by (simp add: dist_check_hwm_def matching_pipes_def)

lemma dist_unmatch_ok: "dist_ok d \<Longrightarrow> dist_ok (dist_unmatch d)" "matching_pipes (dist_unmatch d) = {}"
    "dist_pipes (dist_unmatch d) = dist_pipes d" "di_more (dist_unmatch d) = di_more d"
  by (auto simp: dist_unmatch_def dist_ok_def matching_pipes_def)

text \<open>What a send does, whether it succeeds or not.\<close>

lemma xpub_send_result:
  assumes ok: "xpub_ok s" and use: "\<forall>x \<in> marked m s. Option.bind (w x) (deliver m) \<noteq> None"
  shows "\<exists>r s' w'. xpub_send m s w = Some (r, s', w') \<and> xpub_ok s' \<and>
    (if xp_lossy s \<or> (\<forall>x \<in> marked m s. w_check_hwm x w = Some True)
     then r = Inr () \<and> (\<forall>x. w' x = (if x \<in> marked m s then Option.bind (w x) (deliver m) else w x)) \<and>
       (\<not> f_more m \<longrightarrow> matching_pipes (xp_dist s') = {}) \<and> xp_more s' = f_more m
     else r = Inl EAGAIN \<and> w' = w \<and> s' = s\<lparr>xp_dist := xp_dist s'\<rparr> \<and> matching_pipes (xp_dist s') = marked m s \<and>
       eligible_pipes (xp_dist s') = eligible_pipes (xp_dist s))"
proof -
  obtain d where d: "(if \<not> xp_more s
       then do {
         xs \<leftarrow> mtrie_match (f_data m) (xp_subs s);
         d \<leftarrow> mark_as_matching xs (xp_dist s);
         (if xp_invert s then dist_reverse_match d else Some d)
       }
       else Some (xp_dist s)) = Some d"
     "dist_ok d" "di_more d = xp_more s" "set (dist_pipes d) = set (dist_pipes (xp_dist s))"
     "eligible_pipes d = eligible_pipes (xp_dist s)" "matching_pipes d = marked m s"
    using xpub_mark_ok [OF ok, of m] by blast
  have wd: "\<forall>x \<in> matching_pipes d. w x \<noteq> None" using use unfolding d(6) by (metis bind_eq_None_conv)
  note H = dist_check_hwm_result [OF wd, unfolded d(6)]
  show ?thesis
  proof (cases "xp_lossy s \<or> (\<forall>x \<in> marked m s. w_check_hwm x w = Some True)")
    case True
    have "send_to_matching m d w \<noteq> None" using send_to_matching_total [OF d(2), of w m] use d(6) by simp
    then obtain refs d1 w1 where s1: "send_to_matching m d w = Some (refs, d1, w1)" by auto
    note R = send_to_matching_result [OF d(2) s1 refl, unfolded d(6)]
    have more: "di_more d1 = f_more m" using s1 by (auto simp: send_to_matching_def split: bind_splits)
    let ?s = "s\<lparr>xp_dist := if f_more m then d1 else dist_unmatch d1, xp_more := f_more m\<rparr>"
    have "xpub_send m s w = Some (Inr (), ?s, w1)"
      unfolding xpub_send_def d(1) using True H s1 by auto
    moreover have "dist_ok (xp_dist ?s) \<and> set (dist_pipes (xp_dist ?s)) = set (dist_pipes (xp_dist s)) \<and> di_more (xp_dist ?s) = f_more m"
      using R more d(4) by (simp add: dist_unmatch_ok)
    hence "xpub_ok ?s" using ok unfolding xpub_ok_def by simp
    moreover have "\<forall>x. w1 x = (if x \<in> marked m s then Option.bind (w x) (deliver m) else w x)" using R by simp
    ultimately show ?thesis using True by (intro exI [of _ "Inr ()"] exI [of _ ?s] exI [of _ w1]) (simp add: dist_unmatch_ok)
  next
    case False
    hence h: "dist_check_hwm d w = Some False" "\<not> xp_lossy s" using H by auto
    have "xpub_send m s w = Some (Inl EAGAIN, s\<lparr>xp_dist := d\<rparr>, w)" unfolding xpub_send_def d(1) using h by simp
    moreover have "xpub_ok (s\<lparr>xp_dist := d\<rparr>)" using ok d(2-4) by (simp add: xpub_ok_def)
    ultimately show ?thesis using False d(5,6) by (intro exI [of _ "Inl EAGAIN"] exI [of _ "s\<lparr>xp_dist := d\<rparr>"] exI [of _ w]) auto
  qed
qed

text \<open>
  C34. A publisher that is not in the middle of a message, and whose last send did not fail, delivers the
  first part of a message to exactly the eligible pipes with a subscription to a prefix of it, or to
  exactly the other eligible pipes if matching is inverted; nothing is written to any other pipe.  In the
  mode that does not drop messages the send fails with \<open>EAGAIN\<close> and writes nothing unless all these pipes
  are below their high watermark.
\<close>

theorem xpub_delivers:
  assumes ok: "xpub_ok s" "\<not> xp_more s" "matching_pipes (xp_dist s) = {}"
    and R: "R = {x \<in> eligible_pipes (xp_dist s). (x \<in> subscribers (f_data m) s) \<noteq> xp_invert s}"
    and use: "\<forall>x \<in> R. Option.bind (w x) (deliver m) \<noteq> None"
  shows "\<exists>r s' w'. xpub_send m s w = Some (r, s', w') \<and> xpub_ok s' \<and>
    (if xp_lossy s \<or> (\<forall>x \<in> R. w_check_hwm x w = Some True)
     then r = Inr () \<and> (\<forall>x. w' x = (if x \<in> R then Option.bind (w x) (deliver m) else w x)) \<and>
       (\<not> f_more m \<longrightarrow> matching_pipes (xp_dist s') = {})
     else r = Inl EAGAIN \<and> w' = w)"
proof -
  have "marked m s = R" using ok(2,3) by (auto simp: marked_def Let_def R)
  thus ?thesis using xpub_send_result [OF ok(1), of m w] use by fastforce
qed

text \<open>
  C35. When a send fails because of a high watermark, the pipes it marked stay marked.  A different message
  that is sent next is then also delivered to the subscribers of the message that failed, although they
  are not subscribed to it.
\<close>

theorem xpub_failed_send_leaks:
  assumes ok: "xpub_ok s" "\<not> xp_more s" "matching_pipes (xp_dist s) = {}" "\<not> xp_invert s"
    and first: "xpub_send m1 s w = Some (Inl EAGAIN, s1, w)"
    and use: "\<forall>x \<in> eligible_pipes (xp_dist s). Option.bind (w x) (deliver m1) \<noteq> None"
    and hwm: "\<forall>x \<in> eligible_pipes (xp_dist s). Option.bind (w' x) (deliver m2) \<noteq> None \<and> w_check_hwm x w' = Some True"
    and x: "x \<in> eligible_pipes (xp_dist s)" "x \<in> subscribers (f_data m1) s"
  shows "\<exists>s2 w2. xpub_send m2 s1 w' = Some (Inr (), s2, w2) \<and> w2 x = Option.bind (w' x) (deliver m2)"
proof -
  have m1: "marked m1 s = eligible_pipes (xp_dist s) \<inter> subscribers (f_data m1) s"
    using ok(2-4) by (auto simp: marked_def Let_def)
  have "\<forall>x \<in> marked m1 s. Option.bind (w x) (deliver m1) \<noteq> None" using use m1 by auto
  note S = xpub_send_result [OF ok(1) this]
  have s1: "xpub_ok s1" "s1 = s\<lparr>xp_dist := xp_dist s1\<rparr>" "matching_pipes (xp_dist s1) = marked m1 s"
      "eligible_pipes (xp_dist s1) = eligible_pipes (xp_dist s)"
    using S first by (auto split: if_splits)
  have more: "xp_more s1 = xp_more s" "xp_invert s1 = xp_invert s" by (subst s1(2), simp)+
  have mk: "marked m2 s1 = marked m1 s \<union> (eligible_pipes (xp_dist s) \<inter> subscribers (f_data m2) s1)"
    using s1(3,4) ok(2,4) more by (auto simp: marked_def Let_def)
  have "\<forall>x \<in> marked m2 s1. Option.bind (w' x) (deliver m2) \<noteq> None \<and> w_check_hwm x w' = Some True" using hwm mk m1 by auto
  thus ?thesis using xpub_send_result [OF s1(1), of m2 w'] x m1 mk by fastforce
qed

section \<open>The other operations\<close>

text \<open>What a message from a subscriber does to the subscriptions, and when it is legal.\<close>

definition sub_effect :: "byte list \<Rightarrow> nat \<Rightarrow> (byte list \<Rightarrow> nat set) \<Rightarrow> byte list \<Rightarrow> nat set" where
  "sub_effect data x S =
     (case data of d # k \<Rightarrow> if d = 0 then S(k := S k - {x}) else if d = 1 then S(k := insert x (S k)) else S | [] \<Rightarrow> S)"

definition sub_legal :: "byte list \<Rightarrow> nat \<Rightarrow> (byte list \<Rightarrow> nat set) \<Rightarrow> bool" where
  "sub_legal data x S \<longleftrightarrow> (case data of d # k \<Rightarrow> d = 0 \<longrightarrow> x \<in> S k \<or> S k = {} | [] \<Rightarrow> True)"

lemma mtrie_sub:
  assumes "mtrie_ok t" "d = 0 \<or> d = 1"
  shows "if sub_legal (d # k) x (subs t)
    then \<exists>u t'. (if d = 0 then mtrie_rm k x t else mtrie_add k x t) = Some (u, t') \<and> mtrie_ok t' \<and> subs t' = sub_effect (d # k) x (subs t)
    else (if d = 0 then mtrie_rm k x t else mtrie_add k x t) = None"
proof (cases "d = 0")
  case True
  thus ?thesis using mtrie_rm_ok [OF assms(1), of x k] mtrie_rm_fails [OF assms(1), of x k] by (auto simp: sub_legal_def sub_effect_def)
next
  case False
  thus ?thesis using mtrie_add_ok [OF assms(1), of k x] assms(2) by (auto simp: sub_legal_def sub_effect_def)
qed

lemma push_pending_ok [simp]:
  "xpub_ok (push_pending data md fl s) = xpub_ok s" "xp_dist (push_pending data md fl s) = xp_dist s"
  "xp_subs (push_pending data md fl s) = xp_subs s" "xp_manual_subs (push_pending data md fl s) = xp_manual_subs s"
  "xp_manual (push_pending data md fl s) = xp_manual s"
  by (simp_all add: push_pending_def xpub_ok_def)

lemma sub_effect_subset: "\<forall>k. S k \<subseteq> P \<Longrightarrow> x \<in> P \<Longrightarrow> sub_effect data x S k \<subseteq> P"
  by (auto simp: sub_effect_def split: list.splits)

definition sub_target :: "xpub \<Rightarrow> mtrie" where
  "sub_target s = (if xp_manual s then xp_manual_subs s else xp_subs s)"

lemma process_sub_ok:
  assumes ok: "xpub_ok s" and x: "x \<in> set (dist_pipes (xp_dist s))"
  shows "if sub_legal (f_data sub) x (subs (sub_target s))
    then \<exists>s'. process_sub x sub s = Some s' \<and> xpub_ok s' \<and> xp_dist s' = xp_dist s \<and> xp_manual s' = xp_manual s \<and>
      subs (sub_target s') = sub_effect (f_data sub) x (subs (sub_target s))
    else process_sub x sub s = None"
proof (cases "\<exists>d key. f_data sub = d # key \<and> (d = 0 \<or> d = 1)")
  case True
  then obtain d key where d: "f_data sub = d # key" "d = 0 \<or> d = 1" by blast
  have t: "mtrie_ok (sub_target s)" "\<forall>k. subs (sub_target s) k \<subseteq> set (dist_pipes (xp_dist s))"
    using ok by (simp_all add: xpub_ok_def sub_target_def)
  note M = mtrie_sub [OF t(1) d(2), of key x]
  note sub = sub_effect_subset [OF t(2) x, of "d # key"]
  show ?thesis
  proof (cases "sub_legal (d # key) x (subs (sub_target s))")
    case legal: True
    then obtain u t' where t': "(if d = 0 then mtrie_rm key x (sub_target s) else mtrie_add key x (sub_target s)) = Some (u, t')"
        "mtrie_ok t'" "subs t' = sub_effect (d # key) x (subs (sub_target s))" using M by (auto split: if_splits)
    have ok': "xp_manual s \<Longrightarrow> xpub_ok (s\<lparr>xp_manual_subs := t', xp_pending_pipes := ps\<rparr>)" "\<not> xp_manual s \<Longrightarrow> xpub_ok (s\<lparr>xp_subs := t'\<rparr>)" for ps
      using ok t' sub by (simp_all add: xpub_ok_def)
    show ?thesis
    proof (cases "xp_manual s")
      case man: True
      let ?s = "push_pending (d # key) (f_metadata sub) 0 (s\<lparr>xp_manual_subs := t', xp_pending_pipes := xp_pending_pipes s @ [Some x]\<rparr>)"
      have tgt: "sub_target s = xp_manual_subs s" "sub_target ?s = t'" using man by (simp_all add: sub_target_def)
      have "process_sub x sub s = Some ?s" using d(2) man t'(1) by (cases "d = 0") (simp_all add: process_sub_def tgt d(1))
      thus ?thesis using legal t'(3) ok'(1) [OF man] d(1) tgt man by simp
    next
      case man: False
      have tgt: "sub_target s = xp_subs s" using man by (simp add: sub_target_def)
      obtain s' where "process_sub x sub s = Some s'" "s' = s\<lparr>xp_subs := t'\<rparr> \<or> s' = push_pending (d # key) (f_metadata sub) 0 (s\<lparr>xp_subs := t'\<rparr>)"
        using d(2) man t'(1) by (cases "d = 0") (auto simp: process_sub_def tgt d(1) Let_def)
      moreover have "xpub_ok s' \<and> xp_dist s' = xp_dist s \<and> xp_manual s' = xp_manual s \<and> sub_target s' = t'"
        using calculation(2) ok'(2) [OF man] man by (auto simp: sub_target_def)
      ultimately show ?thesis using legal t'(3) d(1) tgt by auto
    qed
  next
    case False
    thus ?thesis using M d by (auto simp: process_sub_def sub_target_def split: if_splits)
  qed
next
  case False
  hence "process_sub x sub s = Some (push_pending (f_data sub) (f_metadata sub) (f_flags sub) s)"
    by (auto simp: process_sub_def split: list.splits)
  moreover have "sub_legal (f_data sub) x S" "sub_effect (f_data sub) x S = S" for S
    using False by (auto simp: sub_legal_def sub_effect_def split: list.splits)
  ultimately show ?thesis using ok by (simp add: sub_target_def)
qed

lemma xpub_read_activated_ok:
  "xpub_read_activated x s w = Some (s', w') \<Longrightarrow> xpub_ok s \<Longrightarrow> x \<in> set (dist_pipes (xp_dist s)) \<Longrightarrow>
   xpub_ok s' \<and> xp_dist s' = xp_dist s"
proof (induction x s w rule: xpub_read_activated.induct)
  case (1 x s w)
  obtain r w1 where r: "w_read x w = Some (r, w1)"
    using 1(2) by (auto simp: xpub_read_activated.simps [of x] split: bind_splits)
  show ?case
  proof (cases r)
    case None
    thus ?thesis using 1(2,3) r by (simp add: xpub_read_activated.simps [of x])
  next
    case (Some sub)
    then obtain s1 where s1: "process_sub x sub s = Some s1" "xpub_read_activated x s1 w1 = Some (s', w')"
      using 1(2) r by (auto simp: xpub_read_activated.simps [of x] split: bind_splits)
    hence "xpub_ok s1" "xp_dist s1 = xp_dist s" using process_sub_ok [OF 1(3,4), of sub] by (auto split: if_splits)
    thus ?thesis using 1(1) [OF r refl Some s1] 1(4) by simp
  qed
qed

lemma dist_more_kept:
  "dist_attach x d = Some d' \<Longrightarrow> di_more d' = di_more d" "dist_activated x d = Some d' \<Longrightarrow> di_more d' = di_more d"
  "dist_pipe_terminated x d = Some d' \<Longrightarrow> di_more d' = di_more d"
  by (auto simp: dist_attach_def dist_activated_def dist_pipe_terminated_def Let_def split: bind_splits if_splits)

lemma xpub_attach_ok:
  assumes ok: "xpub_ok s" and x: "x \<notin> set (dist_pipes (xp_dist s))" and a: "xpub_attach x all s w = Some (s', w')"
  shows "xpub_ok s' \<and> set (dist_pipes (xp_dist s')) = insert x (set (dist_pipes (xp_dist s)))"
proof -
  obtain d t w1 where r: "dist_attach x (xp_dist s) = Some d"
      "(if all then map_option snd (mtrie_add [] x (xp_subs s)) else Some (xp_subs s)) = Some t"
      "xpub_read_activated x (s\<lparr>xp_dist := d, xp_subs := t\<rparr>) w1 = Some (s', w')"
    using a by (auto simp: xpub_attach_def bind_eq_Some_conv)
  have o: "dist_ok (xp_dist s)" "mtrie_ok (xp_subs s)" using ok by (simp_all add: xpub_ok_def)
  have d: "dist_ok d" "set (dist_pipes d) = insert x (set (dist_pipes (xp_dist s)))" "di_more d = di_more (xp_dist s)"
    using dist_attach_ok [OF o(1) x] r(1) dist_more_kept(1) [OF r(1)] by auto
  have t: "mtrie_ok t" "\<forall>k. subs t k \<subseteq> insert x (subs (xp_subs s) k)"
    using r(2) o(2) mtrie_add_ok [OF o(2), of "[]" x] by (auto split: if_splits)
  have "\<forall>k. subs (xp_subs s) k \<subseteq> set (dist_pipes (xp_dist s))" using ok by (simp add: xpub_ok_def)
  hence "\<forall>k. subs t k \<subseteq> set (dist_pipes d)" using t(2) d(2) by blast
  hence "xpub_ok (s\<lparr>xp_dist := d, xp_subs := t\<rparr>)" using ok d t(1) by (simp add: xpub_ok_def subset_insertI2)
  thus ?thesis using xpub_read_activated_ok [OF r(3)] d(2) by simp
qed

lemma send_unsubscription_kept:
  "let s' = fold send_unsubscription ks s in xpub_ok s' = xpub_ok s \<and> xp_dist s' = xp_dist s \<and> xp_subs s' = xp_subs s \<and>
     xp_manual_subs s' = xp_manual_subs s \<and> xp_more s' = xp_more s"
proof (induction ks arbitrary: s)
  case (Cons k ks)
  let ?s = "send_unsubscription k s"
  have "xpub_ok ?s = xpub_ok s \<and> xp_dist ?s = xp_dist s \<and> xp_subs ?s = xp_subs s \<and> xp_manual_subs ?s = xp_manual_subs s \<and> xp_more ?s = xp_more s"
    by (auto simp: send_unsubscription_def push_pending_def xpub_ok_def Let_def)
  thus ?case using Cons.IH [of ?s] by (simp add: Let_def)
qed simp

lemma xpub_dist_removed:
  assumes ok: "xpub_ok s" and x: "x \<in> set (dist_pipes (xp_dist s))" "\<forall>k. x \<notin> subs (xp_subs s) k" "\<forall>k. x \<notin> subs (xp_manual_subs s) k"
  shows "\<exists>d. dist_pipe_terminated x (xp_dist s) = Some d \<and> xpub_ok (s\<lparr>xp_dist := d\<rparr>) \<and>
    set (dist_pipes d) = set (dist_pipes (xp_dist s)) - {x}"
proof -
  have "dist_ok (xp_dist s)" using ok by (simp add: xpub_ok_def)
  then obtain d where d: "dist_pipe_terminated x (xp_dist s) = Some d" "dist_ok d" "set (dist_pipes d) = set (dist_pipes (xp_dist s)) - {x}"
    using dist_pipe_terminated_ok [OF _ x(1)] by metis
  have "xpub_ok (s\<lparr>xp_dist := d\<rparr>)"
    using ok d(2) x(2,3) dist_more_kept(3) [OF d(1)] by (simp add: xpub_ok_def d(3) subset_Diff_insert)
  thus ?thesis using d by blast
qed

lemma xpub_set_subs_ok:
  assumes "xpub_ok s" "mtrie_ok t"
  shows "\<forall>k. subs t k \<subseteq> subs (xp_subs s) k \<Longrightarrow> xpub_ok (s\<lparr>xp_subs := t\<rparr>)"
    "\<forall>k. subs t k \<subseteq> subs (xp_manual_subs s) k \<Longrightarrow> xpub_ok (s\<lparr>xp_manual_subs := t\<rparr>)"
  using assms unfolding xpub_ok_def by (simp_all, meson subset_trans, meson subset_trans)

lemma xpub_pipe_terminated_ok:
  assumes ok: "xpub_ok s" and x: "x \<in> set (dist_pipes (xp_dist s))" and man: "\<not> xp_manual s \<Longrightarrow> \<forall>k. x \<notin> subs (xp_manual_subs s) k"
  shows "\<exists>s'. xpub_pipe_terminated x s = Some s' \<and> xpub_ok s' \<and> subs (xp_subs s') = (\<lambda>k. subs (xp_subs s) k - {x}) \<and>
    set (dist_pipes (xp_dist s')) = set (dist_pipes (xp_dist s)) - {x}"
proof -
  have o: "mtrie_ok (xp_subs s)" "mtrie_ok (xp_manual_subs s)" using ok by (simp_all add: xpub_ok_def)
  let ?u = "\<not> xp_manual s \<and> \<not> xp_verbose_unsubs s"
  obtain c t where t: "mtrie_rm_pipe x ?u (xp_subs s) = Some (c, t)" "mtrie_ok t" "subs t = (\<lambda>k. subs (xp_subs s) k - {x})"
    using mtrie_rm_pipe_ok [OF o(1), of x ?u] by blast
  obtain c' t' where t': "mtrie_rm_pipe x False (xp_manual_subs s) = Some (c', t')" "mtrie_ok t'"
      "subs t' = (\<lambda>k. subs (xp_manual_subs s) k - {x})"
    using mtrie_rm_pipe_ok [OF o(2), of x False] by blast
  note kept = send_unsubscription_kept [unfolded Let_def]
  show ?thesis
  proof (cases "xp_manual s")
    case True
    let ?s0 = "fold send_unsubscription c' (s\<lparr>xp_manual_subs := t'\<rparr>)"
    have s0: "xpub_ok ?s0" "xp_dist ?s0 = xp_dist s" "xp_subs ?s0 = xp_subs s" "xp_manual_subs ?s0 = t'"
      using kept [of c' "s\<lparr>xp_manual_subs := t'\<rparr>"] xpub_set_subs_ok(2) [OF ok t'(2)] t'(3) by auto
    have "xpub_ok (?s0\<lparr>xp_subs := t\<rparr>)" using xpub_set_subs_ok(1) [OF s0(1) t(2)] t(3) s0(3) by simp
    then obtain d where "dist_pipe_terminated x (xp_dist s) = Some d" "xpub_ok (?s0\<lparr>xp_subs := t, xp_dist := d\<rparr>)"
        "set (dist_pipes d) = set (dist_pipes (xp_dist s)) - {x}"
      using xpub_dist_removed [of "?s0\<lparr>xp_subs := t\<rparr>" x] x t(3) t'(3) s0 by auto
    thus ?thesis using True t t' s0 by (simp add: xpub_pipe_terminated_def)
  next
    case False
    let ?s1 = "fold send_unsubscription c (s\<lparr>xp_subs := t\<rparr>)"
    have s1: "xpub_ok ?s1" "xp_dist ?s1 = xp_dist s" "xp_subs ?s1 = t" "xp_manual_subs ?s1 = xp_manual_subs s"
      using kept [of c "s\<lparr>xp_subs := t\<rparr>"] xpub_set_subs_ok(1) [OF ok t(2)] t(3) by auto
    then obtain d where "dist_pipe_terminated x (xp_dist s) = Some d" "xpub_ok (?s1\<lparr>xp_dist := d\<rparr>)"
        "set (dist_pipes d) = set (dist_pipes (xp_dist s)) - {x}"
      using xpub_dist_removed [of ?s1 x] x t(3) man [OF False] by auto
    thus ?thesis using False t s1 by (simp add: xpub_pipe_terminated_def)
  qed
qed

lemma xpub_recv_ok:
  assumes "xpub_ok s"
  shows "\<exists>r s'. xpub_recv s = Some (r, s') \<and> xpub_ok s' \<and>
    (case xp_pending_data s of [] \<Rightarrow> r = Inl EAGAIN \<and> s' = s
     | d # ds \<Rightarrow> \<exists>m. r = Inr m \<and> f_data m = d \<and> xp_pending_data s' = ds)"
proof (cases "xp_pending_data s")
  case Nil
  thus ?thesis using assms by (simp add: xpub_recv_def)
next
  case (Cons d ds)
  hence "xp_pending_metadata s \<noteq> []" "xp_pending_flags s \<noteq> []" using assms by (auto simp: xpub_ok_def)
  thus ?thesis using Cons assms by (auto simp: xpub_recv_def Let_def xpub_ok_def data_frame_def)
qed

lemma xpub_ok_settings [simp]:
  "xpub_ok (s\<lparr>xp_verbose_subs := a, xp_verbose_unsubs := b\<rparr>) = xpub_ok s" "xpub_ok (s\<lparr>xp_lossy := b\<rparr>) = xpub_ok s"
  "xpub_ok (s\<lparr>xp_manual := b\<rparr>) = xpub_ok s" "xpub_ok (s\<lparr>xp_welcome := m\<rparr>) = xpub_ok s"
  by (simp_all add: xpub_ok_def)

lemma xpub_setsockopt_ok:
  assumes ok: "xpub_ok s" and last: "\<And>y. xp_last_pipe s = Some y \<Longrightarrow> y \<in> set (dist_pipes (xp_dist s))"
    and r: "xpub_setsockopt st s = Some (r, s')"
  shows "xpub_ok s'"
proof -
  have sub: "xpub_ok s'" if r: "xpub_set_subscribe b key s = Some (r, s')" for b key
  proof (cases "\<not> xp_manual s \<or> xp_last_pipe s = None")
    case True
    thus ?thesis using r ok by (auto simp: xpub_set_subscribe_def split: if_splits)
  next
    case False
    then obtain y where y: "xp_manual s" "xp_last_pipe s = Some y" by auto
    let ?d = "if b then 1 else 0 :: byte"
    obtain u t where t: "(if ?d = 0 then mtrie_rm key y (xp_subs s) else mtrie_add key y (xp_subs s)) = Some (u, t)" "s' = s\<lparr>xp_subs := t\<rparr>"
      using r y by (cases b) (auto simp: xpub_set_subscribe_def split: bind_splits)
    have "mtrie_ok (xp_subs s)" "\<forall>k. subs (xp_subs s) k \<subseteq> set (dist_pipes (xp_dist s))" using ok by (simp_all add: xpub_ok_def)
    hence "mtrie_ok t" "\<forall>k. subs t k \<subseteq> set (dist_pipes (xp_dist s))"
      using mtrie_sub [of "xp_subs s" ?d key y] t(1) sub_effect_subset [OF _ last [OF y(2)]] by (auto split: if_splits)
    thus ?thesis using ok t(2) by (simp add: xpub_ok_def)
  qed
  show ?thesis
  proof (cases st)
    case (Set_flag opt v)
    thus ?thesis using r ok
      by (cases "(opt, v, s)" rule: xpub_set_flag.cases) (auto split: if_splits xpub_option.splits)
  qed (use r ok sub in \<open>auto simp: xpub_set_welcome_def\<close>)
qed


text \<open>A publisher with one pipe that is subscribed to one prefix.\<close>

lemma one_subscriber:
  obtains s where "xpub_ok s" "\<not> xp_more s" "matching_pipes (xp_dist s) = {}" "eligible_pipes (xp_dist s) = {0}"
    "\<not> xp_invert s" "xp_lossy s = lossy" "\<forall>ds. subscribers ds s = (if prefix k ds then {0} else {})"
proof -
  obtain t where t: "mtrie_add k 0 mtrie_new = Some (True, t)" "mtrie_ok t" "subs t = (\<lambda>_. {})(k := {0})"
    using mtrie_add_ok [OF mtrie_new_ok(1), of k 0] by (auto simp: mtrie_new_ok)
  let ?s = "(xpub_new False False)\<lparr>xp_subs := t, xp_lossy := lossy, xp_dist :=
    \<lparr>di_pipes = \<lparr>ar_items = [0], ar_index = int\<rparr>, di_matching = 0, di_active = 1, di_eligible = 1, di_more = False\<rparr>\<rparr>"
  show thesis
  proof (rule that [of ?s])
    show "xpub_ok ?s"
      using t by (auto simp: xpub_ok_def xpub_new_def mtrie_new_ok dist_ok_def arr_ok_def arr_size_def)
    show "\<forall>ds. subscribers ds ?s = (if prefix k ds then {0} else {})" using t by (auto simp: subscribers_def)
  qed (simp_all add: xpub_new_def matching_pipes_def eligible_pipes_def)
qed

lemma ready_deliver: "\<not> f_more m \<Longrightarrow> deliver m ready_pipe \<noteq> None" "check_hwm (fst ready_pipe)"
  by (simp_all add: deliver_def ready_pipe_def pipe_write_def pipe_check_write_def pipe_new_def check_hwm_def pipe_flush_def
      set_up_def)

definition full_pipe :: "pipe \<times> pipe_env" where
  "full_pipe = ((fst ready_pipe)\<lparr>pp_hwm := 1, pp_msgs_written := 1\<rparr>, snd ready_pipe)"

lemma full_deliver: "deliver m full_pipe \<noteq> None" "\<not> check_hwm (fst full_pipe)"
  by (simp_all add: full_pipe_def deliver_def ready_pipe_def pipe_write_def pipe_check_write_def pipe_new_def check_hwm_def)

theorem xpub_delivers_witness:
  "\<exists>s s' w'. xpub_ok s \<and> subscribers [97, 98] s = {0} \<and>
     xpub_send (data_frame 0 [97, 98]) s [0 \<mapsto> ready_pipe] = Some (Inr (), s', w') \<and>
     w' 0 = deliver (data_frame 0 [97, 98]) ready_pipe \<and> xpub_ok s'"
proof -
  let ?m = "data_frame 0 [97, 98]"
  have m: "\<not> f_more ?m" "f_data ?m = [97, 98]" by (simp_all add: f_more_def data_frame_def has_flag_def)
  obtain s where s: "xpub_ok s" "\<not> xp_more s" "matching_pipes (xp_dist s) = {}" "eligible_pipes (xp_dist s) = {0}"
      "\<not> xp_invert s" "xp_lossy s = True" "\<forall>ds. subscribers ds s = (if prefix [97] ds then {0} else {})"
    by (rule one_subscriber)
  have R: "{0} = {x \<in> eligible_pipes (xp_dist s). (x \<in> subscribers (f_data ?m) s) \<noteq> xp_invert s}" using s m by auto
  obtain s' w' where "xpub_send ?m s [0 \<mapsto> ready_pipe] = Some (Inr (), s', w')" "xpub_ok s'" "w' 0 = deliver ?m ready_pipe"
    using xpub_delivers [OF s(1-3) R, of "[0 \<mapsto> ready_pipe]"] s(6) ready_deliver(1) [OF m(1)] by auto
  thus ?thesis using s(1,7) by (intro exI [of _ s] exI [of _ s'] exI [of _ w']) simp
qed

theorem xpub_failed_send_leaks_witness:
  "\<exists>s s1 s2 w2. subscribers [97] s = {0} \<and> subscribers [98] s = {} \<and>
     xpub_send (data_frame 0 [97]) s [0 \<mapsto> full_pipe] = Some (Inl EAGAIN, s1, [0 \<mapsto> full_pipe]) \<and>
     xpub_send (data_frame 0 [98]) s1 [0 \<mapsto> ready_pipe] = Some (Inr (), s2, w2) \<and>
     w2 0 = deliver (data_frame 0 [98]) ready_pipe"
proof -
  let ?m = "data_frame 0 [97]" and ?n = "data_frame 0 [98]"
  have m: "f_data ?m = [97]" "\<not> f_more ?n" by (simp_all add: f_more_def data_frame_def has_flag_def)
  obtain s where s: "xpub_ok s" "\<not> xp_more s" "matching_pipes (xp_dist s) = {}" "eligible_pipes (xp_dist s) = {0}"
      "\<not> xp_invert s" "xp_lossy s = False" "\<forall>ds. subscribers ds s = (if prefix [97] ds then {0} else {})"
    by (rule one_subscriber)
  have mk: "marked ?m s = {0}" using s m by (auto simp: marked_def Let_def)
  obtain s1 where s1: "xpub_send ?m s [0 \<mapsto> full_pipe] = Some (Inl EAGAIN, s1, [0 \<mapsto> full_pipe])"
    using xpub_send_result [OF s(1), of ?m "[0 \<mapsto> full_pipe]"] s(6) mk full_deliver
    by (auto simp: w_check_hwm_def split_beta)
  obtain s2 w2 where "xpub_send ?n s1 [0 \<mapsto> ready_pipe] = Some (Inr (), s2, w2)" "w2 0 = deliver ?n ready_pipe"
    using xpub_failed_send_leaks [OF s(1-3,5) s1, of "[0 \<mapsto> ready_pipe]" ?n 0] s(4,7) m(1) full_deliver(1)
      ready_deliver(1) [OF m(2)] ready_deliver(2)
    by (auto simp: w_check_hwm_def split_beta)
  thus ?thesis using s(7) s1 by (intro exI [of _ s] exI [of _ s1] exI [of _ s2] exI [of _ w2]) simp
qed


end
