(* ===== verification/Fq.thy ===== *)
theory Fq
  imports Sock_Pipes
begin

text \<open>
  Fair queueing of inbound messages (\<open>src/fq.cpp\<close>).  \<open>None\<close> in the result of a receive is
  the error \<open>EAGAIN\<close>.
\<close>

record fq = ring +
  fq_last_in :: "nat option"
  fq_more :: bool
  fq_saved_credential :: "byte list"

definition fq_new :: fq where
  "fq_new = \<lparr>rg_pipes = arr_new, rg_active = 0, rg_current = 0, fq_last_in = None, fq_more = False,
     fq_saved_credential = []\<rparr>"

definition fq_attach :: "nat \<Rightarrow> fq \<Rightarrow> fq option" where
  "fq_attach x f =
     (let ps = arr_push_back x (rg_pipes f) in
      do {
        ps' \<leftarrow> arr_swap (rg_active f) (arr_size ps - 1) ps;
        Some (f\<lparr>rg_pipes := ps', rg_active := rg_active f + 1\<rparr>)
      })"

definition fq_pipe_terminated :: "nat \<Rightarrow> sock_pipes \<Rightarrow> fq \<Rightarrow> fq option" where
  "fq_pipe_terminated x w f =
     do {
       f1 \<leftarrow> ring_remove x f;
       (if fq_last_in f1 = Some x
        then do { c \<leftarrow> w_credential x w; Some (f1\<lparr>fq_saved_credential := c, fq_last_in := None\<rparr>) }
        else Some f1)
     }"

definition fq_activated :: "nat \<Rightarrow> fq \<Rightarrow> fq option" where
  "fq_activated x f = ring_activated x f"

function fq_recvpipe :: "fq \<Rightarrow> sock_pipes \<Rightarrow> ((frame \<times> nat) option \<times> fq \<times> sock_pipes) option" where
  "fq_recvpipe f w =
     (if rg_active f = 0 then Some (None, f, w)
      else do {
        x \<leftarrow> arr_at (rg_current f) (rg_pipes f);
        (r, w') \<leftarrow> w_read x w;
        (case r of
           Some m \<Rightarrow>
             (let f1 = f\<lparr>fq_more := f_more m\<rparr>;
                  f2 = (if \<not> f_more m
                        then f1\<lparr>fq_last_in := Some x, rg_current := (rg_current f + 1) mod rg_active f\<rparr>
                        else f1)
              in Some (Some (m, x), f2, w'))
         | None \<Rightarrow>
             do {
               zmq_assert (\<not> fq_more f);
               f1 \<leftarrow> ring_deactivate (rg_current f) f;
               fq_recvpipe f1 w'
             })
      })"
  by pat_completeness auto
termination
  by (relation "measure (\<lambda>(f, w). rg_active f)") (auto dest: ring_deactivate_less)

declare fq_recvpipe.simps [simp del]

definition fq_recv :: "fq \<Rightarrow> sock_pipes \<Rightarrow> (frame option \<times> fq \<times> sock_pipes) option" where
  "fq_recv f w = map_option (map_prod (map_option fst) id) (fq_recvpipe f w)"

function fq_poll :: "fq \<Rightarrow> sock_pipes \<Rightarrow> (bool \<times> fq \<times> sock_pipes) option" where
  "fq_poll f w =
     (if rg_active f = 0 then Some (False, f, w)
      else do {
        x \<leftarrow> arr_at (rg_current f) (rg_pipes f);
        (r, w') \<leftarrow> w_check_read x w;
        (if r then Some (True, f, w')
         else do { f1 \<leftarrow> ring_deactivate (rg_current f) f; fq_poll f1 w' })
      })"
  by pat_completeness auto
termination
  by (relation "measure (\<lambda>(f, w). rg_active f)") (auto dest: ring_deactivate_less)

declare fq_poll.simps [simp del]

definition fq_has_in :: "fq \<Rightarrow> sock_pipes \<Rightarrow> (bool \<times> fq \<times> sock_pipes) option" where
  "fq_has_in f w = (if fq_more f then Some (True, f, w) else fq_poll f w)"

definition fq_get_credential :: "fq \<Rightarrow> sock_pipes \<Rightarrow> byte list option" where
  "fq_get_credential f w =
     (case fq_last_in f of Some x \<Rightarrow> w_credential x w | None \<Rightarrow> Some (fq_saved_credential f))"

text \<open>The number of frames in the pipes of the queue.\<close>

definition fq_avail :: "fq \<Rightarrow> sock_pipes \<Rightarrow> nat" where
  "fq_avail f w = (\<Sum>x \<in> set (ring_pipes f). w_avail x w)"

lemma arr_swap_set: "arr_swap i j a = Some a' \<Longrightarrow> set (ar_items a') = set (ar_items a)"
  using set_swap [of i "ar_items a" j] by (auto simp: arr_swap_def arr_size_def Let_def split: if_splits)

lemma arr_at_set: "arr_at i a = Some x \<Longrightarrow> x \<in> set (ar_items a)"
  by (auto simp: arr_at_def arr_size_def split: if_splits)

lemma fq_recvpipe_avail:
  "fq_recvpipe f w = Some (r, f', w') \<Longrightarrow>
     set (ring_pipes f') = set (ring_pipes f) \<and> fq_avail f' w' \<le> fq_avail f w \<and> (r \<noteq> None \<longrightarrow> fq_avail f' w' < fq_avail f w)"
proof (induction f w rule: fq_recvpipe.induct)
  case (1 f w)
  show ?case
  proof (cases "rg_active f = 0")
    case True
    thus ?thesis using 1(2) by (simp add: fq_recvpipe.simps [of f])
  next
    case False
    obtain x q w1 where q: "arr_at (rg_current f) (rg_pipes f) = Some x" "w_read x w = Some (q, w1)"
      using 1(2) False by (auto simp: fq_recvpipe.simps [of f] split: bind_splits)
    have x: "x \<in> set (ring_pipes f)" using q(1) by (rule arr_at_set)
    have le: "(\<Sum>y \<in> set (ring_pipes f). w_avail y w1) \<le> (\<Sum>y \<in> set (ring_pipes f). w_avail y w)"
      by (intro sum_mono w_read_avail(1) [OF q(2)])
    show ?thesis
    proof (cases q)
      case (Some m)
      have "(\<Sum>y \<in> set (ring_pipes f). w_avail y w1) < (\<Sum>y \<in> set (ring_pipes f). w_avail y w)"
        using w_read_avail [OF q(2)] Some x by (intro sum_strict_mono_ex1) auto
      thus ?thesis using 1(2) False q Some by (auto simp: fq_recvpipe.simps [of f] Let_def fq_avail_def split: if_splits)
    next
      case None
      then obtain f1 where f1: "zmq_assert (\<not> fq_more f) = Some ()" "ring_deactivate (rg_current f) f = Some f1"
          "fq_recvpipe f1 w1 = Some (r, f', w')"
        using 1(2) False q by (auto simp: fq_recvpipe.simps [of f] split: bind_splits if_splits)
      have "set (ring_pipes f1) = set (ring_pipes f)"
        using f1(2) by (auto simp: ring_deactivate_def Let_def dest: arr_swap_set split: bind_splits)
      thus ?thesis using 1(1) [OF False q refl None f1] le by (auto simp: fq_avail_def)
    qed
  qed
qed

lemma fq_recv_avail:
  "fq_recv f w = Some (r, f', w') \<Longrightarrow> fq_avail f' w' \<le> fq_avail f w \<and> (r \<noteq> None \<longrightarrow> fq_avail f' w' < fq_avail f w)"
  using fq_recvpipe_avail [of f w] by (fastforce simp: fq_recv_def)

section \<open>No pipe starves\<close>

fun fq_recvs :: "nat \<Rightarrow> fq \<Rightarrow> sock_pipes \<Rightarrow> ((frame \<times> nat) option list \<times> fq \<times> sock_pipes) option" where
  "fq_recvs 0 f w = Some ([], f, w)"
| "fq_recvs (Suc n) f w =
     do {
       (r, f1, w1) \<leftarrow> fq_recvpipe f w;
       (rs, f2, w2) \<leftarrow> fq_recvs n f1 w1;
       Some (r # rs, f2, w2)
     }"

text \<open>The number of complete messages among some results.\<close>

definition messages :: "(frame \<times> nat) option list \<Rightarrow> nat" where
  "messages rs = length (filter (\<lambda>r. case r of Some (m, x) \<Rightarrow> \<not> f_more m | None \<Rightarrow> False) rs)"

lemma fq_ring [simp]:
  "ring_ok (f\<lparr>fq_more := b\<rparr>) = ring_ok f" "waits x (f\<lparr>fq_more := b\<rparr>) n = waits x f n"
  "ring_ok (f\<lparr>fq_last_in := l\<rparr>) = ring_ok f" "waits x (f\<lparr>fq_last_in := l\<rparr>) n = waits x f n"
  by (simp_all add: ring_ok_def waits_def)

text \<open>
  The next result while a pipe \<open>x\<close> has something to read: it is from \<open>x\<close>, or from another pipe,
  and then \<open>x\<close> does not fall back, and comes nearer when the message is complete.
\<close>

lemma fq_recvpipe_step:
  assumes "fq_recvpipe f w = Some (r, f', w')" "ring_ok f" "waits x f n"
    "w_read x w = Some (Some m, v)"
  shows "\<exists>m' y. r = Some (m', y) \<and> (y \<noteq> x \<longrightarrow> w' x = w x \<and> ring_ok f' \<and>
    (\<exists>k. waits x f' k \<and> k \<le> n \<and> (\<not> f_more m' \<longrightarrow> k < n)))"
  using assms
proof (induction f w arbitrary: v n rule: fq_recvpipe.induct)
  case (1 f w)
  have act: "rg_active f \<noteq> 0" using 1(4) by (auto simp: waits_def)
  let ?y = "ring_pipes f ! rg_current f"
  have at: "arr_at (rg_current f) (rg_pipes f) = Some ?y" using ring_current_at [OF 1(3)] act by simp
  have cur: "rg_current f < rg_active f" using 1(3) act by (auto simp: ring_ok_def)
  obtain q w1 where q: "w_read ?y w = Some (q, w1)" using 1(2) act at
    by (auto simp: fq_recvpipe.simps [of f] split: bind_splits)
  show ?case
  proof (cases "?y = x")
    case True
    hence "q = Some m" using q 1(5) by simp
    thus ?thesis using 1(2) act at q True by (auto simp: fq_recvpipe.simps [of f] Let_def split: if_splits)
  next
    case False
    have keep: "w1 x = w x" using w_other(1) [OF q, of x] False by auto
    show ?thesis
    proof (cases q)
      case (Some m')
      have md: "(rg_current f + 1) mod rg_active f = (if Suc (rg_current f) < rg_active f then Suc (rg_current f) else 0)"
        using cur by (auto simp: mod_Suc)
      note nx = ring_next_waits [OF 1(3,4) False md]
      show ?thesis
      proof (cases "f_more m'")
        case True
        thus ?thesis using 1(2,3,4) act at q Some keep
          by (auto simp: fq_recvpipe.simps [of f])
      next
        case last: False
        have "f' = f\<lparr>fq_more := f_more m', fq_last_in := Some ?y, rg_current := (rg_current f + 1) mod rg_active f\<rparr>"
          and r: "r = Some (m', ?y)" "w' = w1"
          using 1(2) act at q Some last by (auto simp: fq_recvpipe.simps [of f] Let_def)
        moreover have "ring_ok f'" using 1(3) act calculation(1) by (auto simp: ring_ok_def)
        moreover obtain k where "k < n" "waits x f' k" using nx calculation(1) by (auto simp: waits_def)
        ultimately show ?thesis using keep by (auto intro: less_imp_le)
      qed
    next
      case None
      obtain f1 where f1: "\<not> fq_more f" "ring_deactivate (rg_current f) f = Some f1" "fq_recvpipe f1 w1 = Some (r, f', w')"
        using 1(2) act at q None by (auto simp: fq_recvpipe.simps [of f] zmq_assert_def split: bind_splits if_splits)
      obtain k where k: "k \<le> n" "waits x f1 k" using ring_deactivate_waits [OF 1(3) f1(2) 1(4) False] by blast
      obtain v' where "w_read x w1 = Some (Some m, v')" using w_read_cong [of w1 x w, OF keep] 1(5) by auto
      moreover have "ring_ok f1" using ring_deactivate_ok [OF 1(3) cur] f1(2) by auto
      moreover have "zmq_assert (\<not> fq_more f) = Some ()" using f1(1) by (simp add: zmq_assert_def)
      ultimately obtain m' y where "r = Some (m', y)"
        and *: "y \<noteq> x \<longrightarrow> w' x = w1 x \<and> ring_ok f' \<and> (\<exists>j. waits x f' j \<and> j \<le> k \<and> (\<not> f_more m' \<longrightarrow> j < k))"
        using 1(1) [OF act at q refl None _ f1(2,3) _ k(2)] by blast
      moreover have "\<exists>j. waits x f' j \<and> j \<le> n \<and> (\<not> f_more m' \<longrightarrow> j < n)" if ne: "y \<noteq> x"
      proof -
        obtain j where "waits x f' j" "j \<le> k" "\<not> f_more m' \<longrightarrow> j < k" using * ne by blast
        thus ?thesis using k(1) by (intro exI [of _ j]) auto
      qed
      ultimately show ?thesis using keep by auto
    qed
  qed
qed

lemma fq_recvs_waits:
  assumes "fq_recvs n f w = Some (rs, f', w')" "ring_ok f" "waits x f d" "w_read x w = Some (Some m, v)"
    and "others = takeWhile (\<lambda>r. \<forall>m. r \<noteq> Some (m, x)) rs"
  shows "None \<notin> set others \<and> messages others \<le> d"
  using assms
proof (induction n arbitrary: f w rs d v others)
  case (Suc n)
  obtain r f1 w1 rs1 where r: "fq_recvpipe f w = Some (r, f1, w1)" "fq_recvs n f1 w1 = Some (rs1, f', w')" "rs = r # rs1"
    using Suc.prems(1) by (auto split: bind_splits)
  obtain m' y where y: "r = Some (m', y)" and *: "y \<noteq> x \<longrightarrow> w1 x = w x \<and> ring_ok f1 \<and>
      (\<exists>k. waits x f1 k \<and> k \<le> d \<and> (\<not> f_more m' \<longrightarrow> k < d))"
    using fq_recvpipe_step [OF r(1) Suc.prems(2,3,4)] by blast
  show ?case
  proof (cases "y = x")
    case True
    thus ?thesis using Suc.prems(5) r(3) y by (simp add: messages_def)
  next
    case False
    then obtain k where k: "w1 x = w x" "ring_ok f1" "waits x f1 k" "k \<le> d" "\<not> f_more m' \<longrightarrow> k < d" using * by blast
    obtain v' where v': "w_read x w1 = Some (Some m, v')" using w_read_cong [of w1 x w, OF k(1)] Suc.prems(4) by auto
    have "None \<notin> set (takeWhile (\<lambda>r. \<forall>m. r \<noteq> Some (m, x)) rs1) \<and>
        messages (takeWhile (\<lambda>r. \<forall>m. r \<noteq> Some (m, x)) rs1) \<le> k"
      by (rule Suc.IH [OF r(2) k(2,3) v' refl])
    thus ?thesis using Suc.prems(5) r(3) y False k(4,5) by (auto simp: messages_def)
  qed
qed (simp add: messages_def)


lemma ready_pipe_read: "w x = Some ready_pipe \<Longrightarrow> \<exists>v. w_read x w = Some (Some empty_frame, v)"
  by (simp add: w_read_def ready_pipe_def pipe_read_def pipe_new_def can_read_def Let_def is_delimiter_def
      empty_frame_def data_frame_def f_is_credential_def has_flag_def up_read_message.simps [of "Fifo s" for s])


section \<open>The other operations\<close>

lemma fq_attach_ok:
  assumes "ring_ok f" "x \<notin> set (ring_pipes f)"
  shows "\<exists>f'. fq_attach x f = Some f' \<and> ring_ok f' \<and> set (ring_pipes f') = insert x (set (ring_pipes f)) \<and>
    set (active_pipes f') = insert x (set (active_pipes f))"
proof -
  let ?g = "f\<lparr>rg_pipes := arr_push_back x (rg_pipes f)\<rparr>"
  have items: "ar_items (arr_push_back x (rg_pipes f)) = ring_pipes f @ [x]" by (simp add: arr_push_back_def)
  have g: "ring_ok ?g" "x \<in> set (ring_pipes ?g)" "active_pipes ?g = active_pipes f"
    using assms arr_push_back_ok [of "rg_pipes f" x] by (auto simp: ring_ok_def active_pipes_def items arr_size_def)
  have na: "x \<notin> set (active_pipes ?g)" using assms(2) g(3) by (auto simp: active_pipes_def dest: in_set_takeD)
  have idx: "arr_index x (arr_push_back x (rg_pipes f)) = Some (arr_size (arr_push_back x (rg_pipes f)) - 1)"
    by (simp add: arr_index_def arr_push_back_def arr_size_def)
  have "fq_attach x f = ring_activated x ?g"
    using arr_swap_commute [of "arr_push_back x (rg_pipes f)" "rg_active f"] g(1) idx
    by (simp add: fq_attach_def ring_activated_def Let_def ring_ok_def)
  thus ?thesis using ring_activated_ok [OF g(1,2) na] g(3) items by simp
qed

lemma fq_recvpipe_ok:
  "fq_recvpipe f w = Some (r, f', w') \<Longrightarrow> ring_ok f \<Longrightarrow>
     ring_ok f' \<and> set (ring_pipes f') = set (ring_pipes f) \<and> set (active_pipes f') \<subseteq> set (active_pipes f)"
proof (induction f w rule: fq_recvpipe.induct)
  case (1 f w)
  show ?case
  proof (cases "rg_active f = 0")
    case True
    thus ?thesis using 1(2,3) by (simp add: fq_recvpipe.simps [of f])
  next
    case False
    hence cur: "rg_current f < rg_active f" using 1(3) by (auto simp: ring_ok_def)
    let ?y = "ring_pipes f ! rg_current f"
    have at: "arr_at (rg_current f) (rg_pipes f) = Some ?y" using ring_current_at [OF 1(3)] False by simp
    obtain q w1 where q: "w_read ?y w = Some (q, w1)" using 1(2) False at
      by (auto simp: fq_recvpipe.simps [of f] split: bind_splits)
    show ?thesis
    proof (cases q)
      case (Some m)
      thus ?thesis using 1(2,3) False at q
        by (auto simp: fq_recvpipe.simps [of f] Let_def ring_ok_def active_pipes_def split: if_splits)
    next
      case None
      then obtain f1 where f1: "\<not> fq_more f" "ring_deactivate (rg_current f) f = Some f1" "fq_recvpipe f1 w1 = Some (r, f', w')"
        using 1(2) False at q by (auto simp: fq_recvpipe.simps [of f] zmq_assert_def split: bind_splits if_splits)
      have "zmq_assert (\<not> fq_more f) = Some ()" using f1(1) by (simp add: zmq_assert_def)
      thus ?thesis using 1(1) [OF False at q refl None _ f1(2,3)] ring_deactivate_ok [OF 1(3) cur] f1(2) by auto
    qed
  qed
qed

lemma fq_terminated_ok:
  assumes "ring_ok f" "x \<in> set (ring_pipes f)" "w x \<noteq> None"
  shows "\<exists>f'. fq_pipe_terminated x w f = Some f' \<and> ring_ok f' \<and> set (ring_pipes f') = set (ring_pipes f) - {x} \<and>
    set (active_pipes f') = set (active_pipes f) - {x} \<and> fq_last_in f' \<noteq> Some x"
proof -
  obtain f1 where "ring_remove x f = Some f1" "ring_ok f1" "set (ring_pipes f1) = set (ring_pipes f) - {x}"
      "set (active_pipes f1) = set (active_pipes f) - {x}" using ring_remove_ok [OF assms(1,2)] by blast
  thus ?thesis using assms(3) by (auto simp: fq_pipe_terminated_def w_credential_def ring_ok_def active_pipes_def)
qed

text \<open>
  C23. The bookkeeping of fair queueing is right.  Attaching a new pipe makes it active; a pipe that
  terminates is removed; a passive pipe that becomes readable is active again; receiving keeps the
  pipes and only makes pipes passive; and each of these keeps the stored positions correct and the
  current position inside the active part.
\<close>

theorem fq_operations:
  assumes ok: "ring_ok f"
  shows "(x \<notin> set (ring_pipes f) \<longrightarrow> (\<exists>f'. fq_attach x f = Some f' \<and> ring_ok f' \<and>
      set (ring_pipes f') = insert x (set (ring_pipes f)) \<and> set (active_pipes f') = insert x (set (active_pipes f)))) \<and>
    (x \<in> set (ring_pipes f) \<and> w x \<noteq> None \<longrightarrow> (\<exists>f'. fq_pipe_terminated x w f = Some f' \<and> ring_ok f' \<and>
      set (ring_pipes f') = set (ring_pipes f) - {x} \<and> set (active_pipes f') = set (active_pipes f) - {x} \<and>
      fq_last_in f' \<noteq> Some x)) \<and>
    (x \<in> set (ring_pipes f) \<and> x \<notin> set (active_pipes f) \<longrightarrow> (\<exists>f'. fq_activated x f = Some f' \<and> ring_ok f' \<and>
      set (ring_pipes f') = set (ring_pipes f) \<and> set (active_pipes f') = insert x (set (active_pipes f)))) \<and>
    (\<forall>r g w'. fq_recvpipe f w = Some (r, g, w') \<longrightarrow> ring_ok g \<and> set (ring_pipes g) = set (ring_pipes f) \<and>
      set (active_pipes g) \<subseteq> set (active_pipes f))"
proof (intro conjI impI allI)
  assume "x \<notin> set (ring_pipes f)"
  thus "\<exists>f'. fq_attach x f = Some f' \<and> ring_ok f' \<and>
      set (ring_pipes f') = insert x (set (ring_pipes f)) \<and> set (active_pipes f') = insert x (set (active_pipes f))"
    by (rule fq_attach_ok [OF ok])
next
  assume "x \<in> set (ring_pipes f) \<and> w x \<noteq> None"
  thus "\<exists>f'. fq_pipe_terminated x w f = Some f' \<and> ring_ok f' \<and> set (ring_pipes f') = set (ring_pipes f) - {x} \<and>
      set (active_pipes f') = set (active_pipes f) - {x} \<and> fq_last_in f' \<noteq> Some x"
    using fq_terminated_ok [OF ok] by blast
next
  assume "x \<in> set (ring_pipes f) \<and> x \<notin> set (active_pipes f)"
  thus "\<exists>f'. fq_activated x f = Some f' \<and> ring_ok f' \<and> set (ring_pipes f') = set (ring_pipes f) \<and>
      set (active_pipes f') = insert x (set (active_pipes f))"
    unfolding fq_activated_def using ring_activated_ok [OF ok] by blast
qed (use fq_recvpipe_ok ok in blast)+

theorem fq_operations_witness:
  "ring_ok fq_new \<and> (\<exists>f. fq_attach 7 fq_new = Some f \<and> ring_ok f \<and> set (active_pipes f) = {7})"
proof -
  have new: "ring_ok fq_new" "ring_pipes fq_new = []" "active_pipes fq_new = []"
    by (simp_all add: fq_new_def ring_ok_def active_pipes_def)
  show ?thesis using fq_operations [OF new(1), of 7 Map.empty] new by auto
qed

text \<open>
  While the parts of a message are being received from the last active pipe, the termination of
  another pipe makes the queue go on with the first pipe: the rest of the message is not read next.
\<close>

lemma ring_remove_more: "ring_remove x f = Some f' \<Longrightarrow> fq_more f' = fq_more f"
  by (auto simp: ring_remove_def ring_deactivate_def Let_def split: bind_splits if_splits)

lemma fq_terminated_switches_pipe:
  assumes "ring_ok f" "fq_more f" "Suc (rg_current f) = rg_active f" "0 < k" "k < rg_current f"
    and "fq_pipe_terminated (ring_pipes f ! k) w f = Some f'"
  shows "fq_more f' \<and> arr_at (rg_current f') (rg_pipes f') \<noteq> Some (ring_pipes f ! rg_current f)"
  using assms ring_remove_current [OF assms(1,3,4,5)]
  by (auto simp: fq_pipe_terminated_def ring_remove_more split: bind_splits if_splits)

end
