(* ===== verification/Xsub.thy ===== *)
theory Xsub
  imports Fq Dist Trie
begin

text \<open>
  The subscriber sockets (\<open>src/xsub.cpp\<close>, \<open>src/sub.cpp\<close>): the pipes are read by fair queueing and written
  by a distributor, and the subscriptions are counted in a trie.  The fields \<open>xs_filter\<close> and \<open>xs_invert\<close>
  are the socket options for filtering and for inverted matching.
\<close>

record xsub =
  xs_fq :: fq
  xs_dist :: dist
  xs_subs :: trie
  xs_has_message :: bool
  xs_message :: frame
  xs_more :: bool
  xs_filter :: bool
  xs_invert :: bool

definition xsub_new :: "bool \<Rightarrow> bool \<Rightarrow> xsub" where
  "xsub_new filtering invert =
     \<lparr>xs_fq = fq_new, xs_dist = dist_new, xs_subs = trie_new, xs_has_message = False, xs_message = empty_frame,
      xs_more = False, xs_filter = filtering, xs_invert = invert\<rparr>"

definition sub_new :: "bool \<Rightarrow> xsub" where
  "sub_new invert = xsub_new True invert"

definition subscription_message :: "byte list \<Rightarrow> frame" where
  "subscription_message key = data_frame 0 (1 # key)"

definition send_subscription :: "nat \<Rightarrow> byte list \<Rightarrow> sock_pipes \<Rightarrow> sock_pipes option" where
  "send_subscription x key w = map_option snd (w_write x (subscription_message key) w)"

text \<open>The subscriptions are sent to one pipe, for \<open>xattach_pipe\<close> and \<open>xhiccuped\<close>.\<close>

fun send_subscriptions :: "nat \<Rightarrow> byte list list \<Rightarrow> sock_pipes \<Rightarrow> sock_pipes option" where
  "send_subscriptions x [] w = w_flush x w"
| "send_subscriptions x (key # keys) w = do { w1 \<leftarrow> send_subscription x key w; send_subscriptions x keys w1 }"

definition xsub_hiccuped :: "nat \<Rightarrow> xsub \<Rightarrow> sock_pipes \<Rightarrow> sock_pipes option" where
  "xsub_hiccuped x s w = do { keys \<leftarrow> trie_apply (xs_subs s); send_subscriptions x keys w }"

definition xsub_attach :: "nat \<Rightarrow> xsub \<Rightarrow> sock_pipes \<Rightarrow> (xsub \<times> sock_pipes) option" where
  "xsub_attach x s w =
     do {
       f \<leftarrow> fq_attach x (xs_fq s);
       d \<leftarrow> dist_attach x (xs_dist s);
       keys \<leftarrow> trie_apply (xs_subs s);
       w1 \<leftarrow> send_subscriptions x keys w;
       Some (s\<lparr>xs_fq := f, xs_dist := d\<rparr>, w1)
     }"

definition xsub_read_activated :: "nat \<Rightarrow> xsub \<Rightarrow> xsub option" where
  "xsub_read_activated x s = map_option (\<lambda>f. s\<lparr>xs_fq := f\<rparr>) (fq_activated x (xs_fq s))"

definition xsub_write_activated :: "nat \<Rightarrow> xsub \<Rightarrow> xsub option" where
  "xsub_write_activated x s = map_option (\<lambda>d. s\<lparr>xs_dist := d\<rparr>) (dist_activated x (xs_dist s))"

definition xsub_pipe_terminated :: "nat \<Rightarrow> xsub \<Rightarrow> sock_pipes \<Rightarrow> xsub option" where
  "xsub_pipe_terminated x s w =
     do {
       f \<leftarrow> fq_pipe_terminated x w (xs_fq s);
       d \<leftarrow> dist_pipe_terminated x (xs_dist s);
       Some (s\<lparr>xs_fq := f, xs_dist := d\<rparr>)
     }"

text \<open>The decision of \<open>xsend\<close>, whether a message is sent to the publishers, and the subscriptions after it.\<close>

definition xsub_forward :: "frame \<Rightarrow> trie \<Rightarrow> (bool \<times> trie) option" where
  "xsub_forward m t =
     (case f_data m of
        d # key \<Rightarrow>
          if d = 1 then do { (_, t1) \<leftarrow> trie_add key t; Some (True, t1) }
          else if d = 0 then trie_rm key t
          else Some (True, t)
      | [] \<Rightarrow> Some (True, t))"

definition xsub_send :: "frame \<Rightarrow> xsub \<Rightarrow> sock_pipes \<Rightarrow> (xsub \<times> sock_pipes) option" where
  "xsub_send m s w =
     do {
       (forward, t) \<leftarrow> xsub_forward m (xs_subs s);
       (if forward
        then do { (_, d, w1) \<leftarrow> send_to_all m (xs_dist s) w; Some (s\<lparr>xs_subs := t, xs_dist := d\<rparr>, w1) }
        else Some (s\<lparr>xs_subs := t\<rparr>, w))
     }"

definition xsub_has_out :: "xsub \<Rightarrow> bool" where
  "xsub_has_out s = True"

definition xsub_match :: "xsub \<Rightarrow> frame \<Rightarrow> bool option" where
  "xsub_match s m = do { matching \<leftarrow> trie_check (f_data m) (xs_subs s); Some (matching \<noteq> xs_invert s) }"

text \<open>The inner loop of \<open>xrecv\<close>: the remaining parts of a message are skipped.\<close>

function skip_parts :: "frame \<Rightarrow> fq \<Rightarrow> sock_pipes \<Rightarrow> (fq \<times> sock_pipes) option" where
  "skip_parts m f w =
     (if f_more m
      then do {
        (r, f1, w1) \<leftarrow> fq_recv f w;
        (case r of None \<Rightarrow> None | Some m1 \<Rightarrow> skip_parts m1 f1 w1)
      }
      else Some (f, w))"
  by pat_completeness auto
termination
  by (relation "measure (\<lambda>(m, f, w). fq_avail f w)") (auto dest: fq_recv_avail)

declare skip_parts.simps [simp del]

lemma skip_parts_avail: "skip_parts m f w = Some (f', w') \<Longrightarrow> fq_avail f' w' \<le> fq_avail f w"
proof (induction m f w rule: skip_parts.induct)
  case (1 m f w)
  show ?case
  proof (cases "f_more m")
    case True
    then obtain m1 f1 w1 where r: "fq_recv f w = Some (Some m1, f1, w1)" "skip_parts m1 f1 w1 = Some (f', w')"
      using 1(2) by (auto simp: skip_parts.simps [of m] split: bind_splits option.splits)
    thus ?thesis using 1(1) [OF True r(1) refl refl refl r(2)] fq_recv_avail [OF r(1)] by simp
  next
    case False
    thus ?thesis using 1(2) by (simp add: skip_parts.simps [of m])
  qed
qed

text \<open>The outer loop; the first argument decides which message is accepted.\<close>

function recv_matching :: "(frame \<Rightarrow> bool option) \<Rightarrow> fq \<Rightarrow> sock_pipes \<Rightarrow> (frame option \<times> fq \<times> sock_pipes) option" where
  "recv_matching accept f w =
     do {
       (r, f1, w1) \<leftarrow> fq_recv f w;
       (case r of
          None \<Rightarrow> Some (None, f1, w1)
        | Some m \<Rightarrow>
            do {
              ok \<leftarrow> accept m;
              (if ok then Some (Some m, f1, w1)
               else do { (f2, w2) \<leftarrow> skip_parts m f1 w1; recv_matching accept f2 w2 })
            })
     }"
  by pat_completeness auto
termination
  by (relation "measure (\<lambda>(a, f, w). fq_avail f w)") (auto dest!: fq_recv_avail skip_parts_avail)

declare recv_matching.simps [simp del]

definition xsub_recv :: "xsub \<Rightarrow> sock_pipes \<Rightarrow> (frame result \<times> xsub \<times> sock_pipes) option" where
  "xsub_recv s w =
     (if xs_has_message s
      then Some (Inr (xs_message s), s\<lparr>xs_message := empty_frame, xs_has_message := False, xs_more := f_more (xs_message s)\<rparr>, w)
      else do {
        (r, f, w1) \<leftarrow> recv_matching (\<lambda>m. if xs_more s \<or> \<not> xs_filter s then Some True else xsub_match s m) (xs_fq s) w;
        (case r of
           None \<Rightarrow> Some (Inl EAGAIN, s\<lparr>xs_fq := f\<rparr>, w1)
         | Some m \<Rightarrow> Some (Inr m, s\<lparr>xs_fq := f, xs_more := f_more m\<rparr>, w1))
      })"

definition xsub_has_in :: "xsub \<Rightarrow> sock_pipes \<Rightarrow> (bool \<times> xsub \<times> sock_pipes) option" where
  "xsub_has_in s w =
     (if xs_more s \<or> xs_has_message s then Some (True, s, w)
      else do {
        (r, f, w1) \<leftarrow> recv_matching (\<lambda>m. if \<not> xs_filter s then Some True else xsub_match s m) (xs_fq s) w;
        (case r of
           None \<Rightarrow> Some (False, s\<lparr>xs_fq := f, xs_message := empty_frame\<rparr>, w1)
         | Some m \<Rightarrow> Some (True, s\<lparr>xs_fq := f, xs_message := m, xs_has_message := True\<rparr>, w1))
      })"

definition xsub_get_credential :: "xsub \<Rightarrow> sock_pipes \<Rightarrow> byte list option" where
  "xsub_get_credential s w = fq_get_credential (xs_fq s) w"

text \<open>The operations that \<open>sub_t\<close> changes.\<close>

datatype sub_setting = Sub_subscribe "byte list" | Sub_unsubscribe "byte list" | Sub_other

fun sub_setsockopt :: "sub_setting \<Rightarrow> xsub \<Rightarrow> sock_pipes \<Rightarrow> (unit result \<times> xsub \<times> sock_pipes) option" where
  "sub_setsockopt (Sub_subscribe key) s w = map_option (\<lambda>(s1, w1). (Inr (), s1, w1)) (xsub_send (data_frame 0 (1 # key)) s w)"
| "sub_setsockopt (Sub_unsubscribe key) s w = map_option (\<lambda>(s1, w1). (Inr (), s1, w1)) (xsub_send (data_frame 0 (0 # key)) s w)"
| "sub_setsockopt Sub_other s w = Some (Inl EINVAL, s, w)"

definition sub_send :: "xsub \<Rightarrow> unit result \<times> xsub" where
  "sub_send s = (Inl ENOTSUP, s)"

definition sub_has_out :: "xsub \<Rightarrow> bool" where
  "sub_has_out s = False"

section \<open>Filtering\<close>

text \<open>
  A sequence of frames is rejected if it consists of complete messages whose first parts are not accepted;
  the flag tells whether the sequence begins inside such a message.
\<close>

fun rejected :: "(frame \<Rightarrow> bool) \<Rightarrow> bool \<Rightarrow> frame list \<Rightarrow> bool" where
  "rejected P inside [] \<longleftrightarrow> \<not> inside"
| "rejected P inside (m # ms) \<longleftrightarrow> (inside \<or> \<not> P m) \<and> rejected P (f_more m) ms"

lemma fq_recv_recvpipe: "fq_recvpipe f w = Some (r, f1, w1) \<Longrightarrow> fq_recv f w = Some (map_option fst r, f1, w1)"
  by (simp add: fq_recv_def)

lemma skip_recv:
  assumes "fq_recvs (length rs + 1) f w = Some (map Some rs @ [q], f', w')" "rejected P (f_more m) (map fst rs)"
    and acc: "accept = (\<lambda>m. Some (P m))" and q: "\<forall>m x. q = Some (m, x) \<longrightarrow> P m"
  shows "do { (f2, w2) \<leftarrow> skip_parts m f w; recv_matching accept f2 w2 } = Some (map_option fst q, f', w')"
  using assms(1,2)
proof (induction rs arbitrary: m f w)
  case Nil
  hence "fq_recvpipe f w = Some (q, f', w')" "\<not> f_more m" by (auto split: bind_splits)
  thus ?case using fq_recv_recvpipe [of f w] q
    by (cases q) (auto simp: skip_parts.simps [of m] recv_matching.simps [of _ f] acc)
next
  case (Cons p rs)
  obtain f1 w1 where r: "fq_recvpipe f w = Some (Some p, f1, w1)"
      "fq_recvs (length rs + 1) f1 w1 = Some (map Some rs @ [q], f', w')"
    using Cons.prems(1) by (auto split: bind_splits)
  note IH = Cons.IH [OF r(2), of "fst p"]
  show ?case using fq_recv_recvpipe [OF r(1)] IH Cons.prems(2)
    by (cases "f_more m") (auto simp: skip_parts.simps [of m] recv_matching.simps [of _ f] acc)
qed

lemma recv_matching_result:
  assumes "fq_recvs (length rs + 1) f w = Some (map Some rs @ [q], f', w')" "rejected P False (map fst rs)"
    "accept = (\<lambda>m. Some (P m))" "\<forall>m x. q = Some (m, x) \<longrightarrow> P m"
  shows "recv_matching accept f w = Some (map_option fst q, f', w')"
proof -
  have "\<not> f_more empty_frame" by (simp add: f_more_def empty_frame_def data_frame_def has_flag_def)
  thus ?thesis using skip_recv [OF assms(1) _ assms(3,4), of empty_frame] assms(2) by (simp add: skip_parts.simps)
qed

text \<open>Whether a socket accepts a message, given its subscriptions.\<close>

definition accepts :: "xsub \<Rightarrow> byte list \<Rightarrow> bool" where
  "accepts s data \<longleftrightarrow> (\<exists>k. prefix k data \<and> trie_count k (xs_subs s) \<noteq> 0) \<noteq> xs_invert s"

text \<open>
  C37. A subscriber that filters skips complete messages, all their parts, whose first part does not
  begin with a subscribed prefix (or does, if matching is inverted), and returns the first part of the first
  other message, whatever the number of messages skipped; if the fair queue has no such message the result
  is \<open>EAGAIN\<close>.  The following parts are then returned without a check.
\<close>

theorem xsub_filters:
  assumes "node_ok (xs_subs s)" "\<not> xs_has_message s" "xs_filter s"
    and "fq_recvs (length rs + 1) (xs_fq s) w = Some (map Some rs @ [q], f', w')"
    and "rejected (\<lambda>m. xs_more s \<or> accepts s (f_data m)) False (map fst rs)"
    and "\<forall>m x. q = Some (m, x) \<longrightarrow> xs_more s \<or> accepts s (f_data m)"
  shows "xsub_recv s w = Some (case q of None \<Rightarrow> (Inl EAGAIN, s\<lparr>xs_fq := f'\<rparr>, w')
      | Some (m, x) \<Rightarrow> (Inr m, s\<lparr>xs_fq := f', xs_more := f_more m\<rparr>, w'))"
proof -
  let ?a = "\<lambda>m. if xs_more s \<or> \<not> xs_filter s then Some True else xsub_match s m"
  have "?a = (\<lambda>m. Some (xs_more s \<or> accepts s (f_data m)))"
    using assms(3) trie_check_ok [OF assms(1)] by (auto simp: xsub_match_def accepts_def)
  hence "recv_matching ?a (xs_fq s) w = Some (map_option fst q, f', w')" using recv_matching_result [OF assms(4,5) _ assms(6)] by blast
  thus ?thesis using assms(2) by (cases q) (auto simp: xsub_recv_def)
qed

text \<open>A pipe from which some frames can be read.\<close>

definition loaded :: "u64 \<Rightarrow> frame list \<Rightarrow> pipe \<times> pipe_env" where
  "loaded n fs =
     ((pipe_new 0 1 0 0 False)\<lparr>pp_msgs_read := n\<rparr>,
      \<lparr>pe_up = (\<lambda>i. if i = 0 then Some (Fifo \<lparr>ps_readable = fs, ps_complete = [], ps_incomplete = [], ps_asleep = False\<rparr>) else None),
       pe_fresh = 2, pe_cmds = [], pe_events = []\<rparr>)"

lemma frame_flags:
  assumes "fl = 0 \<or> fl = 1"
  shows "\<not> is_delimiter (data_frame fl ds)" "\<not> f_is_credential (data_frame fl ds)" "\<not> f_is_routing_id (data_frame fl ds)"
    "f_more (data_frame fl ds) \<longleftrightarrow> fl = 1" "f_data (data_frame fl ds) = ds"
  using assms by (auto simp: is_delimiter_def f_is_credential_def f_is_routing_id_def f_more_def has_flag_def data_frame_def
      flag_credential_def flag_routing_id_def flag_more_def)

lemma loaded_read:
  assumes "w x = Some (loaded n (data_frame fl ds # fs))" "fl = 0 \<or> fl = 1"
  shows "w_read x w = Some (Some (data_frame fl ds), w(x \<mapsto> loaded (if fl = 1 then n else n + 1) fs))"
proof -
  let ?u = "\<lambda>fs. Fifo \<lparr>ps_readable = fs, ps_complete = [], ps_incomplete = [], ps_asleep = False\<rparr>"
  have u: "up_read_message (?u (data_frame fl ds # fs)) c = (Some (data_frame fl ds), ?u fs, c)" for c
    by (subst up_read_message.simps) (simp add: frame_flags [OF assms(2)])
  have lwm: "compute_lwm 0 = 0" by (simp add: compute_lwm_def signed_divide_int_def)
  show ?thesis using assms(1)
    by (simp add: w_read_def loaded_def pipe_read_def pipe_new_def can_read_def Let_def u lwm frame_flags [OF assms(2)] set_up_def fun_eq_iff)
qed

theorem xsub_filters_witness:
  "\<exists>s s' w w'. \<not> accepts s [98] \<and> accepts s [97, 98] \<and>
     w 0 = Some (loaded 0 [data_frame 1 [98], data_frame 0 [99], data_frame 0 [97, 98]]) \<and>
     xsub_recv s w = Some (Inr (data_frame 0 [97, 98]), s', w') \<and> \<not> xs_more s'"
proof -
  let ?a = "data_frame 1 [98]" and ?b = "data_frame 0 [99]" and ?c = "data_frame 0 [97, 98]"
  let ?ring = "\<lparr>ar_items = [0], ar_index = int\<rparr>"
  let ?f = "\<lambda>more last. \<lparr>rg_pipes = ?ring, rg_active = 1, rg_current = 0, fq_last_in = last, fq_more = more, fq_saved_credential = []\<rparr>"
  let ?w = "\<lambda>n fs. [0 \<mapsto> loaded n fs] :: sock_pipes"
  have r: "fq_recvpipe (?f m l) (?w n (data_frame fl ds # fs)) =
      Some (Some (data_frame fl ds, 0), ?f (fl = 1) (if fl = 1 then l else Some 0), ?w (if fl = 1 then n else n + 1) fs)"
    if "fl = 0 \<or> fl = 1" for m l n fl ds fs
    by (subst fq_recvpipe.simps) (use that in \<open>simp add: loaded_read [of _ 0] frame_flags arr_at_def arr_size_def Let_def\<close>)
  obtain t where t: "node_ok t" "(\<lambda>k. trie_count k t) = (\<lambda>_. 0)([97] := 1)"
    using trie_add_ok [of trie_new "[97]"] by (auto simp: trie_new_def)
  let ?s = "(sub_new False)\<lparr>xs_subs := t, xs_fq := ?f False None\<rparr>"
  have acc: "accepts ?s ds \<longleftrightarrow> prefix [97] ds" for ds
    using fun_cong [OF t(2)] by (auto simp: accepts_def sub_new_def xsub_new_def)
  have q: "fq_recvs (length [(?a, 0), (?b, 0)] + 1) (xs_fq ?s) (?w 0 [?a, ?b, ?c]) =
      Some (map Some [(?a, 0), (?b, 0)] @ [Some (?c, 0)], ?f False (Some 0), ?w 2 [])"
    using r by simp
  have "xsub_recv ?s (?w 0 [?a, ?b, ?c]) = Some (Inr ?c, ?s\<lparr>xs_fq := ?f False (Some 0), xs_more := False\<rparr>, ?w 2 [])"
    using xsub_filters [OF _ _ _ q] t(1) acc frame_flags by (simp add: sub_new_def xsub_new_def)
  thus ?thesis using acc by (intro exI [of _ ?s] exI [of _ "?s\<lparr>xs_fq := ?f False (Some 0), xs_more := False\<rparr>"]
      exI [of _ "?w 0 [?a, ?b, ?c]"] exI [of _ "?w 2 []"]) simp
qed

end
