(* ===== verification/Pubsub.thy ===== *)
theory Pubsub
  imports Xpub Xsub
begin

text \<open>
  A subscriber connected to a publisher: the subscription messages that the subscriber sends to the pipe,
  when it is attached and later, are processed in the same order by the publisher.
\<close>

text \<open>The messages of a user of the subscriber that are passed on.\<close>

fun forwards :: "frame list \<Rightarrow> trie \<Rightarrow> (frame list \<times> trie) option" where
  "forwards [] t = Some ([], t)"
| "forwards (m # ms) t =
     do {
       (b, t1) \<leftarrow> xsub_forward m t;
       (fs, t2) \<leftarrow> forwards ms t1;
       Some (if b then m # fs else fs, t2)
     }"

fun process_subs :: "nat \<Rightarrow> frame list \<Rightarrow> xpub \<Rightarrow> xpub option" where
  "process_subs x [] s = Some s"
| "process_subs x (m # ms) s = do { s1 \<leftarrow> process_sub x m s; process_subs x ms s1 }"

lemma process_subs_append: "process_subs x (ms @ ns) s = do { s1 \<leftarrow> process_subs x ms s; process_subs x ns s1 }"
  by (induction ms arbitrary: s) (auto split: bind_splits)

text \<open>The publisher in the automatic mode has exactly the prefixes of \<open>K\<close> for the pipe \<open>x\<close>, and for the others those of \<open>S\<close>.\<close>

definition in_sync :: "nat \<Rightarrow> byte list set \<Rightarrow> (byte list \<Rightarrow> nat set) \<Rightarrow> xpub \<Rightarrow> bool" where
  "in_sync x K S s \<longleftrightarrow> xpub_ok s \<and> \<not> xp_manual s \<and> x \<in> set (dist_pipes (xp_dist s)) \<and>
     (\<forall>k. subs (xp_subs s) k = (S k - {x}) \<union> (if k \<in> K then {x} else {}))"

lemma process_sub_sync:
  assumes s: "in_sync x K S s" and d: "\<And>k. f_data m = 0 # k \<Longrightarrow> k \<in> K"
  shows "\<exists>s'. process_sub x m s = Some s' \<and>
    in_sync x (case f_data m of d # k \<Rightarrow> if d = 0 then K - {k} else if d = 1 then insert k K else K | [] \<Rightarrow> K) S s'"
proof -
  have t: "sub_target s = xp_subs s" using s by (simp add: sub_target_def in_sync_def)
  have "sub_legal (f_data m) x (subs (xp_subs s))" using s d by (auto simp: sub_legal_def in_sync_def split: list.splits)
  then obtain s' where "process_sub x m s = Some s'" "xpub_ok s'" "xp_dist s' = xp_dist s" "\<not> xp_manual s'"
      "subs (xp_subs s') = sub_effect (f_data m) x (subs (xp_subs s))"
    using process_sub_ok [of s x m] s t by (auto simp: in_sync_def sub_target_def)
  moreover have "in_sync x (case f_data m of d # k \<Rightarrow> if d = 0 then K - {k} else if d = 1 then insert k K else K | [] \<Rightarrow> K) S s'"
    using calculation(2-) s by (auto simp: in_sync_def sub_effect_def split: list.splits)
  ultimately show ?thesis by blast
qed

lemma attach_sync:
  "in_sync x K S s \<Longrightarrow> \<exists>s'. process_subs x (map subscription_message ks) s = Some s' \<and> in_sync x (K \<union> set ks) S s'"
proof (induction ks arbitrary: K s)
  case (Cons k ks)
  have m: "f_data (subscription_message k) = 1 # k" by (simp add: subscription_message_def data_frame_def)
  then obtain s1 where s1: "process_sub x (subscription_message k) s = Some s1" "in_sync x (insert k K) S s1"
    using process_sub_sync [OF Cons.prems, of "subscription_message k"] by auto
  show ?case using Cons.IH [OF s1(2)] s1(1) by simp
qed simp

lemma inc_bound: "unat (c + 1) \<le> Suc (unat (c :: u32))"
  using mod_less_eq_dividend [of "unat c + 1"] by (simp add: unat_word_ariths)

lemma inc_nonzero:
  assumes "unat c + 1 < 2 ^ 32"
  shows "(c :: u32) + 1 \<noteq> 0"
proof -
  have "unat (c + 1) = unat c + 1" using assms by (simp add: unat_word_ariths)
  thus ?thesis by (metis Suc_eq_plus1 nat.distinct(1) unat_0)
qed

lemma forward_sync:
  assumes s: "in_sync x {k. trie_count k t \<noteq> 0} S s" and t: "node_ok t" "\<forall>k. trie_count k t + 1 \<noteq> 0"
  shows "\<exists>b t' s'. xsub_forward m t = Some (b, t') \<and> (if b then process_sub x m s else Some s) = Some s' \<and> node_ok t' \<and>
    in_sync x {k. trie_count k t' \<noteq> 0} S s' \<and> (\<forall>k. unat (trie_count k t') \<le> Suc (unat (trie_count k t)))"
proof (cases "\<exists>d k. f_data m = d # k \<and> (d = 0 \<or> d = 1)")
  case True
  then obtain d k where d: "f_data m = d # k" "d = 0 \<or> d = 1" by blast
  show ?thesis
  proof (cases "d = 0")
    case zero: True
    let ?c = "trie_count k t"
    obtain t' where t': "trie_rm k t = Some (?c = 1, t')" "node_ok t'"
        "(\<lambda>k'. trie_count k' t') = (\<lambda>k'. trie_count k' t)(k := if ?c = 0 then 0 else ?c - 1)"
      using trie_rm_ok [OF t(1), of k] by blast
    have K: "{k. trie_count k t' \<noteq> 0} = (if ?c = 1 then {k. trie_count k t \<noteq> 0} - {k} else {k. trie_count k t \<noteq> 0})"
      using fun_cong [OF t'(3)] by auto
    have le: "unat (trie_count k' t') \<le> Suc (unat (trie_count k' t))" for k'
      using fun_cong [OF t'(3), of k'] by (auto simp: unat_minus_one)
    show ?thesis using t' d zero K le s process_sub_sync [OF s, of m] by (cases "?c = 1") (auto simp: xsub_forward_def)
  next
    case one: False
    let ?c = "trie_count k t"
    obtain t' where t': "trie_add k t = Some (?c + 1 = 1, t')" "node_ok t'"
        "(\<lambda>k'. trie_count k' t') = (\<lambda>k'. trie_count k' t)(k := ?c + 1)"
      using trie_add_ok [OF t(1), of k] by blast
    have K: "{k. trie_count k t' \<noteq> 0} = insert k {k. trie_count k t \<noteq> 0}" using fun_cong [OF t'(3)] t(2) by auto
    have le: "unat (trie_count k' t') \<le> Suc (unat (trie_count k' t))" for k'
      using fun_cong [OF t'(3), of k'] inc_bound [of ?c] by simp
    show ?thesis using t' d one K le process_sub_sync [OF s, of m] by (auto simp: xsub_forward_def)
  qed
next
  case False
  hence "xsub_forward m t = Some (True, t)" by (auto simp: xsub_forward_def split: list.splits)
  moreover have "\<exists>s'. process_sub x m s = Some s' \<and> in_sync x {k. trie_count k t \<noteq> 0} S s'"
    using process_sub_sync [OF s, of m] False by (cases "f_data m") auto
  ultimately show ?thesis using t(1) by auto
qed

lemma forwards_sync:
  "in_sync x {k. trie_count k t \<noteq> 0} S s \<Longrightarrow> node_ok t \<Longrightarrow> \<forall>k. unat (trie_count k t) + length ms < 2 ^ 32 \<Longrightarrow>
   \<exists>fs t' s'. forwards ms t = Some (fs, t') \<and> process_subs x fs s = Some s' \<and> node_ok t' \<and> in_sync x {k. trie_count k t' \<noteq> 0} S s'"
proof (induction ms arbitrary: t s)
  case (Cons m ms)
  have "unat (trie_count k t) + 1 < 2 ^ 32" for k using Cons.prems(3) [rule_format, of k] by simp
  hence nz: "\<forall>k. trie_count k t + 1 \<noteq> 0" using inc_nonzero by blast
  obtain b t1 s1 where r: "xsub_forward m t = Some (b, t1)" "(if b then process_sub x m s else Some s) = Some s1" "node_ok t1"
      "in_sync x {k. trie_count k t1 \<noteq> 0} S s1" "\<forall>k. unat (trie_count k t1) \<le> Suc (unat (trie_count k t))"
    using forward_sync [OF Cons.prems(1,2) nz] by blast
  have "\<forall>k. unat (trie_count k t1) + length ms < 2 ^ 32"
  proof
    fix k
    show "unat (trie_count k t1) + length ms < 2 ^ 32" using Cons.prems(3) [rule_format, of k] r(5) [rule_format, of k] by simp
  qed
  then obtain fs t' s' where "forwards ms t1 = Some (fs, t')" "process_subs x fs s1 = Some s'" "node_ok t'"
      "in_sync x {k. trie_count k t' \<noteq> 0} S s'"
    using Cons.IH [OF r(4,3)] by blast
  thus ?case using r(1,2) by (cases b) simp_all
qed simp



end
