(* ===== verification/Router.thy ===== *)
theory Router
  imports Fq Wire "HOL-Library.AList"
begin

text \<open>
  The routing socket (\<open>src/router.cpp\<close>): every peer has a routing id, which is returned as the first part of
  its messages and selects the pipe for the messages that are sent.  The table of pipes by routing id is
  an association list.  The field \<open>ro_raw_option\<close> is the socket option, \<open>ro_raw\<close> the member of the same name, and
  \<open>ro_connect_id\<close> is the member of the base class.  The initial number for generated ids is an argument.
\<close>

record outpipe =
  op_pipe :: nat
  op_active :: bool

record router =
  ro_fq :: fq
  ro_prefetched :: bool
  ro_routing_id_sent :: bool
  ro_prefetched_id :: frame
  ro_prefetched_msg :: frame
  ro_current_in :: "nat option"
  ro_terminate_current_in :: bool
  ro_more_in :: bool
  ro_anonymous :: "nat set"
  ro_outpipes :: "(byte list \<times> outpipe) list"
  ro_current_out :: "nat option"
  ro_more_out :: bool
  ro_next_id :: u32
  ro_mandatory :: bool
  ro_raw :: bool
  ro_probe :: bool
  ro_handover :: bool
  ro_connect_id :: "byte list"
  ro_raw_option :: bool

definition router_new :: "u32 \<Rightarrow> router" where
  "router_new random =
     \<lparr>ro_fq = fq_new, ro_prefetched = False, ro_routing_id_sent = False, ro_prefetched_id = empty_frame,
      ro_prefetched_msg = empty_frame, ro_current_in = None, ro_terminate_current_in = False, ro_more_in = False,
      ro_anonymous = {}, ro_outpipes = [], ro_current_out = None, ro_more_out = False, ro_next_id = random,
      ro_mandatory = False, ro_raw = False, ro_probe = False, ro_handover = False, ro_connect_id = [], ro_raw_option = False\<rparr>"

definition w_set_routing_id :: "nat \<Rightarrow> byte list \<Rightarrow> sock_pipes \<Rightarrow> sock_pipes option" where
  "w_set_routing_id x rid w = do { (p, e) \<leftarrow> w x; Some (w(x \<mapsto> (set_router_socket_routing_id rid p, e))) }"

definition w_routing_id :: "nat \<Rightarrow> sock_pipes \<Rightarrow> byte list option" where
  "w_routing_id x w = map_option (\<lambda>(p, e). pp_router_id p) (w x)"

text \<open>A generated routing id: a zero byte and the next number.\<close>

definition generate_id :: "'a router_scheme \<Rightarrow> byte list \<times> 'a router_scheme" where
  "generate_id r = (0 # put_uint32 (ro_next_id r), r\<lparr>ro_next_id := ro_next_id r + 1\<rparr>)"

text \<open>The end of \<open>identify_peer\<close>: the pipe is entered into the table.\<close>

definition add_peer :: "byte list \<Rightarrow> nat \<Rightarrow> 'a router_scheme \<Rightarrow> sock_pipes \<Rightarrow> (bool \<times> 'a router_scheme \<times> sock_pipes) option" where
  "add_peer rid x r w =
     do {
       w1 \<leftarrow> w_set_routing_id x rid w;
       zmq_assert (map_of (ro_outpipes r) rid = None);
       Some (True, r\<lparr>ro_outpipes := (rid, \<lparr>op_pipe = x, op_active = True\<rparr>) # ro_outpipes r\<rparr>, w1)
     }"

text \<open>A peer with a routing id that is in use takes it over.\<close>

definition hand_over :: "byte list \<Rightarrow> outpipe \<Rightarrow> 'a router_scheme \<Rightarrow> sock_pipes \<Rightarrow> ('a router_scheme \<times> sock_pipes) option" where
  "hand_over rid old r w =
     do {
       let (new_id, r1) = generate_id r;
       w1 \<leftarrow> w_set_routing_id (op_pipe old) new_id w;
       zmq_assert (map_of (ro_outpipes r1) new_id = None);
       let r2 = r1\<lparr>ro_outpipes := AList.delete rid ((new_id, old) # ro_outpipes r1)\<rparr>;
       (if ro_current_in r = Some (op_pipe old)
        then Some (r2\<lparr>ro_terminate_current_in := True\<rparr>, w1)
        else do { w2 \<leftarrow> w_terminate (op_pipe old) True w1; Some (r2, w2) })
     }"

definition identify_peer :: "nat \<Rightarrow> 'a router_scheme \<Rightarrow> sock_pipes \<Rightarrow> (bool \<times> 'a router_scheme \<times> sock_pipes) option" where
  "identify_peer x r w =
     (if ro_connect_id r \<noteq> []
      then do {
        zmq_assert (map_of (ro_outpipes r) (ro_connect_id r) = None);
        add_peer (ro_connect_id r) x (r\<lparr>ro_connect_id := []\<rparr>) w
      }
      else if ro_raw_option r
      then (let (rid, r1) = generate_id r in add_peer rid x r1 w)
      else do {
        (m, w1) \<leftarrow> w_read x w;
        (case m of
           None \<Rightarrow> Some (False, r, w1)
         | Some msg \<Rightarrow>
             if f_data msg = []
             then (let (rid, r1) = generate_id r in add_peer rid x r1 w1)
             else (case map_of (ro_outpipes r) (f_data msg) of
                     None \<Rightarrow> add_peer (f_data msg) x r w1
                   | Some old \<Rightarrow>
                       if \<not> ro_handover r then Some (False, r, w1)
                       else do { (r1, w2) \<leftarrow> hand_over (f_data msg) old r w1; add_peer (f_data msg) x r1 w2 }))
      })"

definition router_attach :: "nat \<Rightarrow> 'a router_scheme \<Rightarrow> sock_pipes \<Rightarrow> ('a router_scheme \<times> sock_pipes) option" where
  "router_attach x r w =
     do {
       w1 \<leftarrow> (if ro_probe r then do { (_, w1) \<leftarrow> w_write x empty_frame w; w_flush x w1 } else Some w);
       (routing_id_ok, r1, w2) \<leftarrow> identify_peer x r w1;
       (if routing_id_ok
        then do { f \<leftarrow> fq_attach x (ro_fq r1); Some (r1\<lparr>ro_fq := f\<rparr>, w2) }
        else Some (r1\<lparr>ro_anonymous := insert x (ro_anonymous r1)\<rparr>, w2))
     }"

text \<open>\<open>xsetsockopt\<close>; a value that is not an integer is \<open>None\<close>.\<close>

datatype router_flag = Router_raw | Router_mandatory | Router_probe | Router_handover

datatype router_setting = Connect_routing_id "byte list" | Router_set router_flag "int option" | Router_other

fun router_setsockopt :: "router_setting \<Rightarrow> 'a router_scheme \<Rightarrow> unit result \<times> 'a router_scheme" where
  "router_setsockopt (Connect_routing_id rid) r = (if rid \<noteq> [] then (Inr (), r\<lparr>ro_connect_id := rid\<rparr>) else (Inl EINVAL, r))"
| "router_setsockopt (Router_set opt None) r = (Inl EINVAL, r)"
| "router_setsockopt (Router_set opt (Some v)) r =
     (if 0 \<le> v
      then (Inr (),
            case opt of
              Router_raw \<Rightarrow> (let r1 = r\<lparr>ro_raw := v \<noteq> 0\<rparr> in if v \<noteq> 0 then r1\<lparr>ro_raw_option := True\<rparr> else r1)
            | Router_mandatory \<Rightarrow> r\<lparr>ro_mandatory := v \<noteq> 0\<rparr>
            | Router_probe \<Rightarrow> r\<lparr>ro_probe := v \<noteq> 0\<rparr>
            | Router_handover \<Rightarrow> r\<lparr>ro_handover := v \<noteq> 0\<rparr>)
      else (Inl EINVAL, r))"
| "router_setsockopt Router_other r = (Inl EINVAL, r)"

definition router_pipe_terminated :: "nat \<Rightarrow> 'a router_scheme \<Rightarrow> sock_pipes \<Rightarrow> ('a router_scheme \<times> sock_pipes) option" where
  "router_pipe_terminated x r w =
     (if x \<in> ro_anonymous r then Some (r\<lparr>ro_anonymous := ro_anonymous r - {x}\<rparr>, w)
      else do {
        rid \<leftarrow> w_routing_id x w;
        zmq_assert (map_of (ro_outpipes r) rid \<noteq> None);
        f \<leftarrow> fq_pipe_terminated x w (ro_fq r);
        w1 \<leftarrow> w_rollback x w;
        Some (r\<lparr>ro_outpipes := AList.delete rid (ro_outpipes r), ro_fq := f,
                ro_current_out := if ro_current_out r = Some x then None else ro_current_out r\<rparr>, w1)
      })"

definition router_read_activated :: "nat \<Rightarrow> 'a router_scheme \<Rightarrow> sock_pipes \<Rightarrow> ('a router_scheme \<times> sock_pipes) option" where
  "router_read_activated x r w =
     (if x \<notin> ro_anonymous r then do { f \<leftarrow> fq_activated x (ro_fq r); Some (r\<lparr>ro_fq := f\<rparr>, w) }
      else do {
        (routing_id_ok, r1, w1) \<leftarrow> identify_peer x r w;
        (if routing_id_ok
         then do { f \<leftarrow> fq_attach x (ro_fq r1); Some (r1\<lparr>ro_anonymous := ro_anonymous r1 - {x}, ro_fq := f\<rparr>, w1) }
         else Some (r1, w1))
      })"

definition router_write_activated :: "nat \<Rightarrow> 'a router_scheme \<Rightarrow> 'a router_scheme option" where
  "router_write_activated x r =
     do {
       (rid, out) \<leftarrow> List.find (\<lambda>(rid, out). op_pipe out = x) (ro_outpipes r);
       zmq_assert (\<not> op_active out);
       Some (r\<lparr>ro_outpipes := AList.update rid (out\<lparr>op_active := True\<rparr>) (ro_outpipes r)\<rparr>)
     }"

text \<open>\<open>xsend\<close>: the first part selects the pipe, the others are written to it.\<close>

definition router_select :: "frame \<Rightarrow> 'a router_scheme \<Rightarrow> sock_pipes \<Rightarrow> (unit result \<times> 'a router_scheme \<times> sock_pipes) option" where
  "router_select m r w =
     do {
       zmq_assert (ro_current_out r = None);
       (if f_more m
        then (let r1 = r\<lparr>ro_more_out := True\<rparr> in
              case map_of (ro_outpipes r) (f_data m) of
                Some out \<Rightarrow>
                  do {
                    (ok, w1) \<leftarrow> w_check_write (op_pipe out) w;
                    (if ok then Some (Inr (), r1\<lparr>ro_current_out := Some (op_pipe out)\<rparr>, w1)
                     else do {
                       below \<leftarrow> w_check_hwm (op_pipe out) w1;
                       let r2 = r1\<lparr>ro_outpipes := AList.update (f_data m) (out\<lparr>op_active := False\<rparr>) (ro_outpipes r)\<rparr>;
                       Some (if ro_mandatory r
                             then (Inl (if \<not> below then EAGAIN else EHOSTUNREACH), r2\<lparr>ro_more_out := False\<rparr>, w1)
                             else (Inr (), r2, w1))
                     })
                  }
              | None \<Rightarrow>
                  Some (if ro_mandatory r then (Inl EHOSTUNREACH, r\<lparr>ro_more_out := False\<rparr>, w) else (Inr (), r1, w)))
        else Some (Inr (), r, w))
     }"

definition router_write_part :: "frame \<Rightarrow> 'a router_scheme \<Rightarrow> sock_pipes \<Rightarrow> ('a router_scheme \<times> sock_pipes) option" where
  "router_write_part m r w =
     (let m1 = (if ro_raw_option r then m\<lparr>f_flags := f_flags m AND NOT flag_more\<rparr> else m);
          r1 = r\<lparr>ro_more_out := f_more m1\<rparr>
      in case ro_current_out r of
           None \<Rightarrow> Some (r1, w)
         | Some x \<Rightarrow>
             if ro_raw r \<and> f_data m1 = []
             then do { w1 \<leftarrow> w_terminate x False w; Some (r1\<lparr>ro_current_out := None\<rparr>, w1) }
             else do {
               (ok, w1) \<leftarrow> w_write x m1 w;
               (if \<not> ok then do { w2 \<leftarrow> w_rollback x w1; Some (r1\<lparr>ro_current_out := None\<rparr>, w2) }
                else if \<not> f_more m1 then do { w2 \<leftarrow> w_flush x w1; Some (r1\<lparr>ro_current_out := None\<rparr>, w2) }
                else Some (r1, w1))
             })"

definition router_send :: "frame \<Rightarrow> 'a router_scheme \<Rightarrow> sock_pipes \<Rightarrow> (unit result \<times> 'a router_scheme \<times> sock_pipes) option" where
  "router_send m r w =
     (if \<not> ro_more_out r then router_select m r w
      else map_option (Pair (Inr ())) (router_write_part m r w))"

text \<open>Receiving: routing ids that a peer sends again after a reconnection are skipped.\<close>

function recv_peer :: "fq \<Rightarrow> sock_pipes \<Rightarrow> ((frame \<times> nat) option \<times> fq \<times> sock_pipes) option" where
  "recv_peer f w =
     do {
       (q, f1, w1) \<leftarrow> fq_recvpipe f w;
       (case q of
          None \<Rightarrow> Some (None, f1, w1)
        | Some (m, x) \<Rightarrow> if f_is_routing_id m then recv_peer f1 w1 else Some (Some (m, x), f1, w1))
     }"
  by pat_completeness auto
termination
  by (relation "measure (\<lambda>(f, w). fq_avail f w)") (auto dest: fq_recvpipe_avail)

declare recv_peer.simps [simp del]

definition part_received :: "frame \<Rightarrow> 'a router_scheme \<Rightarrow> sock_pipes \<Rightarrow> ('a router_scheme \<times> sock_pipes) option" where
  "part_received m r w =
     (let r1 = r\<lparr>ro_more_in := f_more m\<rparr> in
      if f_more m then Some (r1, w)
      else if ro_terminate_current_in r
      then do {
        x \<leftarrow> ro_current_in r;
        w1 \<leftarrow> w_terminate x True w;
        Some (r1\<lparr>ro_terminate_current_in := False, ro_current_in := None\<rparr>, w1)
      }
      else Some (r1\<lparr>ro_current_in := None\<rparr>, w))"

definition id_frame :: "byte list \<Rightarrow> frame" where
  "id_frame rid = data_frame flag_more rid"

definition router_recv :: "'a router_scheme \<Rightarrow> sock_pipes \<Rightarrow> (frame result \<times> 'a router_scheme \<times> sock_pipes) option" where
  "router_recv r w =
     (if ro_prefetched r
      then (let (m, r1) = (if \<not> ro_routing_id_sent r
                           then (ro_prefetched_id r, r\<lparr>ro_prefetched_id := empty_frame, ro_routing_id_sent := True\<rparr>)
                           else (ro_prefetched_msg r, r\<lparr>ro_prefetched_msg := empty_frame, ro_prefetched := False\<rparr>))
            in map_option (Pair (Inr m)) (part_received m r1 w))
      else do {
        (q, f, w1) \<leftarrow> recv_peer (ro_fq r) w;
        let r1 = r\<lparr>ro_fq := f\<rparr>;
        (case q of
           None \<Rightarrow> Some (Inl EAGAIN, r1, w1)
         | Some (m, x) \<Rightarrow>
             if ro_more_in r then map_option (Pair (Inr m)) (part_received m r1 w1)
             else do {
               rid \<leftarrow> w_routing_id x w1;
               Some (Inr ((id_frame rid)\<lparr>f_metadata := f_metadata m\<rparr>),
                     r1\<lparr>ro_prefetched_msg := m, ro_prefetched := True, ro_current_in := Some x, ro_routing_id_sent := True\<rparr>, w1)
             })
      })"

definition router_rollback :: "'a router_scheme \<Rightarrow> sock_pipes \<Rightarrow> ('a router_scheme \<times> sock_pipes) option" where
  "router_rollback r w =
     (case ro_current_out r of
        None \<Rightarrow> Some (r, w)
      | Some x \<Rightarrow> do { w1 \<leftarrow> w_rollback x w; Some (r\<lparr>ro_current_out := None, ro_more_out := False\<rparr>, w1) })"

definition router_has_in :: "'a router_scheme \<Rightarrow> sock_pipes \<Rightarrow> (bool \<times> 'a router_scheme \<times> sock_pipes) option" where
  "router_has_in r w =
     (if ro_more_in r \<or> ro_prefetched r then Some (True, r, w)
      else do {
        (q, f, w1) \<leftarrow> recv_peer (ro_fq r) w;
        let r1 = r\<lparr>ro_fq := f\<rparr>;
        (case q of
           None \<Rightarrow> Some (False, r1\<lparr>ro_prefetched_msg := empty_frame\<rparr>, w1)
         | Some (m, x) \<Rightarrow>
             do {
               rid \<leftarrow> w_routing_id x w1;
               Some (True, r1\<lparr>ro_prefetched_msg := m, ro_prefetched_id := id_frame rid, ro_prefetched := True,
                 ro_routing_id_sent := False, ro_current_in := Some x\<rparr>, w1)
             })
      })"

fun any_below_hwm :: "(byte list \<times> outpipe) list \<Rightarrow> sock_pipes \<Rightarrow> bool option" where
  "any_below_hwm [] w = Some False"
| "any_below_hwm ((rid, out) # os) w = do { b \<leftarrow> w_check_hwm (op_pipe out) w; c \<leftarrow> any_below_hwm os w; Some (b \<or> c) }"

definition router_has_out :: "'a router_scheme \<Rightarrow> sock_pipes \<Rightarrow> bool option" where
  "router_has_out r w = (if \<not> ro_mandatory r then Some True else any_below_hwm (ro_outpipes r) w)"

definition router_get_credential :: "'a router_scheme \<Rightarrow> sock_pipes \<Rightarrow> byte list option" where
  "router_get_credential r w = fq_get_credential (ro_fq r) w"

text \<open>The result \<open>True\<close> is the event \<open>ZMQ_POLLOUT\<close>.\<close>

definition router_get_peer_state :: "byte list \<Rightarrow> 'a router_scheme \<Rightarrow> sock_pipes \<Rightarrow> bool result option" where
  "router_get_peer_state rid r w =
     (case map_of (ro_outpipes r) rid of
        None \<Rightarrow> Some (Inl EHOSTUNREACH)
      | Some out \<Rightarrow> map_option Inr (w_check_hwm (op_pipe out) w))"

section \<open>Routing\<close>

fun router_sends :: "frame list \<Rightarrow> 'a router_scheme \<Rightarrow> sock_pipes \<Rightarrow> (unit result \<times> 'a router_scheme \<times> sock_pipes) option" where
  "router_sends [] r w = Some (Inr (), r, w)"
| "router_sends (m # ms) r w =
     do {
       (res, r1, w1) \<leftarrow> router_send m r w;
       (case res of Inl err \<Rightarrow> Some (Inl err, r1, w1) | Inr _ \<Rightarrow> router_sends ms r1 w1)
     }"

fun whole_message :: "frame list \<Rightarrow> bool" where
  "whole_message [] \<longleftrightarrow> False"
| "whole_message [m] \<longleftrightarrow> \<not> f_more m"
| "whole_message (m # ms) \<longleftrightarrow> f_more m \<and> whole_message ms"

fun write_all :: "frame list \<Rightarrow> upipe \<Rightarrow> upipe" where
  "write_all [] u = u"
| "write_all (m # ms) u = write_all ms (up_write m (f_more m) u)"

lemma pipe_write_ready:
  assumes "pipe_check_write p = (True, p)" "pp_outpipe p = Some i" "pe_up e i = Some u"
  shows "\<exists>p'. pipe_write m p e = Some (True, p', set_up i (Some (up_write m (f_more m) u)) e) \<and>
    pp_outpipe p' = Some i \<and> pp_state p' = Active \<and> (f_more m \<longrightarrow> p' = p)"
  using assms by (auto simp: pipe_write_def pipe_check_write_def split: if_splits)

lemma set_up_simps: "set_up i a (set_up i b e) = set_up i a e" "pe_up (set_up i a e) i = a"
  by (simp_all add: set_up_def)

lemma router_dropped:
  "whole_message ms \<Longrightarrow> ro_more_out r \<Longrightarrow> ro_current_out r = None \<Longrightarrow> \<not> ro_raw_option r \<Longrightarrow>
   router_sends ms r w = Some (Inr (), r\<lparr>ro_more_out := False\<rparr>, w)"
  by (induction ms arbitrary: r rule: whole_message.induct) (auto simp: router_send_def router_write_part_def Let_def)

lemma router_written:
  assumes "whole_message ms" "ro_more_out r" "ro_current_out r = Some x" "\<not> ro_raw_option r" "\<not> ro_raw r"
    and "w x = Some (p, e)" "pipe_check_write p = (True, p)" "pp_outpipe p = Some i" "pe_up e i = Some u"
  shows "\<exists>p'. router_sends ms r w = Some (Inr (), r\<lparr>ro_more_out := False, ro_current_out := None\<rparr>,
    w(x \<mapsto> (p', send_cmd Activate_read (set_up i (Some (up_flush (write_all ms u))) e))))"
  using assms
proof (induction ms arbitrary: r w e u rule: whole_message.induct)
  case (2 m)
  obtain p' where "pipe_write m p e = Some (True, p', set_up i (Some (up_write m (f_more m) u)) e)"
      "pp_outpipe p' = Some i" "pp_state p' = Active"
    using pipe_write_ready [OF 2(7-9)] by blast
  thus ?case using 2
    by (intro exI [of _ p']) (simp add: router_send_def router_write_part_def w_write_def w_flush_def pipe_flush_def set_up_simps fun_eq_iff)
next
  case (3 m m' ms)
  have more: "f_more m" "whole_message (m' # ms)" using 3(2) by simp_all
  have p: "pipe_write m p e = Some (True, p, set_up i (Some (up_write m (f_more m) u)) e)"
    using pipe_write_ready [OF 3(8-10), of m] more by auto
  let ?w = "w(x \<mapsto> (p, set_up i (Some (up_write m (f_more m) u)) e))"
  have s: "router_send m r w = Some (Inr (), r, ?w)"
    using 3(3-7) p more(1) by (auto simp: router_send_def router_write_part_def w_write_def)
  have n: "router_sends (m # m' # ms) r w = router_sends (m' # ms) r ?w" by (subst router_sends.simps(2)) (simp only: s, simp)
  obtain p' where "router_sends (m' # ms) r ?w = Some (Inr (), r\<lparr>ro_more_out := False, ro_current_out := None\<rparr>,
      ?w(x \<mapsto> (p', send_cmd Activate_read (set_up i (Some (up_flush (write_all (m # m' # ms) u))) e))))"
    using 3(1) [OF more(2) 3(3-6), of ?w "set_up i (Some (up_write m (f_more m) u)) e" "up_write m (f_more m) u"] 3(8,9)
    by (auto simp only: set_up_simps write_all.simps fun_upd_same)
  thus ?case unfolding n by (metis fun_upd_upd)
qed simp


section \<open>The table of peers\<close>

lemma pipe_router_id:
  "pipe_read p e = Some (q, p', e') \<Longrightarrow> pp_router_id p' = pp_router_id p"
  "pipe_write m p e = Some (ok, p', e') \<Longrightarrow> pp_router_id p' = pp_router_id p"
  "pipe_check_write p = (ok, p') \<Longrightarrow> pp_router_id p' = pp_router_id p"
  "pipe_terminate delay p e = Some (p', e') \<Longrightarrow> pp_router_id p' = pp_router_id p"
  by (auto simp: pipe_read_def process_delimiter_def pipe_write_def pipe_check_write_def pipe_terminate_def write_delimiter_def Let_def
      split: if_splits bind_splits option.splits prod.splits pipe_state.splits)

lemma w_routing_id_kept:
  "w_read x w = Some (q, w') \<Longrightarrow> w_routing_id y w' = w_routing_id y w"
  "w_write x m w = Some (ok, w') \<Longrightarrow> w_routing_id y w' = w_routing_id y w"
  "w_check_write x w = Some (ok, w') \<Longrightarrow> w_routing_id y w' = w_routing_id y w"
  "w_flush x w = Some w' \<Longrightarrow> w_routing_id y w' = w_routing_id y w"
  "w_rollback x w = Some w' \<Longrightarrow> w_routing_id y w' = w_routing_id y w"
  "w_terminate x delay w = Some w' \<Longrightarrow> w_routing_id y w' = w_routing_id y w"
  by (auto simp: w_read_def w_write_def w_check_write_def w_flush_def w_rollback_def w_terminate_def w_routing_id_def
      split: bind_splits prod.splits dest: pipe_router_id)

lemma w_set_routing_id_result:
  "w_set_routing_id x rid w = Some w' \<Longrightarrow> w_routing_id y w' = (if y = x then Some rid else w_routing_id y w)"
  by (auto simp: w_set_routing_id_def w_routing_id_def set_router_socket_routing_id_def split: bind_splits)

lemma fq_recvpipe_source:
  "fq_recvpipe f w = Some (q, f', w') \<Longrightarrow> ring_ok f \<Longrightarrow>
     (\<forall>y. w_routing_id y w' = w_routing_id y w) \<and> (\<forall>m x. q = Some (m, x) \<longrightarrow> x \<in> set (ring_pipes f))"
proof (induction f w rule: fq_recvpipe.induct)
  case (1 f w)
  show ?case
  proof (cases "rg_active f = 0")
    case True
    thus ?thesis using 1(2) by (simp add: fq_recvpipe.simps [of f])
  next
    case False
    hence cur: "rg_current f < rg_active f" using 1(3) by (auto simp: ring_ok_def)
    let ?y = "ring_pipes f ! rg_current f"
    have at: "arr_at (rg_current f) (rg_pipes f) = Some ?y" using ring_current_at [OF 1(3)] False by simp
    obtain r w1 where r: "w_read ?y w = Some (r, w1)" using 1(2) False at
      by (auto simp: fq_recvpipe.simps [of f] split: bind_splits)
    note kept = w_routing_id_kept(1) [OF r]
    show ?thesis
    proof (cases r)
      case (Some m)
      thus ?thesis using 1(2) False at r kept arr_at_set [OF at] by (auto simp: fq_recvpipe.simps [of f] Let_def)
    next
      case None
      then obtain f1 where f1: "zmq_assert (\<not> fq_more f) = Some ()" "ring_deactivate (rg_current f) f = Some f1" "fq_recvpipe f1 w1 = Some (q, f', w')"
        using 1(2) False at r by (auto simp: fq_recvpipe.simps [of f] split: bind_splits)
      have ok: "ring_ok f1" "set (ring_pipes f1) = set (ring_pipes f)" using ring_deactivate_ok [OF 1(3) cur] f1(2) by auto
      show ?thesis using 1(1) [OF False at r refl None f1 ok(1)] ok(2) kept by simp
    qed
  qed
qed

lemma recv_peer_source:
  "recv_peer f w = Some (q, f', w') \<Longrightarrow> ring_ok f \<Longrightarrow>
     ring_ok f' \<and> set (ring_pipes f') = set (ring_pipes f) \<and> (\<forall>y. w_routing_id y w' = w_routing_id y w) \<and>
     (\<forall>m x. q = Some (m, x) \<longrightarrow> x \<in> set (ring_pipes f))"
proof (induction f w rule: recv_peer.induct)
  case (1 f w)
  obtain q1 f1 w1 where q1: "fq_recvpipe f w = Some (q1, f1, w1)"
    using 1(2) by (auto simp: recv_peer.simps [of f] split: bind_splits)
  note S = fq_recvpipe_source [OF q1 1(3)] and O = fq_recvpipe_ok [OF q1 1(3)]
  show ?case
  proof (cases "\<exists>m x. q1 = Some (m, x) \<and> f_is_routing_id m")
    case True
    then obtain m x where m: "q1 = Some (m, x)" "f_is_routing_id m" by blast
    hence "recv_peer f1 w1 = Some (q, f', w')" using 1(2) q1 by (simp add: recv_peer.simps [of f])
    thus ?thesis using 1(1) [OF q1 refl refl m(1) refl m(2)] S O by auto
  next
    case False
    hence "q = q1 \<and> f' = f1 \<and> w' = w1" using 1(2) q1 by (auto simp: recv_peer.simps [of f] split: option.splits)
    thus ?thesis using S O by auto
  qed
qed

definition router_pipes :: "'a router_scheme \<Rightarrow> nat set" where
  "router_pipes r = (op_pipe \<circ> snd) ` set (ro_outpipes r)"

lemma router_pipes_upd [simp]: "router_pipes (r\<lparr>ro_fq := f\<rparr>) = router_pipes r" "router_pipes (r\<lparr>ro_anonymous := a\<rparr>) = router_pipes r"
  by (simp_all add: router_pipes_def)

lemma router_pipes_iff: "y \<in> router_pipes r \<longleftrightarrow> (\<exists>rid out. (rid, out) \<in> set (ro_outpipes r) \<and> y = op_pipe out)"
  by (force simp: router_pipes_def)

text \<open>
  The invariant: the routing ids in the table are distinct, each is the routing id of its pipe, and the
  pipes in the table are those of the fair queue and not anonymous.
\<close>

definition peers_ok :: "'a router_scheme \<Rightarrow> sock_pipes \<Rightarrow> bool" where
  "peers_ok r w \<longleftrightarrow>
     distinct (map fst (ro_outpipes r)) \<and> (\<forall>(rid, out) \<in> set (ro_outpipes r). w_routing_id (op_pipe out) w = Some rid)"

definition router_ok :: "'a router_scheme \<Rightarrow> sock_pipes \<Rightarrow> bool" where
  "router_ok r w \<longleftrightarrow>
     ring_ok (ro_fq r) \<and> set (ring_pipes (ro_fq r)) = router_pipes r \<and> router_pipes r \<inter> ro_anonymous r = {} \<and> peers_ok r w"

lemma router_ok_cong:
  assumes "router_ok r w" "\<And>y. w_routing_id y w' = w_routing_id y w"
    "ro_outpipes r' = ro_outpipes r" "ro_anonymous r' = ro_anonymous r" "ring_ok (ro_fq r')"
    "set (ring_pipes (ro_fq r')) = set (ring_pipes (ro_fq r))"
  shows "router_ok r' w'"
  using assms by (simp add: router_ok_def router_pipes_def peers_ok_def)

lemma router_lookup:
  assumes "router_ok r w" "x \<in> router_pipes r"
  shows "\<exists>rid out. w_routing_id x w = Some rid \<and> map_of (ro_outpipes r) rid = Some out \<and> op_pipe out = x"
proof -
  obtain rid out where o: "(rid, out) \<in> set (ro_outpipes r)" "x = op_pipe out" using assms(2) by (auto simp: router_pipes_def)
  hence "w_routing_id x w = Some rid" "map_of (ro_outpipes r) rid = Some out" using assms(1) by (auto simp: router_ok_def peers_ok_def)
  thus ?thesis using o(2) by blast
qed

lemma add_peer_ok:
  assumes "peers_ok r w" "x \<notin> router_pipes r" "add_peer rid x r w = Some (b, r', w')"
  shows "b \<and> peers_ok r' w' \<and> router_pipes r' = insert x (router_pipes r) \<and> ro_fq r' = ro_fq r \<and> ro_anonymous r' = ro_anonymous r"
proof -
  have r': "b" "r' = r\<lparr>ro_outpipes := (rid, \<lparr>op_pipe = x, op_active = True\<rparr>) # ro_outpipes r\<rparr>" "map_of (ro_outpipes r) rid = None"
      "w_set_routing_id x rid w = Some w'"
    using assms(3) by (auto simp: add_peer_def zmq_assert_def split: bind_splits if_splits)
  have "w_routing_id (op_pipe out) w' = Some rid'" if "(rid', out) \<in> set (ro_outpipes r)" for rid' out
    using that assms(1,2) w_set_routing_id_result [OF r'(4)] by (force simp: peers_ok_def router_pipes_def)
  hence "peers_ok r' w'" using assms(1) r'(2,3) w_set_routing_id_result [OF r'(4), of x]
    by (auto simp: peers_ok_def map_of_eq_None_iff)
  thus ?thesis using r'(1,2) by (simp add: router_pipes_def)
qed

lemma peers_ok_pipe:
  "peers_ok r w \<Longrightarrow> (rid, out) \<in> set (ro_outpipes r) \<Longrightarrow> (rid', out') \<in> set (ro_outpipes r) \<Longrightarrow> op_pipe out = op_pipe out' \<Longrightarrow> rid = rid'"
proof -
  assume "peers_ok r w" "(rid, out) \<in> set (ro_outpipes r)" "(rid', out') \<in> set (ro_outpipes r)" and p: "op_pipe out = op_pipe out'"
  hence "w_routing_id (op_pipe out) w = Some rid" "w_routing_id (op_pipe out') w = Some rid'" by (auto simp: peers_ok_def)
  thus "rid = rid'" using p by simp
qed

lemma hand_over_ok:
  assumes ok: "peers_ok r w" and old: "map_of (ro_outpipes r) rid = Some old" and h: "hand_over rid old r w = Some (r', w')"
  shows "peers_ok r' w' \<and> router_pipes r' = router_pipes r \<and> ro_fq r' = ro_fq r \<and> ro_anonymous r' = ro_anonymous r"
proof -
  let ?new = "0 # put_uint32 (ro_next_id r)" and ?os = "ro_outpipes r" and ?x = "op_pipe old"
  let ?os' = "AList.delete rid ((?new, old) # ?os)"
  obtain w1 where w1: "w_set_routing_id ?x ?new w = Some w1" "map_of ?os ?new = None" "\<forall>y. w_routing_id y w' = w_routing_id y w1"
      "ro_outpipes r' = ?os'" "ro_fq r' = ro_fq r" "ro_anonymous r' = ro_anonymous r"
    using h by (auto simp: hand_over_def generate_id_def zmq_assert_def Let_def w_routing_id_kept(6) split: bind_splits if_splits)
  have mem: "(rid, old) \<in> set ?os" using old by (rule map_of_SomeD)
  have new: "?new \<noteq> rid" using w1(2) old by auto
  have d: "distinct (map fst ?os)" using ok by (simp add: peers_ok_def)
  have set: "set ?os' = insert (?new, old) {q \<in> set ?os. fst q \<noteq> rid}" using new by (auto simp: AList.delete_eq)
  have id: "w_routing_id y w' = (if y = ?x then Some ?new else w_routing_id y w)" for y
    using w1(3) w_set_routing_id_result [OF w1(1)] by simp
  have "w_routing_id (op_pipe out) w' = Some rid'" if "(rid', out) \<in> set ?os" "rid' \<noteq> rid" for rid' out
    using that id [of "op_pipe out"] peers_ok_pipe [OF ok that(1) mem] ok by (auto simp: peers_ok_def)
  hence ids: "\<forall>(rid', out) \<in> set ?os'. w_routing_id (op_pipe out) w' = Some rid'" unfolding set using id [of ?x] by auto
  have "fst q \<in> fst ` set ?os" if "q \<in> set (AList.delete rid ?os)" for q using that by (auto simp: AList.delete_eq)
  hence "distinct (map fst ?os')" using d w1(2) new by (auto simp: AList.distinct_delete map_of_eq_None_iff)
  hence "peers_ok r' w'" using ids by (simp add: peers_ok_def w1(4))
  moreover have "y \<in> router_pipes r' \<longleftrightarrow> y \<in> router_pipes r" for y
  proof -
    have "(rid', out) \<in> set (ro_outpipes r') \<longleftrightarrow> rid' = ?new \<and> out = old \<or> (rid', out) \<in> set ?os \<and> rid' \<noteq> rid" for rid' out
      unfolding w1(4) set by simp
    moreover have "out = old" if "(rid, out) \<in> set ?os" for out using that mem d by (metis eq_key_imp_eq_value)
    ultimately show ?thesis unfolding router_pipes_iff using mem by metis
  qed
  ultimately show ?thesis using w1(5,6) by blast
qed

lemma identify_peer_ok:
  assumes ok: "peers_ok r w" and x: "x \<notin> router_pipes r" and i: "identify_peer x r w = Some (b, r', w')"
  shows "peers_ok r' w' \<and> router_pipes r' = (if b then insert x (router_pipes r) else router_pipes r) \<and>
    ro_fq r' = ro_fq r \<and> ro_anonymous r' = ro_anonymous r"
proof -
  have upd: "peers_ok (r\<lparr>ro_connect_id := c\<rparr>) v = peers_ok r v" "router_pipes (r\<lparr>ro_connect_id := c\<rparr>) = router_pipes r"
    "peers_ok (snd (generate_id r)) v = peers_ok r v" "router_pipes (snd (generate_id r)) = router_pipes r"
    "ro_fq (snd (generate_id r)) = ro_fq r" "ro_anonymous (snd (generate_id r)) = ro_anonymous r" for c v
    by (simp_all add: peers_ok_def router_pipes_def generate_id_def)
  have add: ?thesis if "add_peer rid x r1 v = Some (b, r', w')" "peers_ok r1 v" "router_pipes r1 = router_pipes r"
      "ro_fq r1 = ro_fq r" "ro_anonymous r1 = ro_anonymous r" for rid r1 v
    using add_peer_ok [OF that(2) _ that(1)] x that(3-5) by auto
  consider (conn) "ro_connect_id r \<noteq> []" | (raw) "ro_connect_id r = []" "ro_raw_option r"
    | (msg) "ro_connect_id r = []" "\<not> ro_raw_option r" by blast
  thus ?thesis
  proof cases
    case conn
    thus ?thesis using i ok upd(1,2)
      by (intro add [of "ro_connect_id r" "r\<lparr>ro_connect_id := []\<rparr>" w]) (auto simp: identify_peer_def split: bind_splits)
  next
    case raw
    thus ?thesis using i ok upd
      by (intro add [of "fst (generate_id r)" "snd (generate_id r)" w]) (auto simp: identify_peer_def split: prod.splits)
  next
    case msg
    then obtain m w1 where m: "w_read x w = Some (m, w1)" using i by (auto simp: identify_peer_def split: bind_splits)
    have ok1: "peers_ok r w1" using ok w_routing_id_kept(1) [OF m] by (simp add: peers_ok_def)
    show ?thesis
    proof (cases "\<exists>f. m = Some f \<and> f_data f = []")
      case True
      thus ?thesis using i ok1 upd msg m
        by (intro add [of "fst (generate_id r)" "snd (generate_id r)" w1]) (auto simp: identify_peer_def split: prod.splits)
    next
      case False
      show ?thesis
      proof (cases "\<exists>f old. m = Some f \<and> map_of (ro_outpipes r) (f_data f) = Some old \<and> ro_handover r")
        case True
        then obtain f old where f: "m = Some f" "map_of (ro_outpipes r) (f_data f) = Some old" "ro_handover r" by blast
        then obtain r1 w2 where h: "hand_over (f_data f) old r w1 = Some (r1, w2)" "add_peer (f_data f) x r1 w2 = Some (b, r', w')"
          using i msg m False by (auto simp: identify_peer_def split: bind_splits)
        thus ?thesis using hand_over_ok [OF ok1 f(2) h(1)] by (intro add [OF h(2)]) auto
      next
        case no: False
        have "(\<exists>rid. add_peer rid x r w1 = Some (b, r', w')) \<or> \<not> b \<and> r' = r \<and> w' = w1"
          using i msg m False no by (auto simp: identify_peer_def split: bind_splits option.splits if_splits)
        thus ?thesis using add ok1 by auto
      qed
    qed
  qed
qed

lemma router_identified:
  assumes ok: "router_ok r w" and x: "x \<notin> router_pipes r" and i: "identify_peer x r w = Some (b, r1, w1)"
  shows "if b then \<exists>f. fq_attach x (ro_fq r1) = Some f \<and> router_ok (r1\<lparr>ro_anonymous := ro_anonymous r1 - {x}, ro_fq := f\<rparr>) w1 \<and>
      x \<in> router_pipes r1
    else router_ok r1 w1 \<and> router_ok (r1\<lparr>ro_anonymous := insert x (ro_anonymous r1)\<rparr>) w1"
proof -
  have o: "peers_ok r w" "ring_ok (ro_fq r)" "set (ring_pipes (ro_fq r)) = router_pipes r" "router_pipes r \<inter> ro_anonymous r = {}"
    using ok by (simp_all add: router_ok_def)
  note I = identify_peer_ok [OF o(1) x i]
  have "router_pipes (r1\<lparr>ro_anonymous := a, ro_fq := f\<rparr>) = router_pipes r1" "router_pipes (r1\<lparr>ro_anonymous := a\<rparr>) = router_pipes r1"
    "peers_ok (r1\<lparr>ro_anonymous := a, ro_fq := f\<rparr>) w1 = peers_ok r1 w1" "peers_ok (r1\<lparr>ro_anonymous := a\<rparr>) w1 = peers_ok r1 w1" for a f
    by (simp_all add: router_pipes_def peers_ok_def)
  thus ?thesis using I o x fq_attach_ok [OF o(2), of x] by (cases b) (auto simp: router_ok_def)
qed

lemma router_attach_ok:
  assumes ok: "router_ok r w" and x: "x \<notin> router_pipes r" "x \<notin> ro_anonymous r" and a: "router_attach x r w = Some (r', w')"
  shows "router_ok r' w' \<and> x \<in> router_pipes r' \<union> ro_anonymous r'"
proof -
  obtain w1 b r1 w2 where i: "identify_peer x r w1 = Some (b, r1, w2)" "\<forall>y. w_routing_id y w1 = w_routing_id y w"
      "(if b then do { f \<leftarrow> fq_attach x (ro_fq r1); Some (r1\<lparr>ro_fq := f\<rparr>, w2) }
        else Some (r1\<lparr>ro_anonymous := insert x (ro_anonymous r1)\<rparr>, w2)) = Some (r', w')"
    using a by (auto simp: router_attach_def w_routing_id_kept bind_eq_Some_conv split: if_splits)
  have ok1: "router_ok r w1" using router_ok_cong [OF ok, of w1 r] i(2) ok by (simp add: router_ok_def)
  have "ro_anonymous r1 = ro_anonymous r" using identify_peer_ok [OF _ x(1) i(1)] ok1 by (simp add: router_ok_def)
  hence "r1\<lparr>ro_anonymous := ro_anonymous r1 - {x}, ro_fq := f\<rparr> = r1\<lparr>ro_fq := f\<rparr>" for f using x(2) by simp
  thus ?thesis using router_identified [OF ok1 x(1) i(1)] i(3) by (cases b) auto
qed

lemma router_read_activated_ok:
  assumes ok: "router_ok r w" and a: "router_read_activated x r w = Some (r', w')"
    and x: "x \<in> ro_anonymous r \<or> x \<in> router_pipes r \<and> x \<notin> set (active_pipes (ro_fq r))"
  shows "router_ok r' w'"
proof (cases "x \<in> ro_anonymous r")
  case True
  hence nx: "x \<notin> router_pipes r" using ok by (auto simp: router_ok_def)
  obtain b r1 w1 where i: "identify_peer x r w = Some (b, r1, w1)" using a True by (auto simp: router_read_activated_def split: bind_splits)
  thus ?thesis using router_identified [OF ok nx i] a True by (cases b) (auto simp: router_read_activated_def)
next
  case False
  hence "x \<in> set (ring_pipes (ro_fq r))" "ring_ok (ro_fq r)" using x ok by (auto simp: router_ok_def)
  then obtain f where "fq_activated x (ro_fq r) = Some f" "ring_ok f" "set (ring_pipes f) = set (ring_pipes (ro_fq r))"
    using ring_activated_ok [of "ro_fq r" x] x False by (auto simp: fq_activated_def)
  thus ?thesis using a False router_ok_cong [OF ok, of w "r\<lparr>ro_fq := f\<rparr>"] by (auto simp: router_read_activated_def)
qed

lemma peers_ok_map_of:
  "peers_ok r w \<longleftrightarrow> distinct (map fst (ro_outpipes r)) \<and>
     (\<forall>rid out. map_of (ro_outpipes r) rid = Some out \<longrightarrow> w_routing_id (op_pipe out) w = Some rid)"
  unfolding peers_ok_def by (auto dest: map_of_SomeD)

lemma router_pipes_map_of:
  "distinct (map fst (ro_outpipes r)) \<Longrightarrow> y \<in> router_pipes r \<longleftrightarrow> (\<exists>rid out. map_of (ro_outpipes r) rid = Some out \<and> y = op_pipe out)"
  unfolding router_pipes_iff by auto

lemma router_pipe_terminated_ok:
  assumes ok: "router_ok r w" and x: "x \<in> router_pipes r" and rb: "w_rollback x w = Some w'"
  shows "\<exists>r'. router_pipe_terminated x r w = Some (r', w') \<and> router_ok r' w' \<and> router_pipes r' = router_pipes r - {x}"
proof -
  have o: "ring_ok (ro_fq r)" "set (ring_pipes (ro_fq r)) = router_pipes r" "router_pipes r \<inter> ro_anonymous r = {}"
      "distinct (map fst (ro_outpipes r))" using ok by (simp_all add: router_ok_def peers_ok_def)
  have p: "\<forall>rid out. map_of (ro_outpipes r) rid = Some out \<longrightarrow> w_routing_id (op_pipe out) w = Some rid"
    using ok by (simp add: router_ok_def peers_ok_map_of)
  obtain rid out where rid: "w_routing_id x w = Some rid" "map_of (ro_outpipes r) rid = Some out" "op_pipe out = x"
    using router_lookup [OF ok x] by blast
  have "x \<in> set (ring_pipes (ro_fq r))" "w x \<noteq> None" using x o(2) rid(1) by (auto simp: w_routing_id_def)
  then obtain f where f: "fq_pipe_terminated x w (ro_fq r) = Some f" "ring_ok f" "set (ring_pipes f) = set (ring_pipes (ro_fq r)) - {x}"
    using fq_terminated_ok [OF o(1)] by blast
  let ?r = "r\<lparr>ro_outpipes := AList.delete rid (ro_outpipes r), ro_fq := f,
    ro_current_out := if ro_current_out r = Some x then None else ro_current_out r\<rparr>"
  have m: "map_of (ro_outpipes ?r) = (map_of (ro_outpipes r))(rid := None)" "distinct (map fst (ro_outpipes ?r))"
    using o(4) by (simp_all add: AList.delete_conv' AList.distinct_delete)
  have t: "router_pipe_terminated x r w = Some (?r, w')"
    using rid f(1) rb x o(3) by (auto simp: router_pipe_terminated_def zmq_assert_def)
  have "y \<in> router_pipes ?r \<longleftrightarrow> y \<in> router_pipes r - {x}" for y
  proof -
    have "((map_of (ro_outpipes r))(rid := None)) rid' = Some out' \<longleftrightarrow> map_of (ro_outpipes r) rid' = Some out' \<and> op_pipe out' \<noteq> x" for rid' out'
      using p [rule_format, of rid' out'] rid by (cases "rid' = rid") auto
    thus ?thesis unfolding Diff_iff router_pipes_map_of [OF m(2)] router_pipes_map_of [OF o(4)] m(1) by auto
  qed
  hence pipes: "router_pipes ?r = router_pipes r - {x}" by blast
  have "peers_ok ?r w'" unfolding peers_ok_map_of m(1) using m(2) p w_routing_id_kept(5) [OF rb] by simp
  hence "router_ok ?r w'" unfolding router_ok_def pipes using f(2,3) o(2,3) by auto
  thus ?thesis using t pipes by blast
qed

lemma router_update_ok:
  assumes ok: "router_ok r w" and out: "map_of (ro_outpipes r) rid = Some out" "op_pipe out' = op_pipe out"
  shows "router_ok (r\<lparr>ro_outpipes := AList.update rid out' (ro_outpipes r)\<rparr>) w \<and>
    router_pipes (r\<lparr>ro_outpipes := AList.update rid out' (ro_outpipes r)\<rparr>) = router_pipes r"
proof -
  let ?r = "r\<lparr>ro_outpipes := AList.update rid out' (ro_outpipes r)\<rparr>"
  have o: "distinct (map fst (ro_outpipes r))" "\<forall>rid out. map_of (ro_outpipes r) rid = Some out \<longrightarrow> w_routing_id (op_pipe out) w = Some rid"
    using ok by (simp_all add: router_ok_def peers_ok_map_of)
  have m: "map_of (ro_outpipes ?r) = (map_of (ro_outpipes r))(rid \<mapsto> out')" "distinct (map fst (ro_outpipes ?r))"
    using o(1) by (simp_all add: AList.update_conv' AList.distinct_update)
  have "peers_ok ?r w" unfolding peers_ok_map_of m(1) using m(2) o(2) out by simp
  moreover have "y \<in> router_pipes ?r \<longleftrightarrow> y \<in> router_pipes r" for y
    unfolding router_pipes_map_of [OF m(2)] router_pipes_map_of [OF o(1)] m(1) using out by auto (metis option.inject)
  ultimately show ?thesis using ok unfolding router_ok_def by auto
qed

lemma router_send_ok:
  assumes ok: "router_ok r w" and s: "router_send m r w = Some (res, r', w')"
  shows "router_ok r' w' \<and> router_pipes r' = router_pipes r"
proof -
  have same: "router_ok q v \<and> router_pipes q = router_pipes r" if "ro_outpipes q = ro_outpipes r" "ro_fq q = ro_fq r"
      "ro_anonymous q = ro_anonymous r" "\<And>y. w_routing_id y v = w_routing_id y w" for q :: "'a router_scheme" and v
    using router_ok_cong [OF ok that(4,1,3)] that(1,2) ok by (simp add: router_pipes_def router_ok_def)
  show ?thesis
  proof (cases "ro_more_out r")
    case True
    hence "router_write_part m r w = Some (r', w')" using s by (auto simp: router_send_def)
    hence "ro_outpipes r' = ro_outpipes r \<and> ro_fq r' = ro_fq r \<and> ro_anonymous r' = ro_anonymous r \<and> (\<forall>y. w_routing_id y w' = w_routing_id y w)"
      by (auto simp: router_write_part_def Let_def w_routing_id_kept split: option.splits if_splits bind_splits)
    thus ?thesis by (intro same) auto
  next
    case False
    hence sel: "router_select m r w = Some (res, r', w')" using s by (simp add: router_send_def)
    show ?thesis
    proof (cases "\<exists>out. f_more m \<and> map_of (ro_outpipes r) (f_data m) = Some out \<and> map_option fst (w_check_write (op_pipe out) w) \<noteq> Some True")
      case True
      then obtain out where out: "f_more m" "map_of (ro_outpipes r) (f_data m) = Some out"
          "map_option fst (w_check_write (op_pipe out) w) \<noteq> Some True" by blast
      let ?q = "r\<lparr>ro_outpipes := AList.update (f_data m) (out\<lparr>op_active := False\<rparr>) (ro_outpipes r)\<rparr>"
      have r': "ro_outpipes r' = ro_outpipes ?q" "ro_fq r' = ro_fq ?q" "ro_anonymous r' = ro_anonymous ?q" "\<forall>y. w_routing_id y w' = w_routing_id y w"
      proof -
        obtain b w1 where c: "w_check_write (op_pipe out) w = Some (b, w1)" using sel out(1,2) by (auto simp: router_select_def Let_def split: bind_splits)
        hence "\<not> b" using out(3) by simp
        then obtain below where "w_check_hwm (op_pipe out) w1 = Some below" using sel out(1,2) c by (auto simp: router_select_def Let_def split: bind_splits)
        hence "w' = w1 \<and> (r' = ?q\<lparr>ro_more_out := False\<rparr> \<or> r' = ?q\<lparr>ro_more_out := True\<rparr>)"
          using sel out(1,2) c \<open>\<not> b\<close> by (cases "ro_mandatory r") (auto simp: router_select_def Let_def split: bind_splits)
        thus "ro_outpipes r' = ro_outpipes ?q" "ro_fq r' = ro_fq ?q" "ro_anonymous r' = ro_anonymous ?q" "\<forall>y. w_routing_id y w' = w_routing_id y w"
          using w_routing_id_kept(3) [OF c] by auto
      qed
      note U = router_update_ok [OF ok out(2), of "out\<lparr>op_active := False\<rparr>"]
      have "router_pipes r' = router_pipes ?q" by (simp add: router_pipes_def r'(1))
      moreover have "router_ok r' w'" using router_ok_cong [of ?q w w' r'] U r' ok by (simp add: router_ok_def)
      ultimately show ?thesis using U by simp
    next
      case no: False
      have "ro_outpipes r' = ro_outpipes r \<and> ro_fq r' = ro_fq r \<and> ro_anonymous r' = ro_anonymous r \<and> (\<forall>y. w_routing_id y w' = w_routing_id y w)"
      proof (cases "f_more m \<and> map_of (ro_outpipes r) (f_data m) \<noteq> None")
        case True
        then obtain out w1 where c: "map_of (ro_outpipes r) (f_data m) = Some out" "w_check_write (op_pipe out) w = Some (True, w1)" using no by fastforce
        thus ?thesis using sel True w_routing_id_kept(3) [OF c(2)] by (auto simp: router_select_def Let_def split: bind_splits)
      next
        case False
        thus ?thesis using sel by (auto simp: router_select_def Let_def split: bind_splits if_splits)
      qed
      thus ?thesis by (intro same) auto
    qed
  qed
qed

lemma part_received_kept:
  "part_received m r w = Some (r', w') \<Longrightarrow> ro_outpipes r' = ro_outpipes r \<and> ro_fq r' = ro_fq r \<and> ro_anonymous r' = ro_anonymous r \<and>
     (\<forall>y. w_routing_id y w' = w_routing_id y w)"
  by (auto simp: part_received_def Let_def w_routing_id_kept(6) split: if_splits bind_splits)

lemma router_part_ok: "router_ok r w \<Longrightarrow> part_received m r w = Some (r', w') \<Longrightarrow> router_ok r' w'"
  using part_received_kept [of m r w r' w'] router_ok_cong [of r w w' r'] by (simp add: router_ok_def)

lemma router_recv_ok:
  assumes ok: "router_ok r w" and s: "router_recv r w = Some (res, r', w')"
  shows "router_ok r' w' \<and> (\<not> ro_prefetched r \<and> \<not> ro_more_in r \<and> res = Inr m \<longrightarrow>
    (\<exists>out. f_more m \<and> map_of (ro_outpipes r') (f_data m) = Some out \<and> ro_current_in r' = Some (op_pipe out)))"
proof (cases "ro_prefetched r")
  case True
  let ?a = "r\<lparr>ro_prefetched_id := empty_frame, ro_routing_id_sent := True\<rparr>" and ?b = "r\<lparr>ro_prefetched_msg := empty_frame, ro_prefetched := False\<rparr>"
  have "router_ok ?a w" "router_ok ?b w" using ok by (simp_all add: router_ok_def router_pipes_def peers_ok_def)
  moreover have "\<exists>p q. part_received p q w = Some (r', w') \<and> (q = ?a \<or> q = ?b)"
    using s True by (cases "ro_routing_id_sent r") (auto simp: router_recv_def)
  ultimately show ?thesis using True router_part_ok by blast
next
  case False
  then obtain q f w1 where q: "recv_peer (ro_fq r) w = Some (q, f, w1)" using s by (auto simp: router_recv_def split: bind_splits)
  have "ring_ok (ro_fq r)" using ok by (simp add: router_ok_def)
  note S = recv_peer_source [OF q this]
  have ok1: "router_ok q1 w1" if "ro_outpipes q1 = ro_outpipes r" "ro_anonymous q1 = ro_anonymous r" "ro_fq q1 = f" for q1 :: "'a router_scheme"
    using router_ok_cong [OF ok, of w1 q1] S that by simp
  show ?thesis
  proof (cases q)
    case None
    thus ?thesis using s False q ok1 [of "r\<lparr>ro_fq := f\<rparr>"] by (auto simp: router_recv_def)
  next
    case (Some mx)
    obtain p x where mx: "mx = (p, x)" by (cases mx)
    show ?thesis
    proof (cases "ro_more_in r")
      case True
      hence "part_received p (r\<lparr>ro_fq := f\<rparr>) w1 = Some (r', w')" using s False q Some mx by (auto simp: router_recv_def)
      thus ?thesis using True router_part_ok [OF ok1 [of "r\<lparr>ro_fq := f\<rparr>"]] by simp
    next
      case first: False
      have x: "x \<in> router_pipes r" using S Some mx ok by (simp add: router_ok_def)
      have okr: "router_ok r w1" using router_ok_cong [OF ok, of w1 r] S ok by (simp add: router_ok_def)
      obtain rid out where rid: "w_routing_id x w1 = Some rid" "map_of (ro_outpipes r) rid = Some out" "op_pipe out = x"
        using router_lookup [OF okr x] by blast
      let ?r = "r\<lparr>ro_fq := f, ro_prefetched_msg := p, ro_prefetched := True, ro_current_in := Some x, ro_routing_id_sent := True\<rparr>"
      have r: "res = Inr ((id_frame rid)\<lparr>f_metadata := f_metadata p\<rparr>)" "r' = ?r" "w' = w1"
        using s False first q Some mx rid(1) by (auto simp: router_recv_def Let_def)
      have "f_more (id_frame rid\<lparr>f_metadata := md\<rparr>)" "f_data (id_frame rid\<lparr>f_metadata := md\<rparr>) = rid" for md
        by (simp_all add: id_frame_def data_frame_def f_more_def has_flag_def flag_more_def)
      thus ?thesis using r rid(2,3) ok1 [of ?r] by auto
    qed
  qed
qed


text \<open>A socket with one peer.\<close>

definition one_peer :: router where
  "one_peer = (router_new 0)\<lparr>ro_outpipes := [([97], \<lparr>op_pipe = 0, op_active = True\<rparr>)],
     ro_fq := fq_new\<lparr>rg_pipes := \<lparr>ar_items = [0], ar_index = int\<rparr>, rg_active := 1\<rparr>\<rparr>"

definition peer_pipe :: "pipe \<times> pipe_env" where
  "peer_pipe = (set_router_socket_routing_id [97] (fst ready_pipe), snd ready_pipe)"

lemma one_peer_ok: "router_ok one_peer [0 \<mapsto> peer_pipe]" "router_pipes one_peer = {0}"
  by (simp_all add: one_peer_def peer_pipe_def router_ok_def router_pipes_def peers_ok_def router_new_def ring_ok_def arr_ok_def
      arr_size_def w_routing_id_def set_router_socket_routing_id_def fq_new_def)



end
