(* ===== verification/Z85.thy ===== *)
theory Z85
  imports Prelude
begin

text \<open>
  The text encoding of keys, \<open>zmq_z85_encode\<close> and \<open>zmq_z85_decode\<close> of \<open>src/zmq_utils.cpp\<close>: four bytes
  become five printable characters.  A string of C is the list of its characters up to the terminating
  zero; what follows a zero in the list is not read.
\<close>

section \<open>Tables\<close>

definition z85_encoder :: "byte list" where
  "z85_encoder = map of_char ''0123456789abcdefghijklmnopqrstuvwxyzABCDEFGHIJKLMNOPQRSTUVWXYZ.-:+=^!/*?&<>()[]{}@%$#''"

definition z85_decoder :: "byte list" where
  "z85_decoder = [
    0xFF, 0x44, 0xFF, 0x54, 0x53, 0x52, 0x48, 0xFF,
    0x4B, 0x4C, 0x46, 0x41, 0xFF, 0x3F, 0x3E, 0x45,
    0x00, 0x01, 0x02, 0x03, 0x04, 0x05, 0x06, 0x07,
    0x08, 0x09, 0x40, 0xFF, 0x49, 0x42, 0x4A, 0x47,
    0x51, 0x24, 0x25, 0x26, 0x27, 0x28, 0x29, 0x2A,
    0x2B, 0x2C, 0x2D, 0x2E, 0x2F, 0x30, 0x31, 0x32,
    0x33, 0x34, 0x35, 0x36, 0x37, 0x38, 0x39, 0x3A,
    0x3B, 0x3C, 0x3D, 0x4D, 0xFF, 0x4E, 0x43, 0xFF,
    0xFF, 0x0A, 0x0B, 0x0C, 0x0D, 0x0E, 0x0F, 0x10,
    0x11, 0x12, 0x13, 0x14, 0x15, 0x16, 0x17, 0x18,
    0x19, 0x1A, 0x1B, 0x1C, 0x1D, 0x1E, 0x1F, 0x20,
    0x21, 0x22, 0x23, 0x4F, 0xFF, 0x50, 0xFF, 0xFF]"

section \<open>Encoding\<close>

function encode_value :: "u32 \<Rightarrow> u32 \<Rightarrow> byte list" where
  "encode_value value divisor =
     (if divisor = 0 then [] else z85_encoder ! unat (value div divisor mod 85) # encode_value value (divisor div 85))"
  by pat_completeness auto
termination
  by (relation "measure (\<lambda>(value, divisor). unat divisor)") (auto simp: unat_div word_gt_0 unat_gt_0)

declare encode_value.simps [simp del]

fun encode_loop :: "u32 \<Rightarrow> nat \<Rightarrow> byte list \<Rightarrow> byte list" where
  "encode_loop value byte_nbr [] = []"
| "encode_loop value byte_nbr (d # data) =
     (let value = value * 256 + ucast d; byte_nbr = byte_nbr + 1 in
      if byte_nbr mod 4 = 0
      then encode_value value (85 * 85 * 85 * 85) @ encode_loop 0 byte_nbr data
      else encode_loop value byte_nbr data)"

text \<open>
  The index of the loop is a 32-bit integer that is compared with a 64-bit size: for larger data the loop
  does not end, which is \<open>None\<close>.
\<close>

definition zmq_z85_encode :: "byte list \<Rightarrow> byte list result option" where
  "zmq_z85_encode data =
     (if length data mod 4 \<noteq> 0 then Some (Inl EINVAL)
      else if 2 ^ 32 \<le> length data then None
      else (let dest = encode_loop 0 0 data
            in do { zmq_assert (length dest = length data * 5 div 4); Some (Inr dest) }))"

section \<open>Decoding\<close>

function decode_value :: "u32 \<Rightarrow> u32 \<Rightarrow> byte list" where
  "decode_value value divisor =
     (if divisor = 0 then [] else ucast (value div divisor mod 256) # decode_value value (divisor div 256))"
  by pat_completeness auto
termination
  by (relation "measure (\<lambda>(value, divisor). unat divisor)") (auto simp: unat_div word_gt_0 unat_gt_0)

declare decode_value.simps [simp del]

definition decode_char :: "u32 \<Rightarrow> byte \<Rightarrow> u32 option" where
  "decode_char value c =
     (if 0xFFFFFFFF div 85 < value then None
      else (let value = value * 85; index = c - 32 in
            if 96 \<le> index then None
            else (let summand = (ucast (z85_decoder ! unat index) :: u32) in
                  if summand = 0xFF \<or> 0xFFFFFFFF - value < summand then None else Some (value + summand))))"

fun decode_loop :: "u32 \<Rightarrow> nat \<Rightarrow> byte list \<Rightarrow> byte list \<Rightarrow> (byte list \<times> nat) option" where
  "decode_loop value char_nbr dest [] = Some (dest, char_nbr)"
| "decode_loop value char_nbr dest (c # string) =
     (if c = 0 then Some (dest, char_nbr)
      else (case decode_char value c of
              None \<Rightarrow> None
            | Some value \<Rightarrow>
                if (char_nbr + 1) mod 5 = 0
                then decode_loop 0 (char_nbr + 1) (dest @ decode_value value (256 * 256 * 256)) string
                else decode_loop value (char_nbr + 1) dest string))"

definition zmq_z85_decode :: "byte list \<Rightarrow> byte list result option" where
  "zmq_z85_decode string =
     (case decode_loop 0 0 [] string of
        None \<Rightarrow> Some (Inl EINVAL)
      | Some (dest, char_nbr) \<Rightarrow>
          if char_nbr mod 5 \<noteq> 0 then Some (Inl EINVAL)
          else do { zmq_assert (length dest = char_nbr * 4 div 5); Some (Inr dest) })"

section \<open>Digits\<close>

lemma length_tables: "length z85_encoder = 85" "length z85_decoder = 96"
  by (simp_all add: z85_encoder_def z85_decoder_def)

lemma encoder_bytes: "z85_encoder =
   [48, 49, 50, 51, 52, 53, 54, 55, 56, 57, 97, 98, 99, 100, 101, 102, 103, 104, 105, 106, 107, 108, 109, 110, 111, 112,
    113, 114, 115, 116, 117, 118, 119, 120, 121, 122, 65, 66, 67, 68, 69, 70, 71, 72, 73, 74, 75, 76, 77, 78, 79, 80, 81,
    82, 83, 84, 85, 86, 87, 88, 89, 90, 46, 45, 58, 43, 61, 94, 33, 47, 42, 63, 38, 60, 62, 40, 41, 91, 93, 123, 125, 64,
    37, 36, 35]"
  by (simp add: z85_encoder_def)

lemma encoder_table:
  "list_all (\<lambda>(x, c). c \<noteq> 0 \<and> c - 32 < 96 \<and> z85_decoder ! unat (c - 32) = of_nat x) (zip [0..<85] z85_encoder)"
  by (simp add: encoder_bytes z85_decoder_def upt_rec)

lemma decoder_table:
  "list_all (\<lambda>(i, x). x = 0xFF \<or> x < 85 \<and> z85_encoder ! unat x = of_nat i + 32) (zip [0..<96] z85_decoder)"
  by (simp add: encoder_bytes z85_decoder_def upt_rec)

lemma encoder_digit:
  assumes "x < 85"
  shows "z85_encoder ! x \<noteq> 0" "z85_encoder ! x - 32 < 96" "z85_decoder ! unat (z85_encoder ! x - 32) = of_nat x"
  using encoder_table assms by (auto simp: list_all_length length_tables)

lemma decoder_digit:
  assumes "i < 96" "z85_decoder ! i \<noteq> 0xFF"
  shows "z85_decoder ! i < 85" "z85_encoder ! unat (z85_decoder ! i) = of_nat i + 32"
  using decoder_table assms by (auto simp: list_all_length length_tables)

text \<open>A character adds a digit, unless the value exceeds 32 bits.\<close>

lemma unat_ucast_byte: "unat (ucast (b :: byte) :: u32) = unat b"
  using unsigned_less [where 'a = nat, of b] by (simp add: unsigned_ucast_eq take_bit_eq_mod)

lemma times_85: "0xFFFFFFFF div 85 < (v :: u32) \<longleftrightarrow> 2 ^ 32 \<le> unat v * 85"
  by (simp add: word_less_nat_alt unat_div; linarith)

lemma plus_digit:
  assumes "unat (v :: u32) * 85 < 2 ^ 32" "unat (d :: u32) = x"
  shows "0xFFFFFFFF - v * 85 < d \<longleftrightarrow> 2 ^ 32 \<le> unat v * 85 + x"
    and "v * 85 + d = of_nat (unat v * 85 + x)"
proof -
  have u: "unat (v * 85) = unat v * 85" using assms by (simp add: unat_word_ariths)
  have "unat (0xFFFFFFFF - v * 85) = 0xFFFFFFFF - unat v * 85"
    using assms(1) by (subst unat_sub) (simp_all add: word_le_nat_alt u)
  thus "0xFFFFFFFF - v * 85 < d \<longleftrightarrow> 2 ^ 32 \<le> unat v * 85 + x" using assms by (simp add: word_less_nat_alt; linarith)
  show "v * 85 + d = of_nat (unat v * 85 + x)" using assms(2) by auto
qed

lemma decode_char_value:
  assumes "c - 32 < 96" "z85_decoder ! unat (c - 32) = of_nat x" "x < 85"
  shows "decode_char v c = (if unat v * 85 + x < 2 ^ 32 then Some (of_nat (unat v * 85 + x)) else None)"
proof -
  let ?d = "ucast (of_nat x :: byte) :: u32"
  have d: "unat ?d = x" unfolding unat_ucast_byte using assms(3) by (simp add: unat_of_nat)
  hence "?d \<noteq> 0xFF" using assms(3) by (auto simp: word_unat_eq_iff)
  moreover have "\<not> 96 \<le> c - 32" using assms(1) by simp
  ultimately have "decode_char v c = (if 2 ^ 32 \<le> unat v * 85 \<or> 0xFFFFFFFF - v * 85 < ?d then None else Some (v * 85 + ?d))"
    unfolding decode_char_def times_85 Let_def assms(2) by simp
  thus ?thesis using plus_digit [OF _ d, of v] by (cases "2 ^ 32 \<le> unat v * 85") simp_all
qed

lemma decode_char_digit:
  assumes "x < 85"
  shows "decode_char v (z85_encoder ! x) = (if unat v * 85 + x < 2 ^ 32 then Some (of_nat (unat v * 85 + x)) else None)"
  using decode_char_value encoder_digit [OF assms] assms by blast

lemma decode_char_inverse:
  assumes "decode_char v c = Some v'"
  shows "\<exists>x < 85. c = z85_encoder ! x \<and> unat v * 85 + x < 2 ^ 32 \<and> v' = of_nat (unat v * 85 + x)"
proof -
  have r: "c - 32 < 96" "(ucast (z85_decoder ! unat (c - 32)) :: u32) \<noteq> 0xFF"
    using assms by (auto simp: decode_char_def Let_def split: if_splits)
  have i: "unat (c - 32) < 96" using r(1) by (simp add: word_less_nat_alt)
  have "z85_decoder ! unat (c - 32) \<noteq> 0xFF" using r(2) by auto
  note D = decoder_digit [OF i this]
  let ?x = "unat (z85_decoder ! unat (c - 32))"
  have "?x < 85" using D(1) by (simp add: word_less_nat_alt)
  moreover have "z85_encoder ! ?x = c" using D(2) by simp
  ultimately show ?thesis using assms decode_char_digit [of ?x v] by (intro exI [of _ ?x]) (auto split: if_splits)
qed

section \<open>Groups\<close>

definition word4 :: "byte \<Rightarrow> byte \<Rightarrow> byte \<Rightarrow> byte \<Rightarrow> u32" where
  "word4 a b c d = ((ucast a * 256 + ucast b) * 256 + ucast c) * 256 + ucast d"

definition digits5 :: "nat \<Rightarrow> nat list" where
  "digits5 n = [n div 85 ^ 4, n div 85 ^ 3 mod 85, n div 85 ^ 2 mod 85, n div 85 mod 85, n mod 85]"

definition number5 :: "nat list \<Rightarrow> nat" where
  "number5 xs = foldl (\<lambda>v x. v * 85 + x) 0 xs"

lemma unat_byte: "unat (b :: byte) < 256"
  using unsigned_less [where 'a = nat, of b] by simp

lemma unat_word4: "unat (word4 a b c d) = ((unat a * 256 + unat b) * 256 + unat c) * 256 + unat d"
  using unat_byte [of a] unat_byte [of b] unat_byte [of c] unat_byte [of d]
  by (simp add: word4_def unat_word_ariths unat_ucast_byte)

lemma encode_value_digits: "encode_value v (85 * 85 * 85 * 85) = map (\<lambda>x. z85_encoder ! x) (digits5 (unat v))"
proof -
  have "unat v < 2 ^ 32" using unsigned_less [where 'a = nat, of v] by simp
  hence "unat v div 85 ^ 4 mod 85 = unat v div 85 ^ 4" by (simp add: div_less_iff_less_mult)
  thus ?thesis by (simp add: encode_value.simps digits5_def unat_div unat_mod)
qed

lemma div_mod_digit: "d < k \<Longrightarrow> (m * k + d) div k = m" "d < k \<Longrightarrow> (m * k + d) mod k = (d :: nat)"
  by simp_all

lemma base_256:
  fixes n :: nat
  assumes n: "n = ((a * 256 + b) * 256 + c) * 256 + d" and lt: "a < 256" "b < 256" "c < 256" "d < 256"
  shows "n div 16777216 mod 256 = a" "n div 65536 mod 256 = b" "n div 256 mod 256 = c" "n mod 256 = d"
proof -
  have q: "n div 256 = (a * 256 + b) * 256 + c" "n mod 256 = d" using lt unfolding n by (simp_all only: div_mod_digit)
  have q2: "n div 256 div 256 = a * 256 + b" "n div 256 mod 256 = c" using lt unfolding q by (simp_all only: div_mod_digit)
  have q3: "n div 256 div 256 div 256 = a" "n div 256 div 256 mod 256 = b" using lt unfolding q2 by (simp_all only: div_mod_digit)
  have "n div 65536 = n div 256 div 256" "n div 16777216 = n div 256 div 256 div 256" by (simp_all add: div_mult2_eq [symmetric])
  thus "n div 16777216 mod 256 = a" "n div 65536 mod 256 = b" "n div 256 mod 256 = c" "n mod 256 = d"
    using q q2 q3 lt by simp_all
qed

lemma decode_value_word4: "decode_value (word4 a b c d) (256 * 256 * 256) = [a, b, c, d]"
proof -
  have digit: "(ucast (v :: u32) :: byte) = x" if "unat v = unat x" for v x
    using that unat_byte [of x] by (simp add: word_unat_eq_iff unsigned_ucast_eq take_bit_eq_mod)
  let ?w = "word4 a b c d"
  note B = unat_byte [of a] unat_byte [of b] unat_byte [of c] unat_byte [of d]
  have "unat (?w div 16777216 mod 256) = unat a" "unat (?w div 65536 mod 256) = unat b"
      "unat (?w div 256 mod 256) = unat c" "unat (?w mod 256) = unat d"
    using base_256 [OF unat_word4 B] by (simp_all add: unat_div unat_mod)
  hence "(ucast (?w div 16777216 mod 256) :: byte) = a" "(ucast (?w div 65536 mod 256) :: byte) = b"
      "(ucast (?w div 256 mod 256) :: byte) = c" "(ucast (?w mod 256) :: byte) = d"
    by (auto intro: digit)
  thus ?thesis by (simp add: decode_value.simps)
qed

lemma word4_surj: "\<exists>a b c d. v = word4 a b c d"
proof -
  let ?n = "unat v" and ?b = "\<lambda>n. (of_nat n :: byte)"
  have "?n < 2 ^ 32" using unsigned_less [where 'a = nat, of v] by simp
  hence top: "?n div 256 div 256 div 256 < 256" by (simp add: div_less_iff_less_mult)
  have b: "unat (?b m) = m" if "m < 256" for m using that by (simp add: unat_of_nat)
  have "unat (word4 (?b (?n div 256 div 256 div 256)) (?b (?n div 256 div 256 mod 256)) (?b (?n div 256 mod 256)) (?b (?n mod 256))) = ?n"
    unfolding unat_word4 b [OF top] by (simp only: b mod_less_divisor zero_less_numeral div_mult_mod_eq)
  thus ?thesis by (metis word_unat_eq_iff)
qed

lemma number5_digits5: "number5 (digits5 n) = n"
proof -
  have "n div 85 ^ 4 = n div 85 div 85 div 85 div 85" "n div 85 ^ 3 = n div 85 div 85 div 85" "n div 85 ^ 2 = n div 85 div 85"
    by (simp_all add: div_mult2_eq [symmetric])
  thus ?thesis unfolding digits5_def number5_def by (simp add: div_mult_mod_eq)
qed

lemma digits5_number5:
  assumes "length xs = 5" "\<forall>x \<in> set xs. x < 85"
  shows "digits5 (number5 xs) = xs"
proof -
  obtain a b c d e where xs: "xs = [a, b, c, d, e]" using assms(1) by (auto simp: numeral_eq_Suc length_Suc_conv)
  let ?n = "number5 xs"
  have n: "?n = (((a * 85 + b) * 85 + c) * 85 + d) * 85 + e" by (simp add: xs number5_def)
  have lt: "a < 85" "b < 85" "c < 85" "d < 85" "e < 85" using assms(2) by (simp_all add: xs)
  have q: "?n div 85 = ((a * 85 + b) * 85 + c) * 85 + d" "?n mod 85 = e" using lt unfolding n by (simp_all only: div_mod_digit)
  have q2: "?n div 85 div 85 = (a * 85 + b) * 85 + c" "?n div 85 mod 85 = d" using lt unfolding q by (simp_all only: div_mod_digit)
  have q3: "?n div 85 div 85 div 85 = a * 85 + b" "?n div 85 div 85 mod 85 = c" using lt unfolding q2 by (simp_all only: div_mod_digit)
  have q4: "?n div 85 div 85 div 85 div 85 = a" "?n div 85 div 85 div 85 mod 85 = b" using lt unfolding q3 by (simp_all only: div_mod_digit)
  have p: "m div 85 ^ 4 = m div 85 div 85 div 85 div 85" "m div 85 ^ 3 = m div 85 div 85 div 85" "m div 85 ^ 2 = m div 85 div 85"
    for m :: nat by (simp_all add: div_mult2_eq [symmetric])
  have "?n div 85 ^ 4 = a" "?n div 85 ^ 3 mod 85 = b" "?n div 85 ^ 2 mod 85 = c" unfolding p by (rule q4 q3)+
  thus ?thesis unfolding digits5_def using q2(2) q(2) by (simp only: xs)
qed

lemma digits5_less: "n < 2 ^ 32 \<Longrightarrow> x \<in> set (digits5 n) \<Longrightarrow> x < 85"
  by (auto simp: digits5_def div_less_iff_less_mult)

lemma encode_loop_group:
  "encode_loop 0 (4 * k) (a # b # c # d # data) =
     map (\<lambda>x. z85_encoder ! x) (digits5 (unat (word4 a b c d))) @ encode_loop 0 (4 * Suc k) data"
proof -
  have m: "(4 * k + 1) mod 4 \<noteq> 0" "(4 * k + 1 + 1) mod 4 \<noteq> 0" "(4 * k + 1 + 1 + 1) mod 4 \<noteq> 0"
    "4 * k + 1 + 1 + 1 + 1 = 4 * Suc k" by presburger+
  have w: "(((0 * 256 + ucast a) * 256 + ucast b) * 256 + ucast c) * 256 + ucast d = word4 a b c d" by (simp add: word4_def)
  show ?thesis unfolding encode_loop.simps Let_def m(4) w encode_value_digits using m(1-3) by simp
qed

text \<open>Five characters with the digits \<open>xs\<close>.\<close>

lemma decode_loop_group:
  assumes "length xs = 5" "\<forall>x \<in> set xs. x < 85"
  shows "decode_loop 0 (5 * k) dest (map (\<lambda>x. z85_encoder ! x) xs @ string) =
    (if number5 xs < 2 ^ 32
     then decode_loop 0 (5 * Suc k) (dest @ decode_value (of_nat (number5 xs)) (256 * 256 * 256)) string else None)"
proof -
  obtain a b c d e where xs: "xs = [a, b, c, d, e]" using assms(1) by (auto simp: numeral_eq_Suc length_Suc_conv)
  have m: "(5 * k + 1) mod 5 \<noteq> 0" "(5 * k + 1 + 1) mod 5 \<noteq> 0" "(5 * k + 1 + 1 + 1) mod 5 \<noteq> 0" "(5 * k + 1 + 1 + 1 + 1) mod 5 \<noteq> 0"
    "5 * k + 1 + 1 + 1 + 1 + 1 = 5 * Suc k" by presburger+
  have z: "z85_encoder ! x \<noteq> 0" if "x < 85" for x using encoder_digit(1) [OF that] .
  have lt: "a < 85" "b < 85" "c < 85" "d < 85" "e < 85" using assms(2) by (simp_all add: xs)
  define p1 where "p1 = a * 85 + b"
  define p2 where "p2 = p1 * 85 + c"
  define p3 where "p3 = p2 * 85 + d"
  have n: "number5 xs = p3 * 85 + e" by (simp add: number5_def xs p1_def p2_def p3_def)
  have s: "decode_char (of_nat p) (z85_encoder ! x) = (if p * 85 + x < 2 ^ 32 then Some (of_nat (p * 85 + x)) else None)"
    if "p < 2 ^ 32" "x < 85" for p x using decode_char_digit [OF that(2), of "of_nat p"] that(1) by (simp add: unat_of_nat)
  have small: "p2 < 2 ^ 32" using lt by (simp add: p1_def p2_def)
  have first: "decode_char 0 (z85_encoder ! a) = Some (of_nat a)" "decode_char (of_nat a) (z85_encoder ! b) = Some (of_nat p1)"
      "decode_char (of_nat p1) (z85_encoder ! c) = Some (of_nat p2)"
    using s [of 0 a] s [of a b] s [of p1 c] lt by (simp_all add: p1_def p2_def)
  note D = decode_loop.simps(2)
  have step: "decode_loop 0 (5 * k) dest (map (\<lambda>x. z85_encoder ! x) xs @ string) =
      (case decode_char (of_nat p2) (z85_encoder ! d) of None \<Rightarrow> None | Some v \<Rightarrow>
         decode_loop v (5 * k + 1 + 1 + 1 + 1) dest (z85_encoder ! e # string))"
    using m(1-4) first z lt by (cases "decode_char (of_nat p2) (z85_encoder ! d)") (simp_all add: xs)
  show ?thesis
  proof (cases "p3 < 2 ^ 32")
    case True
    hence d: "decode_char (of_nat p2) (z85_encoder ! d) = Some (of_nat p3)" using s [OF small lt(4)] by (simp add: p3_def)
    show ?thesis unfolding step d option.case D m(5) s [OF True lt(5)] n using z [OF lt(5)] by (simp split: option.split)
  next
    case False
    hence "decode_char (of_nat p2) (z85_encoder ! d) = None" using s [OF small lt(4)] by (simp add: p3_def)
    thus ?thesis unfolding step n using False by simp
  qed
qed

lemma decode_loop_count:
  "decode_loop v n dest string = Some (out, m) \<Longrightarrow> 0 \<notin> set string \<Longrightarrow> m = n + length string"
proof (induction v n dest string rule: decode_loop.induct)
  case (2 v n dest c string)
  thus ?case by (auto split: option.splits if_splits)
qed simp

text \<open>The first group of a string that is decoded.\<close>

lemma decode_loop_first:
  assumes "decode_loop 0 (5 * k) dest (c0 # c1 # c2 # c3 # c4 # string) = Some r" "0 \<notin> {c0, c1, c2, c3, c4}"
  shows "\<exists>xs. length xs = 5 \<and> (\<forall>x \<in> set xs. x < 85) \<and> [c0, c1, c2, c3, c4] = map (\<lambda>x. z85_encoder ! x) xs"
proof -
  have m: "(5 * k + 1) mod 5 \<noteq> 0" "(5 * k + 1 + 1) mod 5 \<noteq> 0" "(5 * k + 1 + 1 + 1) mod 5 \<noteq> 0" "(5 * k + 1 + 1 + 1 + 1) mod 5 \<noteq> 0"
    by presburger+
  have "\<exists>v0 v1 v2 v3 v4. decode_char 0 c0 = Some v0 \<and> decode_char v0 c1 = Some v1 \<and> decode_char v1 c2 = Some v2 \<and>
      decode_char v2 c3 = Some v3 \<and> decode_char v3 c4 = Some v4"
    using assms m by (auto split: option.splits if_splits)
  then obtain v0 v1 v2 v3 v4 where "decode_char 0 c0 = Some v0" "decode_char v0 c1 = Some v1" "decode_char v1 c2 = Some v2"
      "decode_char v2 c3 = Some v3" "decode_char v3 c4 = Some v4" by blast
  hence "\<exists>x < 85. c0 = z85_encoder ! x" "\<exists>x < 85. c1 = z85_encoder ! x" "\<exists>x < 85. c2 = z85_encoder ! x" "\<exists>x < 85. c3 = z85_encoder ! x"
      "\<exists>x < 85. c4 = z85_encoder ! x"
    by (auto dest!: decode_char_inverse)
  then obtain x0 x1 x2 x3 x4 where "x0 < 85" "c0 = z85_encoder ! x0" "x1 < 85" "c1 = z85_encoder ! x1" "x2 < 85" "c2 = z85_encoder ! x2"
      "x3 < 85" "c3 = z85_encoder ! x3" "x4 < 85" "c4 = z85_encoder ! x4" by blast
  thus ?thesis by (intro exI [of _ "[x0, x1, x2, x3, x4]"]) simp
qed

section \<open>Round trips\<close>

lemma four_bytes:
  assumes "length (data :: 'a list) = 4 * Suc j"
  shows "\<exists>a b c d rest. data = a # b # c # d # rest \<and> length rest = 4 * j"
  using assms by (auto simp: numeral_eq_Suc length_Suc_conv)

lemma five_chars:
  assumes "length (s :: 'a list) = 5 * Suc j"
  shows "\<exists>a b c d e rest. s = a # b # c # d # e # rest \<and> length rest = 5 * j"
  using assms by (auto simp: numeral_eq_Suc length_Suc_conv)

lemma unat_u32: "unat (v :: u32) < 2 ^ 32"
  using unsigned_less [where 'a = nat, of v] by simp

lemma decode_encode_loop:
  "length data = 4 * j \<Longrightarrow> decode_loop 0 (5 * k) dest (encode_loop 0 (4 * k) data) = Some (dest @ data, 5 * (k + j)) \<and>
     0 \<notin> set (encode_loop 0 (4 * k) data) \<and> length (encode_loop 0 (4 * k) data) = 5 * j"
proof (induction j arbitrary: data k dest)
  case (Suc j)
  obtain a b c d rest where data: "data = a # b # c # d # rest" "length rest = 4 * j" using four_bytes [OF Suc.prems] by blast
  let ?xs = "digits5 (unat (word4 a b c d))"
  have xs: "length ?xs = 5" "\<forall>x \<in> set ?xs. x < 85" by (simp add: digits5_def) (intro ballI digits5_less [OF unat_u32])
  have z: "0 \<notin> set (map (\<lambda>x. z85_encoder ! x) ?xs)" using xs(2) encoder_digit(1) by force
  note G = decode_loop_group [OF xs, of k dest "encode_loop 0 (4 * Suc k) rest"]
  show ?case using Suc.IH [OF data(2), of "Suc k" "dest @ [a, b, c, d]"] G z xs(1) unat_u32 [of "word4 a b c d"]
    unfolding data(1) encode_loop_group number5_digits5 using decode_value_word4 [of a b c d] by simp
qed simp

lemma encode_decode_loop:
  "length string = 5 * j \<Longrightarrow> 0 \<notin> set string \<Longrightarrow> decode_loop 0 (5 * k) dest string = Some (out, n) \<Longrightarrow>
     \<exists>data. out = dest @ data \<and> length data = 4 * j \<and> encode_loop 0 (4 * k) data = string"
proof (induction j arbitrary: string k dest)
  case (Suc j)
  obtain c0 c1 c2 c3 c4 rest where s: "string = c0 # c1 # c2 # c3 # c4 # rest" "length rest = 5 * j"
    using five_chars [OF Suc.prems(1)] by blast
  have z: "0 \<notin> {c0, c1, c2, c3, c4}" using Suc.prems(2) by (simp add: s(1))
  obtain xs where xs: "length xs = 5" "\<forall>x \<in> set xs. x < 85" "[c0, c1, c2, c3, c4] = map (\<lambda>x. z85_encoder ! x) xs"
    using decode_loop_first [OF Suc.prems(3) [unfolded s(1)] z] by metis
  have str: "string = map (\<lambda>x. z85_encoder ! x) xs @ rest" unfolding xs(3) [symmetric] s(1) by simp
  have G: "number5 xs < 2 ^ 32" "decode_loop 0 (5 * Suc k) (dest @ decode_value (of_nat (number5 xs)) (256 * 256 * 256)) rest = Some (out, n)"
    using Suc.prems(3) unfolding str decode_loop_group [OF xs(1,2)] by (simp_all split: if_splits)
  obtain a b c d where w: "(of_nat (number5 xs) :: u32) = word4 a b c d" using word4_surj by blast
  have u: "unat (word4 a b c d) = number5 xs" unfolding w [symmetric] using G(1) by (simp add: unat_of_nat)
  obtain data where data: "out = (dest @ [a, b, c, d]) @ data" "length data = 4 * j" "encode_loop 0 (4 * Suc k) data = rest"
    using Suc.IH [OF s(2) _ G(2)] Suc.prems(2) unfolding w decode_value_word4 s(1) by auto
  have "encode_loop 0 (4 * k) (a # b # c # d # data) = string"
    unfolding encode_loop_group u digits5_number5 [OF xs(1,2)] data(3) str ..
  thus ?case using data by (intro exI [of _ "a # b # c # d # data"]) simp
qed simp



end
