(* ===== verification/Timers.thy ===== *)
theory Timers
  imports Prelude
begin

text \<open>
  The timers of applications (\<open>src/timers.cpp\<close>).  A multimap is the list of its entries in the order of
  their keys, in which an insertion comes after the entries with an equal key.  The time read from the
  clock is an argument.  Handlers are named by numbers, and their calls are returned as a list; a
  handler that itself adds, resets or cancels timers is not modelled.  The loop of \<open>execute\<close> may run
  forever, which is \<open>None\<close>.
\<close>

record timer =
  timer_id :: int
  interval :: u64
  handler :: nat
  timer_arg :: nat

type_synonym entry = "u64 \<times> timer"

record timers =
  tm_tag :: u32
  next_timer_id :: int
  tm_entries :: "entry list"
  cancelled_timers :: "int set"

definition timers_new :: timers where
  "timers_new = \<lparr>tm_tag = 0xCAFEDADA, next_timer_id = 0, tm_entries = [], cancelled_timers = {}\<rparr>"

definition timers_destroy :: "timers \<Rightarrow> timers" where
  "timers_destroy s = s\<lparr>tm_tag := 0xDEADBEEF\<rparr>"

definition timers_check_tag :: "timers \<Rightarrow> bool" where
  "timers_check_tag s \<longleftrightarrow> tm_tag s = 0xCAFEDADA"

text \<open>The number of entries before the place of an insertion.\<close>

definition upper_bound :: "u64 \<Rightarrow> entry list \<Rightarrow> nat" where
  "upper_bound w es = length (takeWhile (\<lambda>e. fst e \<le> w) es)"

definition tm_insert :: "entry \<Rightarrow> entry list \<Rightarrow> entry list" where
  "tm_insert e es = take (upper_bound (fst e) es) es @ e # drop (upper_bound (fst e) es) es"

text \<open>Erasing the first entry with a property.\<close>

definition erase_first :: "('a \<Rightarrow> bool) \<Rightarrow> 'a list \<Rightarrow> 'a list" where
  "erase_first P es = takeWhile (\<lambda>e. \<not> P e) es @ tl (dropWhile (\<lambda>e. \<not> P e) es)"

definition match_by_id :: "int \<Rightarrow> entry \<Rightarrow> bool" where
  "match_by_id i e \<longleftrightarrow> timer_id (snd e) = i"

text \<open>An overflow of the next identifier is undefined behaviour.\<close>

definition timers_add :: "u64 \<Rightarrow> u64 \<Rightarrow> nat option \<Rightarrow> nat \<Rightarrow> timers \<Rightarrow> (int result \<times> timers) option" where
  "timers_add now intv h arg s =
     (case h of
        None \<Rightarrow> Some (Inl EFAULT, s)
      | Some h \<Rightarrow>
          do {
            zmq_assert (next_timer_id s < 2 ^ 31 - 1);
            let i = next_timer_id s + 1;
            let t = \<lparr>timer_id = i, interval = intv, handler = h, timer_arg = arg\<rparr>;
            Some (Inr i, s\<lparr>next_timer_id := i, tm_entries := tm_insert (now + intv, t) (tm_entries s)\<rparr>)
          })"

definition timers_cancel :: "int \<Rightarrow> timers \<Rightarrow> unit result \<times> timers" where
  "timers_cancel i s =
     (if find (match_by_id i) (tm_entries s) = None then (Inl EINVAL, s)
      else if i \<in> cancelled_timers s then (Inl EINVAL, s)
      else (Inr (), s\<lparr>cancelled_timers := insert i (cancelled_timers s)\<rparr>))"

definition timers_set_interval :: "u64 \<Rightarrow> int \<Rightarrow> u64 \<Rightarrow> timers \<Rightarrow> unit result \<times> timers" where
  "timers_set_interval now i intv s =
     (case find (match_by_id i) (tm_entries s) of
        None \<Rightarrow> (Inl EINVAL, s)
      | Some (w, t) \<Rightarrow>
          (Inr (), s\<lparr>tm_entries := tm_insert (now + intv, t\<lparr>interval := intv\<rparr>) (erase_first (match_by_id i) (tm_entries s))\<rparr>))"

definition timers_reset :: "u64 \<Rightarrow> int \<Rightarrow> timers \<Rightarrow> unit result \<times> timers" where
  "timers_reset now i s =
     (case find (match_by_id i) (tm_entries s) of
        None \<Rightarrow> (Inl EINVAL, s)
      | Some (w, t) \<Rightarrow> (Inr (), s\<lparr>tm_entries := tm_insert (now + interval t, t) (erase_first (match_by_id i) (tm_entries s))\<rparr>))"

text \<open>The result of \<open>timeout\<close> is converted to a signed integer.\<close>

fun timeout_loop :: "u64 \<Rightarrow> entry list \<Rightarrow> int set \<Rightarrow> int \<times> entry list \<times> int set" where
  "timeout_loop now [] c = (-1, [], c)"
| "timeout_loop now ((w, t) # es) c =
     (if timer_id t \<notin> c then (if now < w then sint (w - now) else 0, (w, t) # es, c)
      else timeout_loop now es (c - {timer_id t}))"

definition timers_timeout :: "u64 \<Rightarrow> timers \<Rightarrow> int \<times> timers" where
  "timers_timeout now s =
     (case timeout_loop now (tm_entries s) (cancelled_timers s) of
        (r, es, c) \<Rightarrow> (r, s\<lparr>tm_entries := es, cancelled_timers := c\<rparr>))"

text \<open>
  \<open>execute\<close>: the entries before the iterator and from it on; an insertion goes to the one or the other
  part.
\<close>

definition insert_around :: "entry \<Rightarrow> entry list \<Rightarrow> entry list \<Rightarrow> entry list \<times> entry list" where
  "insert_around e before rest =
     (let n = upper_bound (fst e) (before @ rest) in
      if n \<le> length before then (take n before @ e # drop n before, rest)
      else (before, take (n - length before) rest @ e # drop (n - length before) rest))"

definition call :: "timer \<Rightarrow> int \<times> nat \<times> nat" where
  "call t = (timer_id t, handler t, timer_arg t)"

partial_function (option) execute_loop ::
  "u64 \<Rightarrow> entry list \<Rightarrow> entry list \<Rightarrow> int set \<Rightarrow> (int \<times> nat \<times> nat) list \<Rightarrow> ((int \<times> nat \<times> nat) list \<times> entry list \<times> int set) option"
where
  "execute_loop now before rest c calls =
     (case rest of
        [] \<Rightarrow> Some (calls, before, c)
      | e # es \<Rightarrow>
          if timer_id (snd e) \<in> c then execute_loop now before es (c - {timer_id (snd e)}) calls
          else if now < fst e then Some (calls, before @ rest, c)
          else (case insert_around (now + interval (snd e), snd e) before es of
                  (before', es') \<Rightarrow> execute_loop now before' es' c (calls @ [call (snd e)])))"

definition timers_execute :: "u64 \<Rightarrow> timers \<Rightarrow> ((int \<times> nat \<times> nat) list \<times> timers) option" where
  "timers_execute now s =
     do {
       (calls, es, c) \<leftarrow> execute_loop now [] (tm_entries s) (cancelled_timers s) [];
       Some (calls, s\<lparr>tm_entries := es, cancelled_timers := c\<rparr>)
     }"

section \<open>Invariant\<close>

abbreviation ids :: "entry list \<Rightarrow> int list" where
  "ids es \<equiv> map (\<lambda>e. timer_id (snd e)) es"

definition timers_ok :: "timers \<Rightarrow> bool" where
  "timers_ok s \<longleftrightarrow>
     sorted (map fst (tm_entries s)) \<and> distinct (ids (tm_entries s)) \<and> cancelled_timers s \<subseteq> set (ids (tm_entries s)) \<and>
     (\<forall>i \<in> set (ids (tm_entries s)). 0 < i \<and> i \<le> next_timer_id s) \<and> 0 \<le> next_timer_id s"

lemma set_take_drop: "set (take n xs) \<union> set (drop n xs) = set xs"
  by (simp flip: set_append)

lemma upper_parts:
  assumes "sorted (map fst es)"
  shows "\<forall>e \<in> set (take (upper_bound w es) es). fst e \<le> w" "\<forall>e \<in> set (drop (upper_bound w es) es). w < fst e"
proof -
  have t: "take (upper_bound w es) es = takeWhile (\<lambda>e. fst e \<le> w) es" unfolding upper_bound_def by (rule takeWhile_eq_take [symmetric])
  have d: "drop (upper_bound w es) es = dropWhile (\<lambda>e. fst e \<le> w) es" unfolding upper_bound_def by (rule dropWhile_eq_drop [symmetric])
  show "\<forall>e \<in> set (take (upper_bound w es) es). fst e \<le> w" unfolding t by (auto dest: set_takeWhileD)
  show "\<forall>e \<in> set (drop (upper_bound w es) es). w < fst e"
  proof (cases "dropWhile (\<lambda>e. fst e \<le> w) es")
    case (Cons x xs)
    have "w < fst x" using Cons hd_dropWhile [of "\<lambda>e. fst e \<le> w" es] by auto
    moreover have "sorted (map fst (x # xs))" unfolding Cons [symmetric] d [symmetric]
      using assms by (simp add: drop_map [symmetric] sorted_wrt_drop del: drop_map)
    ultimately show ?thesis unfolding d Cons by auto
  next
    case Nil
    thus ?thesis unfolding d by (simp only: list.set) simp
  qed
qed

text \<open>Inserting an entry at its upper bound.\<close>

lemma insert_at:
  assumes "sorted (map fst es)" "n = upper_bound (fst e) es"
  shows "sorted (map fst (take n es @ e # drop n es))" "set (take n es @ e # drop n es) = insert e (set es)"
    and "distinct (ids (take n es @ e # drop n es)) \<longleftrightarrow> distinct (ids es) \<and> timer_id (snd e) \<notin> set (ids es)"
proof -
  note P = upper_parts [OF assms(1), of "fst e", folded assms(2)]
  have "sorted (map fst (take n es))" "sorted (map fst (drop n es))"
    using assms(1) by (simp_all add: take_map [symmetric] drop_map [symmetric] sorted_wrt_take sorted_wrt_drop del: take_map drop_map)
  thus "sorted (map fst (take n es @ e # drop n es))" using P by (fastforce simp: sorted_append)
  show "set (take n es @ e # drop n es) = insert e (set es)" using set_take_drop [of n es] by auto
  have "distinct (ids (xs @ e # ys)) \<longleftrightarrow> distinct (ids (xs @ ys)) \<and> timer_id (snd e) \<notin> set (ids (xs @ ys))" for xs ys
    by auto
  from this [of "take n es" "drop n es"] show "distinct (ids (take n es @ e # drop n es)) \<longleftrightarrow> distinct (ids es) \<and> timer_id (snd e) \<notin> set (ids es)"
    by simp
qed

lemma erase_first_sub:
  assumes "sorted (map fst es)" "distinct (ids es)" "find (match_by_id i) es = Some e"
  shows "sorted (map fst (erase_first (match_by_id i) es)) \<and> distinct (ids (erase_first (match_by_id i) es)) \<and>
    set (erase_first (match_by_id i) es) = set es - {e} \<and> timer_id (snd e) = i \<and> e \<in> set es \<and>
    i \<notin> set (ids (erase_first (match_by_id i) es))"
  using assms
proof (induction es)
  case (Cons x es)
  show ?case
  proof (cases "match_by_id i x")
    case True
    thus ?thesis using Cons.prems by (auto simp: erase_first_def match_by_id_def)
  next
    case False
    hence f: "find (match_by_id i) es = Some e" "erase_first (match_by_id i) (x # es) = x # erase_first (match_by_id i) es"
      using Cons.prems(3) by (auto simp: erase_first_def)
    have "sorted (map fst es)" "distinct (ids es)" using Cons.prems by auto
    note IH = Cons.IH [OF this f(1)]
    have "timer_id (snd x) \<noteq> i" using False by (simp add: match_by_id_def)
    moreover from this have "e \<noteq> x" using IH by auto
    ultimately show ?thesis unfolding f(2) using IH Cons.prems by auto
  qed
qed simp

lemma timers_new_ok: "timers_ok timers_new"
  by (simp add: timers_ok_def timers_new_def)

lemma tm_insert_ok:
  assumes "sorted (map fst es)"
  shows "sorted (map fst (tm_insert e es))" "set (tm_insert e es) = insert e (set es)"
    and "distinct (ids (tm_insert e es)) \<longleftrightarrow> distinct (ids es) \<and> timer_id (snd e) \<notin> set (ids es)"
  using insert_at [OF assms refl, of e] unfolding tm_insert_def by blast+

lemma timers_add_ok:
  assumes "timers_ok s" "timers_add now intv h arg s = Some (r, s')"
  shows "timers_ok s'"
proof (cases h)
  case (Some h)
  let ?i = "next_timer_id s + 1"
  let ?e = "(now + intv, \<lparr>timer_id = ?i, interval = intv, handler = h, timer_arg = arg\<rparr>)"
  have s': "s' = s\<lparr>next_timer_id := ?i, tm_entries := tm_insert ?e (tm_entries s)\<rparr>"
    using assms(2) Some by (auto simp: timers_add_def Let_def)
  have ok: "sorted (map fst (tm_entries s))" using assms(1) by (simp add: timers_ok_def)
  have new: "?i \<notin> set (ids (tm_entries s))" using assms(1) unfolding timers_ok_def by fastforce
  note I = tm_insert_ok [OF ok, of ?e]
  have "set (ids (tm_insert ?e (tm_entries s))) = insert ?i (set (ids (tm_entries s)))" unfolding set_map I(2) by simp
  moreover have "sorted (map fst (tm_insert ?e (tm_entries s)))" "distinct (ids (tm_insert ?e (tm_entries s)))"
    using I(1,3) new assms(1) by (simp_all add: timers_ok_def)
  moreover have "\<forall>i \<in> insert ?i (set (ids (tm_entries s))). 0 < i \<and> i \<le> ?i" "0 \<le> ?i"
    "cancelled_timers s \<subseteq> insert ?i (set (ids (tm_entries s)))"
    using assms(1) unfolding timers_ok_def by (simp, smt (verit), auto)
  ultimately show ?thesis by (simp add: s' timers_ok_def)
qed (use assms in \<open>simp add: timers_add_def\<close>)

text \<open>Moving an entry to a new time.\<close>

lemma timers_move_ok:
  assumes "timers_ok s" "find (match_by_id i) (tm_entries s) = Some e" "timer_id (snd e') = i"
  shows "timers_ok (s\<lparr>tm_entries := tm_insert e' (erase_first (match_by_id i) (tm_entries s))\<rparr>)"
proof -
  have ok: "sorted (map fst (tm_entries s))" "distinct (ids (tm_entries s))" using assms(1) by (simp_all add: timers_ok_def)
  note E = erase_first_sub [OF ok assms(2)]
  let ?r = "erase_first (match_by_id i) (tm_entries s)"
  have r: "sorted (map fst ?r)" "distinct (ids ?r)" "set ?r = set (tm_entries s) - {e}" "e \<in> set (tm_entries s)"
      "i \<notin> set (ids ?r)" using E by blast+
  have I: "sorted (map fst (tm_insert e' ?r))" "set (tm_insert e' ?r) = insert e' (set ?r)" "distinct (ids (tm_insert e' ?r))"
    using tm_insert_ok [OF r(1), of e'] r(2,5) assms(3) by simp_all
  have "set (ids (tm_entries s)) = insert i (set (ids ?r))" unfolding set_map r(3) using E by auto
  hence "set (ids (tm_insert e' ?r)) = set (ids (tm_entries s))" unfolding set_map I(2) using assms(3) by simp
  thus ?thesis using assms(1) I(1,3) by (simp add: timers_ok_def)
qed

lemma find_id: "find (match_by_id i) es = Some (w, t) \<Longrightarrow> timer_id t = i"
  by (induction es) (auto simp: match_by_id_def split: if_splits)

lemma timers_set_interval_ok: "timers_ok s \<Longrightarrow> timers_ok (snd (timers_set_interval now i intv s))"
  by (auto simp: timers_set_interval_def find_id intro!: timers_move_ok split: option.split)

lemma timers_reset_ok: "timers_ok s \<Longrightarrow> timers_ok (snd (timers_reset now i s))"
  by (auto simp: timers_reset_def find_id intro!: timers_move_ok split: option.split)

lemma timers_cancel_ok: "timers_ok s \<Longrightarrow> timers_ok (snd (timers_cancel i s))"
  by (auto simp: timers_cancel_def timers_ok_def find_None_iff match_by_id_def) force

section \<open>Execution\<close>

definition live_entry :: "int set \<Rightarrow> entry \<Rightarrow> bool" where
  "live_entry c e \<longleftrightarrow> timer_id (snd e) \<notin> c"

text \<open>After the entries that are due: cancelled entries are dropped up to the next live one.\<close>

lemma execute_rest:
  "\<forall>e \<in> set es. now < fst e \<Longrightarrow> distinct (ids es) \<Longrightarrow>
   execute_loop now before es c calls =
     Some (calls, before @ dropWhile (\<lambda>e. \<not> live_entry c e) es, c - set (ids (takeWhile (\<lambda>e. \<not> live_entry c e) es)))"
proof (induction es arbitrary: c)
  case Nil
  thus ?case by (simp add: execute_loop.simps)
next
  case (Cons e es)
  show ?case
  proof (cases "live_entry c e")
    case True
    thus ?thesis using Cons.prems by (simp add: execute_loop.simps [of now before "e # es"] live_entry_def)
  next
    case False
    have eq: "live_entry (c - {timer_id (snd e)}) x \<longleftrightarrow> live_entry c x" if "x \<in> set es" for x
      using that Cons.prems(2) by (auto simp: live_entry_def image_iff)
    have "takeWhile (\<lambda>x. \<not> live_entry (c - {timer_id (snd e)}) x) es = takeWhile (\<lambda>x. \<not> live_entry c x) es"
      "dropWhile (\<lambda>x. \<not> live_entry (c - {timer_id (snd e)}) x) es = dropWhile (\<lambda>x. \<not> live_entry c x) es"
      by (intro takeWhile_cong dropWhile_cong refl; simp add: eq)+
    moreover have "execute_loop now before (e # es) c calls = execute_loop now before es (c - {timer_id (snd e)}) calls"
      using False by (simp add: execute_loop.simps [of now before "e # es"] live_entry_def)
    ultimately show ?thesis using Cons.IH [of "c - {timer_id (snd e)}"] Cons.prems False by auto
  qed
qed

text \<open>The new entry of a timer that is due.\<close>

definition rearm :: "u64 \<Rightarrow> entry \<Rightarrow> entry" where
  "rearm now e = (now + interval (snd e), snd e)"

text \<open>An entry with a later time is inserted behind the entries that are due.\<close>

lemma insert_later:
  assumes "sorted (map fst (before @ ds @ es))" "\<forall>d \<in> set ds. fst d \<le> now" "now < fst e"
  shows "\<exists>before' es'. insert_around e before (ds @ es) = (before', ds @ es') \<and>
    sorted (map fst (before' @ ds @ es')) \<and> set before' \<union> set es' = insert e (set before \<union> set es) \<and>
    set before' \<subseteq> insert e (set before) \<and>
    (distinct (ids (before' @ ds @ es')) \<longleftrightarrow> distinct (ids (before @ ds @ es)) \<and> timer_id (snd e) \<notin> set (ids (before @ ds @ es)))"
proof -
  let ?all = "before @ ds @ es"
  define n where "n = upper_bound (fst e) ?all"
  note I = insert_at [OF assms(1) n_def]
  show ?thesis
  proof (cases "n \<le> length before")
    case True
    hence "take n ?all @ e # drop n ?all = (take n before @ e # drop n before) @ ds @ es" by simp
    note I' = I [unfolded this]
    have "insert_around e before (ds @ es) = (take n before @ e # drop n before, ds @ es)"
      using True by (simp add: insert_around_def Let_def n_def)
    moreover have "set (take n before @ e # drop n before) = insert e (set before)" using set_take_drop [of n before] by auto
    hence "set (take n before @ e # drop n before) \<union> set es = insert e (set before \<union> set es)"
      "set (take n before @ e # drop n before) \<subseteq> insert e (set before)" by auto
    ultimately show ?thesis using I'(1,3) by blast
  next
    case False
    define m where "m = n - length before - length ds"
    have "length before + length ds \<le> n"
    proof (rule ccontr)
      assume lt: "\<not> length before + length ds \<le> n"
      hence "?all ! n = ds ! (n - length before)" "n - length before < length ds" using False by (auto simp: nth_append)
      hence "fst (?all ! n) \<le> now" using assms(2) by simp
      moreover have "n < length ?all" using lt by simp
      hence "?all ! n \<in> set (drop n ?all)" by (metis Cons_nth_drop_Suc list.set_intros(1))
      hence "fst e < fst (?all ! n)" using upper_parts(2) [OF assms(1), of "fst e"] unfolding n_def by blast
      ultimately show False using assms(3) by simp
    qed
    hence n: "n = length before + length ds + m" by (simp add: m_def)
    have all: "take n ?all @ e # drop n ?all = before @ ds @ take m es @ e # drop m es" by (simp add: n)
    note I' = I [unfolded all]
    have "insert_around e before (ds @ es) = (before, ds @ take m es @ e # drop m es)"
      using False by (simp add: insert_around_def Let_def n_def [symmetric] n)
    moreover have "set before \<union> set (take m es @ e # drop m es) = insert e (set before \<union> set es)"
      using set_take_drop [of m es] by auto
    ultimately show ?thesis using I'(1,3) by blast
  qed
qed

text \<open>
  The entries \<open>xs\<close> and the cancelled timers \<open>c'\<close> after the execution of the entries \<open>ds\<close> that are due, where
  \<open>us\<close> are the other entries: the live timers remain, with a later time.
\<close>

definition execute_post :: "u64 \<Rightarrow> entry set \<Rightarrow> entry list \<Rightarrow> int set \<Rightarrow> entry list \<Rightarrow> int set \<Rightarrow> bool" where
  "execute_post now us ds c xs c' \<longleftrightarrow>
     sorted (map fst xs) \<and> distinct (ids xs) \<and> c' = c \<inter> set (ids xs) \<and> (\<forall>e \<in> set xs. now < fst e) \<and>
     {e \<in> set xs. live_entry c e} = rearm now ` {d \<in> set ds. live_entry c d} \<union> {e \<in> us. live_entry c e} \<and>
     set xs \<subseteq> rearm now ` set ds \<union> us"

lemma execute_due:
  "sorted (map fst (before @ ds @ es)) \<Longrightarrow> distinct (ids (before @ ds @ es)) \<Longrightarrow> \<forall>d \<in> set ds. fst d \<le> now \<Longrightarrow>
   \<forall>e \<in> set before \<union> set es. now < fst e \<Longrightarrow> \<forall>d \<in> set ds. live_entry c d \<longrightarrow> now < now + interval (snd d) \<Longrightarrow>
   c \<subseteq> set (ids (before @ ds @ es)) \<Longrightarrow> \<forall>e \<in> set before. live_entry c e \<Longrightarrow>
   \<exists>xs c'. execute_loop now before (ds @ es) c calls = Some (calls @ map (\<lambda>d. call (snd d)) (filter (live_entry c) ds), xs, c') \<and>
     execute_post now (set before \<union> set es) ds c xs c'"
proof (induction ds arbitrary: before es c calls)
  case Nil
  let ?P = "\<lambda>e. \<not> live_entry c e"
  let ?xs = "before @ dropWhile ?P es" and ?d = "set (ids (takeWhile ?P es))"
  have es: "set es = set (takeWhile ?P es) \<union> set (dropWhile ?P es)" by (metis set_append takeWhile_dropWhile_id)
  have dist: "distinct (ids (before @ takeWhile ?P es @ dropWhile ?P es))" using Nil(2) by simp
  have "sorted (map fst (before @ takeWhile ?P es @ dropWhile ?P es))" using Nil(1) by simp
  hence srt: "sorted (map fst ?xs)" unfolding map_append sorted_append by auto
  have dx: "distinct (ids ?xs)" using dist unfolding map_append distinct_append by auto
  have disj: "?d \<inter> set (ids ?xs) = {}" using dist unfolding map_append distinct_append by auto
  have "set (ids (before @ es)) = ?d \<union> set (ids ?xs)" unfolding map_append set_append set_map es by (auto simp: image_Un)
  hence c': "c - ?d = c \<inter> set (ids ?xs)" using Nil(6) disj by auto
  have tw: "\<forall>e \<in> set (takeWhile ?P es). ?P e" by (auto dest: set_takeWhileD)
  have "execute_post now (set before \<union> set es) [] c ?xs (c - ?d)"
    unfolding execute_post_def c' using srt dx tw Nil(4) es by auto
  thus ?case using execute_rest [of es now before c calls] Nil(2,4) by auto
next
  case (Cons d ds)
  let ?i = "timer_id (snd d)" and ?us = "set before \<union> set es"
  have ok: "sorted (map fst (before @ ds @ es))" "distinct (ids (before @ ds @ es))" "\<forall>d \<in> set ds. fst d \<le> now"
      "?i \<notin> set (ids (before @ ds @ es))" "fst d \<le> now"
    using Cons.prems(1-3) by (auto simp: sorted_append)
  have loop: "execute_loop now before ((d # ds) @ es) c calls =
      (if ?i \<in> c then execute_loop now before (ds @ es) (c - {?i}) calls
       else (case insert_around (rearm now d) before (ds @ es) of
               (before', es') \<Rightarrow> execute_loop now before' es' c (calls @ [call (snd d)])))"
    using leD [OF ok(5)] by (simp add: execute_loop.simps [of now before "d # ds @ es"] rearm_def)
  show ?case
  proof (cases "?i \<in> c")
    case True
    have same: "live_entry (c - {?i}) e \<longleftrightarrow> live_entry c e" if "timer_id (snd e) \<noteq> ?i" for e using that by (auto simp: live_entry_def)
    have oth: "timer_id (snd e) \<noteq> ?i" if "e \<in> set before \<union> set ds \<union> set es" for e
      using ok(4) that by (auto simp: image_iff)
    have "filter (live_entry (c - {?i})) ds = filter (live_entry c) ds"
      by (rule filter_cong [OF refl], rule same, rule oth) simp
    hence fl: "filter (live_entry (c - {?i})) ds = filter (live_entry c) (d # ds)" using True by (simp add: live_entry_def)
    have p1: "\<forall>d \<in> set ds. live_entry (c - {?i}) d \<longrightarrow> now < now + interval (snd d)"
      using Cons.prems(5) same oth by (metis UnCI list.set_intros(2))
    have p2: "c - {?i} \<subseteq> set (ids (before @ ds @ es))" using Cons.prems(6) by auto
    have p3: "\<forall>e \<in> set before. live_entry (c - {?i}) e" using Cons.prems(7) by (auto simp: live_entry_def)
    obtain xs c' where r: "execute_loop now before (ds @ es) (c - {?i}) calls =
          Some (calls @ map (\<lambda>d. call (snd d)) (filter (live_entry (c - {?i})) ds), xs, c')"
        "execute_post now ?us ds (c - {?i}) xs c'"
      using Cons.IH [OF ok(1-3) Cons.prems(4) p1 p2 p3, of calls] by blast
    have sub: "set xs \<subseteq> rearm now ` set ds \<union> ?us" using r(2) by (simp add: execute_post_def)
    have xo: "timer_id (snd e) \<noteq> ?i" if e: "e \<in> set xs" for e
    proof -
      consider x where "x \<in> set ds" "e = rearm now x" | "e \<in> ?us" using sub e by blast
      thus ?thesis
      proof cases
        case 1
        thus ?thesis using oth [of x] by (simp add: rearm_def)
      next
        case 2
        thus ?thesis using oth [of e] by blast
      qed
    qed
    have "{e \<in> set xs. live_entry c e} = {e \<in> set xs. live_entry (c - {?i}) e}" using xo same by blast
    moreover have "{d' \<in> set (d # ds). live_entry c d'} = {d \<in> set ds. live_entry (c - {?i}) d}"
    proof -
      have "\<not> live_entry c d" using True by (simp add: live_entry_def)
      thus ?thesis using oth same by (simp; blast)
    qed
    moreover have "{e \<in> ?us. live_entry c e} = {e \<in> ?us. live_entry (c - {?i}) e}" using oth same by blast
    moreover have "?i \<notin> set (ids xs)" unfolding set_map using xo by (metis imageE)
    hence "c \<inter> set (ids xs) = (c - {?i}) \<inter> set (ids xs)" by blast
    ultimately have "execute_post now ?us (d # ds) c xs c'" using r(2) unfolding execute_post_def by auto
    thus ?thesis using r(1) True loop fl by auto
  next
    case False
    let ?e = "rearm now d"
    have later: "now < fst ?e" using Cons.prems(5) False by (simp add: rearm_def live_entry_def)
    obtain before' es' where b: "insert_around ?e before (ds @ es) = (before', ds @ es')" "sorted (map fst (before' @ ds @ es'))"
        "set before' \<union> set es' = insert ?e ?us" "distinct (ids (before' @ ds @ es'))" "set before' \<subseteq> insert ?e (set before)"
      using insert_later [OF ok(1,3) later] ok(2,4) by (auto simp: rearm_def)
    have ids: "set (ids (before' @ ds @ es')) = insert ?i (set (ids (before @ ds @ es)))"
    proof -
      have "set (ids (before' @ ds @ es')) = (\<lambda>e. timer_id (snd e)) ` (set before' \<union> set es') \<union> set (ids ds)" by auto
      thus ?thesis unfolding b(3) by (auto simp: rearm_def)
    qed
    have lv: "live_entry c ?e" "live_entry c d" using False by (simp_all add: live_entry_def rearm_def)
    have "\<forall>e \<in> set before'. live_entry c e" using b(5) lv(1) Cons.prems(7) by blast
    moreover have "\<forall>e \<in> set before' \<union> set es'. now < fst e" unfolding b(3) using later Cons.prems(4) by simp
    moreover have "c \<subseteq> set (ids (before' @ ds @ es'))" unfolding ids using Cons.prems(6) by auto
    ultimately obtain xs c' where r: "execute_loop now before' (ds @ es') c (calls @ [call (snd d)]) =
          Some ((calls @ [call (snd d)]) @ map (\<lambda>d. call (snd d)) (filter (live_entry c) ds), xs, c')"
        "execute_post now (set before' \<union> set es') ds c xs c'"
      using Cons.IH [OF b(2,4) ok(3), of c "calls @ [call (snd d)]"] Cons.prems(5) by auto
    have "execute_post now ?us (d # ds) c xs c'"
      using r(2) lv unfolding execute_post_def b(3) by auto
    thus ?thesis using r(1) False loop b(1) lv by auto
  qed
qed

definition due :: "u64 \<Rightarrow> timers \<Rightarrow> entry \<Rightarrow> bool" where
  "due now s e \<longleftrightarrow> fst e \<le> now \<and> timer_id (snd e) \<notin> cancelled_timers s"

definition live_entries :: "timers \<Rightarrow> entry set" where
  "live_entries s = {e \<in> set (tm_entries s). timer_id (snd e) \<notin> cancelled_timers s}"

definition next_time :: "u64 \<Rightarrow> entry \<Rightarrow> entry" where
  "next_time now e = (if fst e \<le> now then (now + interval (snd e), snd e) else e)"

lemma split_due:
  fixes es :: "entry list"
  assumes "sorted (map fst es)"
  shows "\<exists>ds us. es = ds @ us \<and> (\<forall>d \<in> set ds. fst d \<le> now) \<and> (\<forall>e \<in> set us. now < fst e)"
  using upper_parts [OF assms, of now] by (metis append_take_drop_id)

text \<open>
  C32. Executing the timers ends, provided that every timer that is due and not cancelled has an interval
  that leads to a later time.  The handlers of exactly these timers are called, each once and in the
  order of their times; each of them is due again after its interval, the other timers that are not
  cancelled keep their times, and afterwards no timer is due.
\<close>

theorem timers_execute_ends:
  assumes ok: "timers_ok s" and later: "\<forall>e \<in> set (tm_entries s). due now s e \<longrightarrow> now < now + interval (snd e)"
  shows "\<exists>s'. timers_execute now s = Some (map (\<lambda>e. call (snd e)) (filter (due now s) (tm_entries s)), s') \<and> timers_ok s' \<and>
    live_entries s' = next_time now ` live_entries s \<and>
    (\<forall>e \<in> set (tm_entries s'). now < fst e)"
proof -
  let ?c = "cancelled_timers s"
  have ok': "sorted (map fst (tm_entries s))" "distinct (ids (tm_entries s))" "?c \<subseteq> set (ids (tm_entries s))"
    using ok by (simp_all add: timers_ok_def)
  obtain ds us where es: "tm_entries s = ds @ us" "\<forall>d \<in> set ds. fst d \<le> now" "\<forall>e \<in> set us. now < fst e"
    using split_due [OF ok'(1), of now] by blast
  have d: "due now s e \<longleftrightarrow> live_entry ?c e" if "e \<in> set ds" for e using es(2) that by (simp add: due_def live_entry_def)
  have u: "\<not> due now s e" if "e \<in> set us" for e using es(3) that by (auto simp: due_def)
  have later': "\<forall>e \<in> set ds. live_entry ?c e \<longrightarrow> now < now + interval (snd e)" using later d by (simp add: es(1))
  obtain xs c' where r: "execute_loop now [] (ds @ us) ?c [] = Some (map (\<lambda>d. call (snd d)) (filter (live_entry ?c) ds), xs, c')"
      "execute_post now (set us) ds ?c xs c'"
    using execute_due [of "[]" ds us now ?c "[]"] ok' es later' by auto
  let ?s = "s\<lparr>tm_entries := xs, cancelled_timers := c'\<rparr>"
  have "filter (due now s) (tm_entries s) = filter (live_entry ?c) ds"
  proof -
    have "filter (due now s) us = []" using u by (simp add: filter_empty_conv)
    moreover have "filter (due now s) ds = filter (live_entry ?c) ds" by (rule filter_cong [OF refl d])
    ultimately show ?thesis by (simp add: es(1))
  qed
  hence run: "timers_execute now s = Some (map (\<lambda>e. call (snd e)) (filter (due now s) (tm_entries s)), ?s)"
    using r(1) by (simp add: timers_execute_def es(1))
  have ids: "set (ids xs) \<subseteq> set (ids (tm_entries s))"
  proof -
    have "set xs \<subseteq> rearm now ` set ds \<union> set us" using r(2) by (simp add: execute_post_def)
    hence "set (ids xs) \<subseteq> (\<lambda>e. timer_id (snd e)) ` (rearm now ` set ds \<union> set us)" unfolding set_map by (rule image_mono)
    also have "\<dots> = set (ids (tm_entries s))" by (simp add: es(1) image_Un image_image rearm_def)
    finally show ?thesis .
  qed
  have P: "sorted (map fst xs)" "distinct (ids xs)" "c' = ?c \<inter> set (ids xs)" "\<forall>e \<in> set xs. now < fst e"
      "{e \<in> set xs. live_entry ?c e} = rearm now ` {d \<in> set ds. live_entry ?c d} \<union> {e \<in> set us. live_entry ?c e}"
    using r(2) by (simp_all add: execute_post_def)
  have "\<forall>i \<in> set (ids xs). 0 < i \<and> i \<le> next_timer_id s" "0 \<le> next_timer_id s"
    using ok ids unfolding timers_ok_def by (meson subsetD)+
  hence "timers_ok ?s" using P(1,2) by (simp add: timers_ok_def P(3))
  moreover have "live_entries ?s = {e \<in> set xs. live_entry ?c e}" by (auto simp: live_entries_def live_entry_def P(3))
  hence "live_entries ?s = next_time now ` live_entries s"
  proof -
    assume "live_entries ?s = {e \<in> set xs. live_entry ?c e}"
    moreover have "live_entries s = {d \<in> set ds. live_entry ?c d} \<union> {e \<in> set us. live_entry ?c e}"
      by (auto simp: live_entries_def live_entry_def es(1))
    moreover have "next_time now ` {d \<in> set ds. live_entry ?c d} =
        rearm now ` {d \<in> set ds. live_entry ?c d}" using es(2) by (intro image_cong) (auto simp: rearm_def next_time_def)
    moreover have "next_time now ` {e \<in> set us. live_entry ?c e} =
        (\<lambda>e. e) ` {e \<in> set us. live_entry ?c e}" using es(3) by (intro image_cong) (auto simp: next_time_def)
    ultimately show ?thesis using P(5) by (simp add: image_Un)
  qed
  ultimately show ?thesis using run P(4) by auto
qed

theorem timers_execute_ends_witness:
  "\<exists>s'. timers_execute 15 \<lparr>tm_tag = 0xCAFEDADA, next_timer_id = 2,
       tm_entries = [(10, \<lparr>timer_id = 1, interval = 10, handler = 7, timer_arg = 0\<rparr>),
                     (20, \<lparr>timer_id = 2, interval = 5, handler = 8, timer_arg = 0\<rparr>)], cancelled_timers = {}\<rparr> =
     Some ([(1, 7, 0)], s') \<and> timers_ok s'"
proof -
  let ?s = "\<lparr>tm_tag = 0xCAFEDADA, next_timer_id = 2,
       tm_entries = [(10, \<lparr>timer_id = 1, interval = 10, handler = 7, timer_arg = 0\<rparr>),
                     (20, \<lparr>timer_id = 2, interval = 5, handler = 8, timer_arg = 0\<rparr>)], cancelled_timers = {}\<rparr>"
  have "timers_ok ?s" by (simp add: timers_ok_def)
  moreover have "\<forall>e \<in> set (tm_entries ?s). due 15 ?s e \<longrightarrow> 15 < 15 + interval (snd e)" by (simp add: due_def)
  ultimately obtain s' where s': "timers_execute 15 ?s = Some (map (\<lambda>e. call (snd e)) (filter (due 15 ?s) (tm_entries ?s)), s')" "timers_ok s'"
    using timers_execute_ends by blast
  have "map (\<lambda>e. call (snd e)) (filter (due 15 ?s) (tm_entries ?s)) = [(1, 7, 0)]" by (simp add: due_def call_def)
  thus ?thesis using s' by auto
qed

subsection \<open>Timers without an interval\<close>

lemma insert_around_parts:
  assumes "insert_around e before rest = (before', rest')" "sorted (map fst (before @ rest))"
  shows "sorted (map fst (before' @ rest')) \<and> set rest \<subseteq> set rest' \<and> ((\<exists>y \<in> set rest. fst y \<le> fst e) \<longrightarrow> e \<in> set rest')"
proof -
  define n where "n = upper_bound (fst e) (before @ rest)"
  note I = insert_at [OF assms(2) n_def]
  show ?thesis
  proof (cases "n \<le> length before")
    case True
    hence r: "before' = take n before @ e # drop n before" "rest' = rest"
      using assms(1) by (simp_all add: insert_around_def Let_def n_def [symmetric])
    have "\<forall>y \<in> set rest. fst e < fst y"
      using upper_parts(2) [OF assms(2), of "fst e", folded n_def] True by simp
    hence "\<not> (\<exists>y \<in> set rest. fst y \<le> fst e)" by (simp add: not_le)
    moreover have "before' @ rest' = take n (before @ rest) @ e # drop n (before @ rest)" using True r by simp
    ultimately show ?thesis using I(1) r(2) by simp
  next
    case False
    let ?m = "n - length before"
    have r: "before' = before" "rest' = take ?m rest @ e # drop ?m rest"
      using assms(1) False by (auto simp: insert_around_def Let_def n_def [symmetric])
    have "before' @ rest' = take n (before @ rest) @ e # drop n (before @ rest)" using False r by simp
    moreover have "set rest' = insert e (set rest)" using set_take_drop [of ?m rest] r(2) by auto
    ultimately show ?thesis using I(1) by auto
  qed
qed

text \<open>Two timers without an interval are due.\<close>

definition stuck :: "u64 \<Rightarrow> entry list \<Rightarrow> entry list \<Rightarrow> int set \<Rightarrow> bool" where
  "stuck now before rest c \<longleftrightarrow>
     sorted (map fst (before @ rest)) \<and>
     (\<exists>a \<in> set rest. \<exists>b \<in> set rest. timer_id (snd a) \<noteq> timer_id (snd b) \<and> interval (snd a) = 0 \<and> interval (snd b) = 0 \<and>
        fst a \<le> now \<and> fst b \<le> now \<and> timer_id (snd a) \<notin> c \<and> timer_id (snd b) \<notin> c)"

lemma stuck_head:
  assumes "stuck now before rest c"
  shows "\<exists>e es. rest = e # es \<and> \<not> now < fst e"
proof -
  obtain a where a: "a \<in> set rest" "fst a \<le> now" and s: "sorted (map fst (before @ rest))" using assms by (auto simp: stuck_def)
  then obtain e es where r: "rest = e # es" by (cases rest) auto
  have "fst e \<le> fst a" using s a(1) by (auto simp: r sorted_append)
  thus ?thesis using r a(2) by auto
qed

lemma stuck_cancelled:
  assumes "stuck now before (e # es) c" "timer_id (snd e) \<in> c"
  shows "stuck now before es (c - {timer_id (snd e)})"
proof -
  have "sorted (map fst (before @ es))" using assms(1) by (simp add: stuck_def sorted_append)
  moreover obtain a b where ab: "a \<in> set (e # es)" "b \<in> set (e # es)" "timer_id (snd a) \<noteq> timer_id (snd b)" "interval (snd a) = 0"
      "interval (snd b) = 0" "fst a \<le> now" "fst b \<le> now" "timer_id (snd a) \<notin> c" "timer_id (snd b) \<notin> c"
    using assms(1) unfolding stuck_def by blast
  moreover have "a \<noteq> e" "b \<noteq> e" using ab(8,9) assms(2) by auto
  ultimately show ?thesis unfolding stuck_def by (intro conjI bexI [of _ a] bexI [of _ b]) auto
qed

lemma stuck_called:
  assumes "stuck now before (e # es) c" "insert_around (now + interval (snd e), snd e) before es = (before', es')"
  shows "stuck now before' es' c"
proof -
  have "sorted (map fst (before @ es))" using assms(1) by (simp add: stuck_def sorted_append)
  note I = insert_around_parts [OF assms(2) this]
  obtain a b where ab: "a \<in> set (e # es)" "b \<in> set (e # es)" "timer_id (snd a) \<noteq> timer_id (snd b)" "interval (snd a) = 0"
      "interval (snd b) = 0" "fst a \<le> now" "fst b \<le> now" "timer_id (snd a) \<notin> c" "timer_id (snd b) \<notin> c"
    using assms(1) unfolding stuck_def by blast
  have again: "(now, snd x) \<in> set es'" if "x = e" "interval (snd x) = 0" "y \<in> set es" "fst y \<le> now" for x y
    using I that by auto
  let ?move = "\<lambda>x. if x = e then (now, snd x) else x"
  have "?move a \<in> set es'" using ab I again [of a b] by auto
  moreover have "?move b \<in> set es'" using ab I again [of b a] by auto
  ultimately show ?thesis unfolding stuck_def using I ab(3-9) by (intro conjI bexI [of _ "?move a"] bexI [of _ "?move b"]) auto
qed

lemma stuck_forever: "stuck now before rest c \<Longrightarrow> execute_loop now before rest c calls = None"
proof (rule ccontr)
  assume st: "stuck now before rest c" and "execute_loop now before rest c calls \<noteq> None"
  then obtain r where ret: "execute_loop now before rest c calls = Some r" by blast
  have "\<not> stuck now before rest c"
  proof (rule execute_loop.raw_induct [where P = "\<lambda>now before rest c calls r. \<not> stuck now before rest c", OF _ ret])
    fix f now before rest c calls r
    assume IH: "\<And>now before rest c calls r. f now before rest c calls = Some r \<Longrightarrow> \<not> stuck now before rest c"
      and eq: "(case rest of [] \<Rightarrow> Some (calls, before, c)
        | e # es \<Rightarrow> if timer_id (snd e) \<in> c then f now before es (c - {timer_id (snd e)}) calls
          else if now < fst e then Some (calls, before @ rest, c)
          else (case insert_around (now + interval (snd e), snd e) before es of
                  (before', es') \<Rightarrow> f now before' es' c (calls @ [call (snd e)]))) = Some r"
    show "\<not> stuck now before rest c"
    proof
      assume st: "stuck now before rest c"
      then obtain e es where r: "rest = e # es" "\<not> now < fst e" using stuck_head by blast
      obtain before' es' where i: "insert_around (now + interval (snd e), snd e) before es = (before', es')" by fastforce
      show False
      proof (cases "timer_id (snd e) \<in> c")
        case True
        thus False using eq IH stuck_cancelled [OF st [unfolded r(1)]] by (auto simp: r)
      next
        case False
        thus False using eq IH stuck_called [OF st [unfolded r(1)] i] by (auto simp: r i)
      qed
    qed
  qed
  thus False using st by simp
qed

text \<open>
  C33. Executing the timers never ends when two timers with interval zero are due and not cancelled:
  each of them is due again as soon as it was called.
\<close>

theorem timers_execute_livelock:
  assumes "timers_ok s" "a \<in> set (tm_entries s)" "b \<in> set (tm_entries s)" "due now s a" "due now s b"
    and "interval (snd a) = 0" "interval (snd b) = 0" "timer_id (snd a) \<noteq> timer_id (snd b)"
  shows "timers_execute now s = None"
proof -
  have "stuck now [] (tm_entries s) (cancelled_timers s)"
    unfolding stuck_def using assms by (intro conjI bexI [of _ a] bexI [of _ b]) (auto simp: timers_ok_def due_def)
  thus ?thesis using stuck_forever by (simp add: timers_execute_def)
qed

theorem timers_execute_livelock_witness:
  "timers_execute 10 \<lparr>tm_tag = 0xCAFEDADA, next_timer_id = 2,
       tm_entries = [(10, \<lparr>timer_id = 1, interval = 0, handler = 7, timer_arg = 0\<rparr>),
                     (10, \<lparr>timer_id = 2, interval = 0, handler = 8, timer_arg = 0\<rparr>)], cancelled_timers = {}\<rparr> = None"
  by (rule timers_execute_livelock [where a = "(10, \<lparr>timer_id = 1, interval = 0, handler = 7, timer_arg = 0\<rparr>)"
        and b = "(10, \<lparr>timer_id = 2, interval = 0, handler = 8, timer_arg = 0\<rparr>)"])
    (simp_all add: timers_ok_def due_def)

end
