(* ===== verification/Spec2Isabelle.thy ===== *)
theory Spec2Isabelle
  imports Decoder_Safety Pipe_Term Lb Pubsub Router Z85 Timers
begin

text \<open>
  \<^bold>\<open>A verification of the messaging core of libuzmq\<close>

  libuzmq is a fork of libzmq that runs over a user-space TCP/IP stack.  An application sends and receives
  messages on sockets.  A socket distributes outbound messages over pipes and collects inbound messages
  from pipes; the other end of a pipe is a socket of the same process or a session, whose engine encodes
  messages into a byte stream and decodes the stream of the peer.  This development models the parts that
  handle messages, from the message object up to the distribution of messages over pipes, in the order in
  which they build on each other.  Paths below are relative to \<open>src/\<close> of the repository.

  \<^bold>\<open>Conventions.\<close>  A definition has the name of the function it models where that is possible, and a
  prefix for the class otherwise.  Objects are records, and operations take and return the state
  explicitly.  An operation returns an option where an assertion of the code may fail, memory may be used
  that is not allocated, or a loop may not end: all of these are \<open>None\<close>.  An error that is reported through
  \<open>errno\<close> is a value \<open>Inl\<close> of the sum type \<open>result\<close>.  Integers have the width of the code where it matters
  (\<open>byte\<close>, \<open>u32\<close>, \<open>u64\<close>).  Loops are recursive functions with a termination proof; \<open>execute_loop\<close> of the
  timers, which may run forever, is a partial function.

  \<^bold>\<open>Theories.\<close>

  \<^item> \<open>Prelude\<close>: types, assertions and generic lemmas; \<open>Simulation\<close>: sequences of operations against pre- and
    postconditions (locale \<open>simulation\<close>).
  \<^item> \<open>Wire\<close> (\<open>wire.hpp\<close>): network byte order; the locale \<open>wire_int\<close> is what the framing relies on.
  \<^item> \<open>Msg\<close>, \<open>Msg_Pool\<close>, \<open>Frame\<close> (\<open>msg.cpp\<close>, \<open>metadata.cpp\<close>, \<open>atomic_counter.hpp\<close>): message objects with
    reference-counted contents in an explicit heap.  \<open>Msg_Pool\<close> shows that any legal sequence of operations
    on any number of messages is memory safe, frees every content exactly once, and gives value semantics;
    \<open>Frame\<close> gives the values on which the upper layers are modelled.
  \<^item> \<open>Encoder\<close>, \<open>Allocator\<close>, \<open>Decoder\<close>, \<open>Framing\<close>, \<open>Decoder_Safety\<close> (\<open>encoder.hpp\<close>, \<open>v1_encoder.cpp\<close>,
    \<open>v2_encoder.cpp\<close>, \<open>raw_encoder.cpp\<close>, \<open>decoder.hpp\<close>, \<open>v1_decoder.cpp\<close>, \<open>v2_decoder.cpp\<close>, \<open>raw_decoder.cpp\<close>,
    \<open>decoder_allocators.cpp\<close> and the reading loop of \<open>stream_engine.cpp\<close>): batches of bytes, the receive buffers
    with zero-copy contents, and the state machines of both protocol versions.  \<open>Framing\<close> proves that
    messages arrive unchanged however the stream is cut (locale \<open>framing\<close>, interpreted for both versions),
    and \<open>Decoder_Safety\<close> that no input of a peer breaks the receiver (locale \<open>guarded_decoder\<close>).
  \<^item> \<open>Yqueue\<close>, \<open>Ypipe\<close>, \<open>Conflate\<close> (\<open>yqueue.hpp\<close>, \<open>ypipe.hpp\<close>, \<open>ypipe_conflate.hpp\<close>, \<open>dbuffer.hpp\<close>): the one-way
    pipes between threads.  The queue of chunks is modelled in a store of chunks; the locale \<open>cell_queue\<close> is
    its contract, and the pipe refines a queue of batches with a sleeping reader.
  \<^item> \<open>Pipe\<close>, \<open>Pipe_Term\<close> (\<open>pipe.cpp\<close>, \<open>command.hpp\<close>, parts of \<open>object.cpp\<close>): the endpoints with flow control by
    watermarks and the termination protocol, as a system of two endpoints with commands in flight.
  \<^item> \<open>Array\<close>, \<open>Sock_Pipes\<close>, \<open>Fq\<close>, \<open>Lb\<close>, \<open>Dist\<close> (\<open>array.hpp\<close>, \<open>fq.cpp\<close>, \<open>lb.cpp\<close>, \<open>dist.cpp\<close>): the strategies of
    sockets on their pipes.
  \<^item> \<open>Trie\<close>, \<open>Mtrie\<close> (\<open>trie.cpp\<close>, \<open>mtrie.cpp\<close>): the subscriptions of subscribers and publishers; the locales
    \<open>compaction\<close> and \<open>subscription_index\<close> are the contracts of the tables of children and of a set of counted
    prefixes.
  \<^item> \<open>Xpub\<close>, \<open>Xsub\<close>, \<open>Pubsub\<close> (\<open>xpub.cpp\<close>, \<open>pub.cpp\<close>, \<open>xsub.cpp\<close>, \<open>sub.cpp\<close>): the publisher and subscriber
    sockets, built from the strategies and the subscriptions, and a subscriber connected to a publisher.
  \<^item> \<open>Router\<close> (\<open>router.cpp\<close>): the socket that routes messages by the routing ids of its peers.
  \<^item> \<open>Z85\<close> (\<open>zmq_utils.cpp\<close>): the text encoding of keys.
  \<^item> \<open>Timers\<close> (\<open>timers.cpp\<close>): the timers of applications.

  \<^bold>\<open>What is shown.\<close>  Memory safety and ownership of messages (C1 to C7), framing (C8 to C12), queues and pipes
  (C13 to C19), termination of pipes (C20, C21), the distribution strategies (C22 to C27), subscriptions
  (C28 to C30), the codec (C31), the timers (C32, C33), the publisher and
  subscriber sockets (C34 to C38): who receives a message, which messages a subscriber skips,
  that the subscriptions of both sides agree; and the routing of messages to peers (C39, C40).
  Some of the theorems prove that the code does not do what it means to: sizes that are truncated (C10), messages that are split between pipes
  (C25), the assertion that a peer can trigger (C30), timers that never finish (C33), and a
  send that fails and makes the next message reach pipes that are not subscribed to it (C35).

  \<^bold>\<open>Bounds.\<close>  The chunk size of the queues is a parameter; reference counters are 32-bit integers, and the
  theorems assume fewer references than they can count.  Sizes of messages are bounded by the width of the
  length fields.  No fuel is used.

  \<^bold>\<open>Not modelled.\<close>  The public interface and the dispatch of sockets (\<open>zmq.cpp\<close>, \<open>socket_base.cpp\<close>, \<open>ctx.cpp\<close>),
  threads, pollers and signalling, because they are system calls and blocking; sessions, listeners and
  connecters and the parsing of addresses for the same reason; the security mechanisms, whose content is
  the cryptography of external libraries; the transports over external libraries; the vendored TCP/IP
  stack under \<open>lwip/\<close>, which is a program of its own; the command-line programs under \<open>perf/\<close>, \<open>tools/\<close> and
  \<open>test/\<close>.  Of the stream engine only the reading side is modelled.  Each operation of the lock-free pipe
  is one atomic step; weak memory is not modelled.  Timer handlers that change timers are not modelled.
\<close>

end
